(* ===== verification/Rust_Prelude.thy ===== *)
theory Rust_Prelude
  imports Main "HOL-Library.Monad_Syntax" "HOL-Library.Word"
begin

text \<open>
  Shared vocabulary of the development.

  \<^item> A Rust computation that may panic (an \<open>unwrap\<close> of \<open>None\<close>, a \<open>todo!()\<close>, an index out of
    range, a failed \<open>assert!\<close>) is a value of type \<open>'a run\<close>: \<open>None\<close> is the panic, \<open>Some x\<close> the
    normal return of \<open>x\<close>. A Rust \<open>Option<T>\<close> computed by such code is therefore a
    \<open>'a option run\<close>.
  \<^item> \<open>all_m\<close>, \<open>ex_m\<close>, \<open>map_m\<close> and \<open>fold_m\<close> are the loops over a vector with an early exit;
    their congruence rules let the function package see through them.
  \<^item> The string operations are those of \<open>str\<close> the sources use.
  \<^item> \<open>rust_simps\<close> collects the equations that unfold the small accessors of the model, and
    \<open>no_panic\<close> the facts that an operation returns.
\<close>

named_theorems rust_simps \<open>equations that unfold small operations of the model\<close>
named_theorems no_panic \<open>facts that an operation of the model returns without a panic\<close>

type_synonym 'a run = "'a option"

section \<open>Loops over vectors\<close>

lemma bind_eq_None_conv:
  "Option.bind x f = None \<longleftrightarrow> x = None \<or> (\<exists>y. x = Some y \<and> f y = None)"
  by (cases x) auto

fun all_m :: "('a \<Rightarrow> bool run) \<Rightarrow> 'a list \<Rightarrow> bool run" where
  "all_m p [] = Some True"
| "all_m p (x # xs) = do { b \<leftarrow> p x; if b then all_m p xs else Some False }"

fun ex_m :: "('a \<Rightarrow> bool run) \<Rightarrow> 'a list \<Rightarrow> bool run" where
  "ex_m p [] = Some False"
| "ex_m p (x # xs) = do { b \<leftarrow> p x; if b then Some True else ex_m p xs }"

fun map_m :: "('a \<Rightarrow> 'b run) \<Rightarrow> 'a list \<Rightarrow> 'b list run" where
  "map_m f [] = Some []"
| "map_m f (x # xs) = do { y \<leftarrow> f x; ys \<leftarrow> map_m f xs; Some (y # ys) }"

fun fold_m :: "('a \<Rightarrow> 's \<Rightarrow> 's run) \<Rightarrow> 'a list \<Rightarrow> 's \<Rightarrow> 's run" where
  "fold_m f [] s = Some s"
| "fold_m f (x # xs) s = do { s' \<leftarrow> f x s; fold_m f xs s' }"

text \<open>A loop that pushes the results and returns \<open>None\<close> early at the first one to reject.\<close>

fun map_until :: "('a \<Rightarrow> 'b run) \<Rightarrow> ('b \<Rightarrow> bool) \<Rightarrow> 'a list \<Rightarrow> 'b list option run" where
  "map_until f stop [] = Some (Some [])"
| "map_until f stop (x # xs) =
     do { y \<leftarrow> f x;
          if stop y then Some None
          else do { r \<leftarrow> map_until f stop xs;
                    Some (case r of None \<Rightarrow> None | Some ys \<Rightarrow> Some (y # ys)) } }"

lemma map_until_cong [fundef_cong]:
  "xs = ys \<Longrightarrow> stop = stop' \<Longrightarrow> (\<And>x. x \<in> set ys \<Longrightarrow> f x = g x) \<Longrightarrow>
   map_until f stop xs = map_until g stop' ys"
  by (induction ys arbitrary: xs) (auto split: bind_splits)

lemma map_until_no_panic [no_panic]:
  "(\<And>x. x \<in> set xs \<Longrightarrow> f x \<noteq> None) \<Longrightarrow> map_until f stop xs \<noteq> None"
  by (induction xs) (auto simp: bind_eq_None_conv)

lemma map_until_Some:
  "map_until f stop xs = Some (Some ys) \<longleftrightarrow> map_m f xs = Some ys \<and> list_all (\<lambda>y. \<not> stop y) ys"
proof (induction xs arbitrary: ys)
  case (Cons x xs)
  then show ?case
    by (cases "f x") (auto simp: bind_eq_Some_conv split: option.splits)
qed auto

lemma all_m_cong [fundef_cong]:
  "xs = ys \<Longrightarrow> (\<And>x. x \<in> set ys \<Longrightarrow> f x = g x) \<Longrightarrow> all_m f xs = all_m g ys"
  by (induction ys arbitrary: xs) (auto split: bind_splits)

lemma ex_m_cong [fundef_cong]:
  "xs = ys \<Longrightarrow> (\<And>x. x \<in> set ys \<Longrightarrow> f x = g x) \<Longrightarrow> ex_m f xs = ex_m g ys"
  by (induction ys arbitrary: xs) (auto split: bind_splits)

lemma map_m_cong [fundef_cong]:
  "xs = ys \<Longrightarrow> (\<And>x. x \<in> set ys \<Longrightarrow> f x = g x) \<Longrightarrow> map_m f xs = map_m g ys"
  by (induction ys arbitrary: xs) (auto split: bind_splits)

lemma all_m_no_panic [no_panic]:
  "(\<And>x. x \<in> set xs \<Longrightarrow> p x \<noteq> None) \<Longrightarrow> all_m p xs \<noteq> None"
  by (induction xs) (auto simp: bind_eq_None_conv)

lemma ex_m_no_panic [no_panic]:
  "(\<And>x. x \<in> set xs \<Longrightarrow> p x \<noteq> None) \<Longrightarrow> ex_m p xs \<noteq> None"
  by (induction xs) (auto simp: bind_eq_None_conv)

lemma map_m_no_panic [no_panic]:
  "(\<And>x. x \<in> set xs \<Longrightarrow> f x \<noteq> None) \<Longrightarrow> map_m f xs \<noteq> None"
  by (induction xs) (auto simp: bind_eq_None_conv)

lemma all_m_Some_True: "all_m p xs = Some True \<longleftrightarrow> (\<forall>x \<in> set xs. p x = Some True)"
  by (induction xs) (auto split: bind_splits)

lemma all_m_Some [simp]: "all_m (\<lambda>x. Some (p x)) xs = Some (list_all p xs)"
  by (induction xs) auto

lemma ex_m_Some [simp]: "ex_m (\<lambda>x. Some (p x)) xs = Some (list_ex p xs)"
  by (induction xs) auto

lemma map_m_Some [simp]: "map_m (\<lambda>x. Some (f x)) xs = Some (map f xs)"
  by (induction xs) auto

lemma map_m_length: "map_m f xs = Some ys \<Longrightarrow> length ys = length xs"
  by (induction xs arbitrary: ys) (auto split: bind_splits)

lemma map_m_nth: "map_m f xs = Some ys \<Longrightarrow> i < length xs \<Longrightarrow> f (xs ! i) = Some (ys ! i)"
  by (induction xs arbitrary: ys i) (auto simp: nth_Cons split: bind_splits nat.splits)

lemma map_m_mem: "map_m f xs = Some ys \<Longrightarrow> y \<in> set ys \<Longrightarrow> \<exists>x \<in> set xs. f x = Some y"
  by (induction xs arbitrary: ys) (auto split: bind_splits)

lemma fold_m_Nil [simp]: "fold_m f [] = Some"
  by (rule ext) simp

lemma fold_m_append [simp]:
  "fold_m f (xs @ ys) s = do { s' \<leftarrow> fold_m f xs s; fold_m f ys s' }"
  by (induction xs arbitrary: s) (auto split: bind_splits)

lemma fold_m_invariant:
  assumes "fold_m f xs s = Some s'" and "I s"
    and "\<And>x s s'. x \<in> set xs \<Longrightarrow> I s \<Longrightarrow> f x s = Some s' \<Longrightarrow> I s'"
  shows "I s'"
  using assms by (induction xs arbitrary: s) (auto split: bind_splits, metis)

lemma fold_m_no_panic:
  assumes "I s" and "\<And>x s. x \<in> set xs \<Longrightarrow> I s \<Longrightarrow> \<exists>s'. f x s = Some s' \<and> I s'"
  shows "\<exists>s'. fold_m f xs s = Some s' \<and> I s'"
  using assms by (induction xs arbitrary: s) (auto, metis bind.bind_lunit)

lemma map_filter_Cons:
  "List.map_filter f (x # xs) = (case f x of None \<Rightarrow> List.map_filter f xs | Some y \<Rightarrow> y # List.map_filter f xs)"
  by (simp add: List.map_filter_simps)

lemma fold_m_default [simp]: "fold_m (\<lambda>c. Some) xs s = Some s"
  by (induction xs) auto

lemma fold_m_concat: "fold_m f (concat xss) = fold_m (\<lambda>xs. fold_m f xs) xss"
proof (induction xss)
  case (Cons xs xss)
  show ?case by (rule ext) (simp add: fold_m_append Cons.IH)
qed (rule ext, simp)

lemma fold_m_map_filter:
  "fold_m f (List.map_filter g xs) = fold_m (\<lambda>x. case g x of None \<Rightarrow> Some | Some y \<Rightarrow> f y) xs"
proof (induction xs)
  case (Cons x xs)
  show ?case by (rule ext) (simp add: map_filter_Cons Cons.IH split: option.split)
qed (rule ext, simp add: List.map_filter_def)

lemma fold_m_map: "fold_m f (map g xs) = fold_m (\<lambda>x. f (g x)) xs"
proof (induction xs)
  case (Cons x xs)
  show ?case by (rule ext) (simp add: Cons.IH)
qed (rule ext, simp)

text \<open>A loop whose steps each add a set to what has been collected.\<close>

lemma fold_m_collects:
  assumes "fold_m f xs s = Some s'" and "I s"
    and "\<And>x s s'. x \<in> set xs \<Longrightarrow> I s \<Longrightarrow> f x s = Some s' \<Longrightarrow> I s' \<and> A s' = A s \<union> B x"
  shows "A s' = A s \<union> (\<Union>x \<in> set xs. B x)"
  using assms
proof (induction xs arbitrary: s)
  case (Cons x xs)
  from Cons.prems(1) obtain t where t: "f x s = Some t" "fold_m f xs t = Some s'"
    by (auto split: bind_splits)
  with Cons.prems(2,3) have "I t" "A t = A s \<union> B x" by (metis list.set_intros(1))+
  with Cons.IH [OF t(2)] Cons.prems(3) show ?case by auto
qed simp

section \<open>Vectors and indices\<close>

text \<open>\<open>v[i]\<close> panics out of range.\<close>

definition index_m :: "'a list \<Rightarrow> nat \<Rightarrow> 'a run" where
  "index_m xs i = (if i < length xs then Some (xs ! i) else None)"

lemma index_m_Some [simp]: "index_m xs i = Some x \<longleftrightarrow> i < length xs \<and> x = xs ! i"
  by (auto simp: index_m_def)

lemma index_m_in [simp]: "i < length xs \<Longrightarrow> index_m xs i = Some (xs ! i)"
  by (simp add: index_m_def)

text \<open>\<open>v[i] = x\<close> panics out of range as well.\<close>

definition update_m :: "'a list \<Rightarrow> nat \<Rightarrow> 'a \<Rightarrow> 'a list run" where
  "update_m xs i x = (if i < length xs then Some (xs[i := x]) else None)"

lemma update_m_in [simp]: "i < length xs \<Longrightarrow> update_m xs i x = Some (xs[i := x])"
  by (simp add: update_m_def)

text \<open>\<open>usize\<close> subtraction: the debug build panics on underflow.\<close>

definition sub_m :: "nat \<Rightarrow> nat \<Rightarrow> nat run" where
  "sub_m a b = (if b \<le> a then Some (a - b) else None)"

lemma sub_m_le [simp]: "b \<le> a \<Longrightarrow> sub_m a b = Some (a - b)"
  by (simp add: sub_m_def)

section \<open>Strings\<close>

abbreviation nl :: string where
  "nl \<equiv> [CHR 0x0A]"

definition starts_with :: "string \<Rightarrow> string \<Rightarrow> bool" where
  "starts_with s p \<longleftrightarrow> take (length p) s = p"

definition ends_with :: "string \<Rightarrow> string \<Rightarrow> bool" where
  "ends_with s p \<longleftrightarrow> length p \<le> length s \<and> drop (length s - length p) s = p"

fun str_contains :: "string \<Rightarrow> string \<Rightarrow> bool" where
  "str_contains [] p = (p = [])"
| "str_contains (c # s) p = (starts_with (c # s) p \<or> str_contains s p)"

lemma starts_with_append [simp]: "starts_with (p @ s) p"
  by (simp add: starts_with_def)

lemma starts_with_iff: "starts_with s p \<longleftrightarrow> (\<exists>t. s = p @ t)"
  by (metis append_take_drop_id starts_with_append starts_with_def)

lemma str_contains_iff: "str_contains s p \<longleftrightarrow> (\<exists>u v. s = u @ p @ v)"
proof (induction s)
  case (Cons c s)
  then show ?case by (auto simp: starts_with_iff Cons_eq_append_conv)
qed auto

text \<open>\<open>s.split(sep)\<close>: leftmost, non-overlapping occurrences of a non-empty separator.\<close>

fun split_go :: "string \<Rightarrow> string \<Rightarrow> string \<Rightarrow> string list" where
  "split_go sep acc [] = [rev acc]"
| "split_go sep acc (c # s) =
     (if sep \<noteq> [] \<and> starts_with (c # s) sep
      then rev acc # split_go sep [] (drop (length sep) (c # s))
      else split_go sep (c # acc) s)"

definition str_split :: "string \<Rightarrow> string \<Rightarrow> string list" where
  "str_split sep s = split_go sep [] s"

text \<open>\<open>parts.join(sep)\<close>.\<close>

fun str_join :: "string \<Rightarrow> string list \<Rightarrow> string" where
  "str_join sep [] = []"
| "str_join sep [x] = x"
| "str_join sep (x # y # xs) = x @ sep @ str_join sep (y # xs)"

lemma split_go_nonempty [simp]: "split_go sep acc s \<noteq> []"
  by (induction sep acc s rule: split_go.induct) auto

lemma join_Cons: "xs \<noteq> [] \<Longrightarrow> str_join sep (x # xs) = x @ sep @ str_join sep xs"
  by (cases xs) auto

lemma join_split_go: "str_join sep (split_go sep acc s) = rev acc @ s"
proof (induction sep acc s rule: split_go.induct)
  case (2 sep acc c s)
  show ?case
  proof (cases "sep \<noteq> [] \<and> starts_with (c # s) sep")
    case True
    then obtain t where t: "c # s = sep @ t" by (auto simp: starts_with_iff)
    with True 2(1) have ih: "str_join sep (split_go sep [] t) = t" by simp
    from True have "split_go sep acc (c # s)
        = rev acc # split_go sep [] (drop (length sep) (c # s))" by simp
    moreover have "drop (length sep) (c # s) = t" by (simp only: t) simp
    ultimately have "split_go sep acc (c # s) = rev acc # split_go sep [] t" by simp
    with ih t show ?thesis by (simp add: join_Cons)
  next
    case False
    with 2(2) show ?thesis by auto
  qed
qed simp

lemma join_split [simp]: "str_join sep (str_split sep s) = s"
  by (simp add: str_split_def join_split_go)

lemma str_split_nonempty [simp]: "str_split sep s \<noteq> []"
  by (simp add: str_split_def)

text \<open>\<open>s.replace(from, to)\<close> for a non-empty \<open>from\<close>.\<close>

definition str_replace :: "string \<Rightarrow> string \<Rightarrow> string \<Rightarrow> string" where
  "str_replace s a b = str_join b (str_split a s)"

text \<open>\<open>usize::to_string\<close>.\<close>

definition digit_char :: "nat \<Rightarrow> char" where
  "digit_char d = char_of (48 + d)"

fun string_of_nat :: "nat \<Rightarrow> string" where
  "string_of_nat n =
     (if n < 10 then [digit_char n]
      else string_of_nat (n div 10) @ [digit_char (n mod 10)])"

declare string_of_nat.simps [simp del]

section \<open>Lists\<close>

text \<open>The index of the first element that satisfies a predicate.\<close>

fun find_index :: "('a \<Rightarrow> bool) \<Rightarrow> 'a list \<Rightarrow> nat option" where
  "find_index p [] = None"
| "find_index p (x # xs) = (if p x then Some 0 else map_option Suc (find_index p xs))"

lemma find_index_Some:
  "find_index p xs = Some i \<Longrightarrow> i < length xs \<and> p (xs ! i) \<and> (\<forall>j < i. \<not> p (xs ! j))"
proof (induction xs arbitrary: i)
  case (Cons x xs)
  then show ?case by (cases i) (auto split: if_splits simp: less_Suc_eq_0_disj)
qed simp

lemma find_index_None: "find_index p xs = None \<longleftrightarrow> (\<forall>x \<in> set xs. \<not> p x)"
  by (induction xs) auto

end
