(* ===== verification/Clean_Types.thy ===== *)
theory Clean_Types
  imports Rust_Prelude
begin

text \<open>
  The part of rustdoc's cleaned AST that the fuzz-target generator inspects
  (\<open>src/librustdoc/clean/types.rs\<close>): types, paths, path segments and generic arguments.
  Constructors keep the source's names behind the initials of their enum (\<open>T_\<close> for \<open>Type\<close>,
  \<open>P_\<close> for \<open>PrimitiveType\<close>, \<open>GA_\<close> for \<open>GenericArg\<close>).

  The generator compares the payloads of function pointers, \<open>impl Trait\<close> bounds, constants and
  associated-type bindings for equality only (derived \<open>PartialEq\<close>) and never looks inside
  them; they are values of the type \<open>opaque\<close>, a printed form of the sub-term.
\<close>

type_synonym Symbol = string
type_synonym opaque = string
type_synonym DefId = "nat \<times> nat"
type_synonym Lifetime = Symbol

datatype Mutability = Mut | Not

datatype PrimitiveType =
    P_Isize | P_I8 | P_I16 | P_I32 | P_I64 | P_I128
  | P_Usize | P_U8 | P_U16 | P_U32 | P_U64 | P_U128
  | P_F32 | P_F64 | P_Char | P_Bool | P_Str
  | P_Slice | P_Array | P_Tuple | P_Unit | P_RawPointer | P_Reference | P_Fn | P_Never

datatype Res =
    Res_Def opaque DefId
  | Res_PrimTy opaque
  | Res_SelfTyParam DefId
  | Res_SelfTyAlias DefId bool bool
  | Res_SelfCtor DefId
  | Res_Local opaque
  | Res_ToolMod
  | Res_NonMacroAttr opaque
  | Res_Err

datatype Type =
    T_Path Path
  | T_DynTrait "(Res \<times> opaque) list" "Lifetime option"
  | T_Generic Symbol
  | T_Primitive PrimitiveType
  | T_BareFunction opaque
  | T_Tuple "Type list"
  | T_Slice Type
  | T_Array Type string
  | T_RawPointer Mutability Type
  | T_BorrowedRef "Lifetime option" Mutability Type
  | T_QPath Type opaque
  | T_Infer
  | T_ImplTrait opaque
and Path = MkPath (path_res: Res) (path_segments: "PathSegment list")
and PathSegment = MkPathSegment (seg_name: Symbol) (seg_args: GenericArgs)
and GenericArgs =
    AngleBracketed "GenericArg list" "opaque list"
  | Parenthesized "Type list" "Type option"
and GenericArg =
    GA_Lifetime Lifetime
  | GA_Type Type
  | GA_Const opaque
  | GA_Infer

section \<open>Primitive types\<close>

fun as_sym :: "PrimitiveType \<Rightarrow> Symbol" where
  "as_sym P_Isize = ''isize''"
| "as_sym P_I8 = ''i8''"
| "as_sym P_I16 = ''i16''"
| "as_sym P_I32 = ''i32''"
| "as_sym P_I64 = ''i64''"
| "as_sym P_I128 = ''i128''"
| "as_sym P_Usize = ''usize''"
| "as_sym P_U8 = ''u8''"
| "as_sym P_U16 = ''u16''"
| "as_sym P_U32 = ''u32''"
| "as_sym P_U64 = ''u64''"
| "as_sym P_U128 = ''u128''"
| "as_sym P_F32 = ''f32''"
| "as_sym P_F64 = ''f64''"
| "as_sym P_Str = ''str''"
| "as_sym P_Bool = ''bool''"
| "as_sym P_Char = ''char''"
| "as_sym P_Array = ''array''"
| "as_sym P_Slice = ''slice''"
| "as_sym P_Tuple = ''tuple''"
| "as_sym P_Unit = ''unit''"
| "as_sym P_RawPointer = ''pointer''"
| "as_sym P_Reference = ''reference''"
| "as_sym P_Fn = ''fn''"
| "as_sym P_Never = ''never''"

lemma as_sym_inj: "as_sym p = as_sym q \<longleftrightarrow> p = q"
  by (cases p; cases q; simp)

section \<open>Definition ids\<close>

text \<open>\<open>Res::opt_def_id\<close> and the panicking \<open>Res::def_id\<close>.\<close>

fun opt_def_id :: "Res \<Rightarrow> DefId option" where
  "opt_def_id (Res_Def _ d) = Some d"
| "opt_def_id _ = None"

definition res_def_id :: "Res \<Rightarrow> DefId run" where
  "res_def_id r = opt_def_id r"

definition path_def_id :: "Path \<Rightarrow> DefId run" where
  "path_def_id p = res_def_id (path_res p)"

text \<open>
  The generator reads one field of rustdoc's \<open>Cache\<close>: where the primitive types are documented.
\<close>

record Cache =
  primitive_locations :: "PrimitiveType \<rightharpoonup> DefId"

text \<open>
  \<open>Type::inner_def_id\<close> with the cache present, that is \<open>Type::def_id\<close>. The outer option is the
  panic (of \<open>Path::def_id\<close>, and of \<open>bounds[0]\<close> on an empty list of bounds), the inner one is
  the result.
\<close>

fun type_def_id :: "Cache \<Rightarrow> Type \<Rightarrow> DefId option run" where
  "type_def_id c (T_Path p) = map_option Some (path_def_id p)"
| "type_def_id c (T_DynTrait bounds _) =
     do { (r, _) \<leftarrow> index_m bounds 0; d \<leftarrow> res_def_id r; Some (Some d) }"
| "type_def_id c (T_Primitive p) = Some (primitive_locations c p)"
| "type_def_id c (T_BorrowedRef _ _ t) =
     (case t of
        T_Generic _ \<Rightarrow> Some (primitive_locations c P_Reference)
      | _ \<Rightarrow> type_def_id c t)"
| "type_def_id c (T_Tuple ts) =
     Some (primitive_locations c (if ts = [] then P_Unit else P_Tuple))"
| "type_def_id c (T_BareFunction _) = Some (primitive_locations c P_Fn)"
| "type_def_id c (T_Slice _) = Some (primitive_locations c P_Slice)"
| "type_def_id c (T_Array _ _) = Some (primitive_locations c P_Array)"
| "type_def_id c (T_RawPointer _ _) = Some (primitive_locations c P_RawPointer)"
| "type_def_id c (T_QPath t _) = type_def_id c t"
| "type_def_id c (T_Generic _) = Some None"
| "type_def_id c T_Infer = Some None"
| "type_def_id c (T_ImplTrait _) = Some None"

definition is_self_type :: "Type \<Rightarrow> bool" where
  "is_self_type t = (t = T_Generic ''Self'')"

section \<open>Resolved types\<close>

text \<open>
  A type is resolved when every path in it, at any depth the generator reaches, names a
  definition and has no argument left to inference (\<open>_\<close>), as the signature of a public function
  does. On such types \<open>Path::def_id\<close> and \<open>new_segments_without_lifetime\<close> do not panic.
\<close>

fun resolved :: "Type \<Rightarrow> bool" where
  "resolved (T_Path (MkPath r segs)) =
     (opt_def_id r \<noteq> None \<and>
      list_all (\<lambda>s. case s of MkPathSegment _ ga \<Rightarrow>
        (case ga of
           AngleBracketed args _ \<Rightarrow> list_all (\<lambda>a. case a of GA_Type t \<Rightarrow> resolved t
             | GA_Infer \<Rightarrow> False | _ \<Rightarrow> True) args
         | Parenthesized ins out \<Rightarrow>
             list_all resolved ins \<and> (case out of None \<Rightarrow> True | Some t \<Rightarrow> resolved t))) segs)"
| "resolved (T_Tuple ts) = list_all resolved ts"
| "resolved (T_Slice t) = resolved t"
| "resolved (T_Array t _) = resolved t"
| "resolved (T_RawPointer _ t) = resolved t"
| "resolved (T_BorrowedRef _ _ t) = resolved t"
| "resolved (T_QPath t _) = resolved t"
| "resolved _ = True"

end
