(* ===== verification/Call_Type.thy ===== *)
theory Call_Type
  imports Clean_Types
begin

text \<open>
  \<open>call_type.rs\<close>: how an available value (a fuzzed parameter or the return value of an earlier
  call) is turned into the argument a function wants, and \<open>api_util::_type_name\<close>, which prints
  the types that occur in a raw-pointer cast.

  The lemmas show that a call type is its array of layers (\<open>call_type_to_array\<close> and
  \<open>array_to_call_type\<close> are inverse), and that \<open>split_at_unwrap_call_type\<close>, which introduces one
  helper variable per unwrap, never panics, keeps the printed expression when the helpers are
  substituted, and leaves an unwrap at the head of a piece only.
\<close>

section \<open>Names of types\<close>

fun type_name :: "Type \<Rightarrow> string run" where
  "type_name (T_Path (MkPath _ segs)) =
     do { names \<leftarrow> map_m (\<lambda>s. case s of MkPathSegment n ga \<Rightarrow>
            (case ga of
               AngleBracketed args _ \<Rightarrow>
                 if args = [] then Some n
                 else do { as \<leftarrow> map_m (\<lambda>a. case a of
                               GA_Type t \<Rightarrow> type_name t
                             | GA_Lifetime l \<Rightarrow> Some l
                             | GA_Const _ \<Rightarrow> None
                             | GA_Infer \<Rightarrow> Some ''_'') args;
                           Some (n @ ''<'' @ str_join '', '' as @ ''>'') }
             | Parenthesized _ _ \<Rightarrow> Some n)) segs;
          Some (str_join ''::'' names) }"
| "type_name (T_Primitive p) = Some (as_sym p)"
| "type_name (T_Generic g) = Some g"
| "type_name (T_BorrowedRef _ m t) =
     do { inner \<leftarrow> type_name t;
          Some (''&'' @ (case m of Mut \<Rightarrow> ''mut '' | Not \<Rightarrow> '''') @ inner) }"
| "type_name (T_Tuple ts) =
     do { names \<leftarrow> map_m type_name ts; Some (''('' @ str_join '' ,'' names @ '')'') }"
| "type_name _ = Some ''Currently not supported''"

section \<open>Call types\<close>

datatype ApiUnsafety = Unsafe | Normal

definition is_unsafe :: "ApiUnsafety \<Rightarrow> bool" where
  "is_unsafe u = (case u of Unsafe \<Rightarrow> True | Normal \<Rightarrow> False)"

datatype CallType =
    CT_NotCompatible
  | CT_DirectCall
  | CT_BorrowedRef CallType
  | CT_MutBorrowedRef CallType
  | CT_ConstRawPointer CallType Type
  | CT_MutRawPointer CallType Type
  | CT_AsConvert string
  | CT_UnsafeDeref CallType
  | CT_Deref CallType
  | CT_UnwrapResult CallType
  | CT_ToResult CallType
  | CT_UnwrapOption CallType
  | CT_ToOption CallType

fun to_call_string :: "CallType \<Rightarrow> string \<Rightarrow> string run" where
  "to_call_string CT_NotCompatible v = Some ''''"
| "to_call_string CT_DirectCall v = Some v"
| "to_call_string (CT_BorrowedRef c) v =
     do { s \<leftarrow> to_call_string c v; Some (''&('' @ s @ '')'') }"
| "to_call_string (CT_MutBorrowedRef c) v =
     do { s \<leftarrow> to_call_string c v; Some (''&mut ('' @ s @ '')'') }"
| "to_call_string (CT_ConstRawPointer c ty) v =
     do { s \<leftarrow> to_call_string c v; n \<leftarrow> type_name ty; Some (''&('' @ s @ '') as *const '' @ n) }"
| "to_call_string (CT_MutRawPointer c ty) v =
     do { s \<leftarrow> to_call_string c v; n \<leftarrow> type_name ty; Some (''&('' @ s @ '') as *mut '' @ n) }"
| "to_call_string (CT_AsConvert str) v = Some (v @ '' as '' @ str)"
| "to_call_string (CT_UnsafeDeref c) v =
     do { s \<leftarrow> to_call_string c v; Some (''*('' @ s @ '')'') }"
| "to_call_string (CT_Deref c) v =
     do { s \<leftarrow> to_call_string c v; Some (''*('' @ s @ '')'') }"
| "to_call_string (CT_UnwrapResult c) v =
     do { s \<leftarrow> to_call_string c v; Some (''_unwrap_result('' @ s @ '')'') }"
| "to_call_string (CT_UnwrapOption c) v =
     do { s \<leftarrow> to_call_string c v; Some (''_unwrap_option('' @ s @ '')'') }"
| "to_call_string (CT_ToOption c) v =
     do { s \<leftarrow> to_call_string c v; Some (''Some('' @ s @ '')'') }"
| "to_call_string (CT_ToResult c) v =
     do { s \<leftarrow> to_call_string c v; Some (''Ok('' @ s @ '')'') }"

fun unsafe_call_type :: "CallType \<Rightarrow> ApiUnsafety" where
  "unsafe_call_type (CT_UnsafeDeref _) = Unsafe"
| "unsafe_call_type _ = Normal"

fun contains_move_call_type :: "CallType \<Rightarrow> bool" where
  "contains_move_call_type CT_NotCompatible = True"
| "contains_move_call_type CT_DirectCall = True"
| "contains_move_call_type (CT_AsConvert _) = True"
| "contains_move_call_type (CT_UnwrapOption _) = True"
| "contains_move_call_type (CT_UnwrapResult _) = True"
| "contains_move_call_type (CT_ConstRawPointer c _) = contains_move_call_type c"
| "contains_move_call_type (CT_MutRawPointer c _) = contains_move_call_type c"
| "contains_move_call_type (CT_UnsafeDeref c) = contains_move_call_type c"
| "contains_move_call_type (CT_Deref c) = contains_move_call_type c"
| "contains_move_call_type (CT_ToOption c) = contains_move_call_type c"
| "contains_move_call_type (CT_ToResult c) = contains_move_call_type c"
| "contains_move_call_type (CT_BorrowedRef c) =
     (case c of CT_DirectCall \<Rightarrow> False | _ \<Rightarrow> contains_move_call_type c)"
| "contains_move_call_type (CT_MutBorrowedRef c) =
     (case c of CT_DirectCall \<Rightarrow> False | _ \<Rightarrow> contains_move_call_type c)"

fun is_unwrap_call_type :: "CallType \<Rightarrow> bool" where
  "is_unwrap_call_type (CT_UnwrapOption _) = True"
| "is_unwrap_call_type (CT_UnwrapResult _) = True"
| "is_unwrap_call_type _ = False"

fun contains_unwrap_call_type :: "CallType \<Rightarrow> bool" where
  "contains_unwrap_call_type CT_NotCompatible = False"
| "contains_unwrap_call_type CT_DirectCall = False"
| "contains_unwrap_call_type (CT_AsConvert _) = False"
| "contains_unwrap_call_type (CT_UnwrapOption _) = True"
| "contains_unwrap_call_type (CT_UnwrapResult _) = True"
| "contains_unwrap_call_type (CT_BorrowedRef c) = contains_move_call_type c"
| "contains_unwrap_call_type (CT_MutBorrowedRef c) = contains_move_call_type c"
| "contains_unwrap_call_type (CT_ConstRawPointer c _) = contains_move_call_type c"
| "contains_unwrap_call_type (CT_MutRawPointer c _) = contains_move_call_type c"
| "contains_unwrap_call_type (CT_UnsafeDeref c) = contains_move_call_type c"
| "contains_unwrap_call_type (CT_Deref c) = contains_move_call_type c"
| "contains_unwrap_call_type (CT_ToOption c) = contains_move_call_type c"
| "contains_unwrap_call_type (CT_ToResult c) = contains_move_call_type c"

text \<open>The call type below the outermost layer; \<open>None\<close> for the three leaves.\<close>

fun inner_call_type :: "CallType \<Rightarrow> CallType option" where
  "inner_call_type CT_NotCompatible = None"
| "inner_call_type CT_DirectCall = None"
| "inner_call_type (CT_AsConvert _) = None"
| "inner_call_type (CT_UnwrapOption c) = Some c"
| "inner_call_type (CT_UnwrapResult c) = Some c"
| "inner_call_type (CT_BorrowedRef c) = Some c"
| "inner_call_type (CT_MutBorrowedRef c) = Some c"
| "inner_call_type (CT_ConstRawPointer c _) = Some c"
| "inner_call_type (CT_MutRawPointer c _) = Some c"
| "inner_call_type (CT_UnsafeDeref c) = Some c"
| "inner_call_type (CT_Deref c) = Some c"
| "inner_call_type (CT_ToOption c) = Some c"
| "inner_call_type (CT_ToResult c) = Some c"

lemma inner_call_type_size [termination_simp]:
  "inner_call_type c = Some d \<Longrightarrow> size d < size c"
  by (cases c) auto

fun call_type_to_array :: "CallType \<Rightarrow> CallType list" where
  "call_type_to_array c =
     (case inner_call_type c of
        None \<Rightarrow> [c]
      | Some d \<Rightarrow> [c] @ call_type_to_array d)"

declare call_type_to_array.simps [simp del]

text \<open>The \<open>match current_type\<close> of \<open>_inner_array_to_call_type\<close>: the layer around a new inner part.\<close>

fun rewrap :: "CallType \<Rightarrow> CallType \<Rightarrow> CallType" where
  "rewrap CT_DirectCall d = CT_NotCompatible"
| "rewrap (CT_AsConvert _) d = CT_NotCompatible"
| "rewrap CT_NotCompatible d = CT_NotCompatible"
| "rewrap (CT_BorrowedRef _) d = CT_BorrowedRef d"
| "rewrap (CT_MutBorrowedRef _) d = CT_MutBorrowedRef d"
| "rewrap (CT_ConstRawPointer _ ty) d = CT_ConstRawPointer d ty"
| "rewrap (CT_MutRawPointer _ ty) d = CT_MutRawPointer d ty"
| "rewrap (CT_UnsafeDeref _) d = CT_UnsafeDeref d"
| "rewrap (CT_Deref _) d = CT_Deref d"
| "rewrap (CT_UnwrapOption _) d = CT_UnwrapOption d"
| "rewrap (CT_ToOption _) d = CT_ToOption d"
| "rewrap (CT_UnwrapResult _) d = CT_UnwrapResult d"
| "rewrap (CT_ToResult _) d = CT_ToResult d"

function inner_array_to_call_type :: "CallType list \<Rightarrow> nat \<Rightarrow> CallType" where
  "inner_array_to_call_type arr start =
     (if start \<ge> length arr then CT_NotCompatible
      else if start = length arr - 1 then arr ! start
      else rewrap (arr ! start) (inner_array_to_call_type arr (start + 1)))"
  by pat_completeness auto
termination
  by (relation "measure (\<lambda>(arr, start). length arr - start)") auto

declare inner_array_to_call_type.simps [simp del]

definition array_to_call_type :: "CallType list \<Rightarrow> CallType" where
  "array_to_call_type arr = inner_array_to_call_type arr 0"

text \<open>
  The loop of \<open>_split_at_unwrap_call_type\<close> over the layers still to visit, with the piece under
  construction and the finished pieces as its state; \<open>i == raw_array_len - 1\<close> is \<open>cs = []\<close>.
\<close>

fun split_loop :: "CallType list \<Rightarrow> CallType list \<Rightarrow> CallType list list \<Rightarrow> CallType list list" where
  "split_loop [] one_split res = res"
| "split_loop (c # cs) one_split res =
     (if \<not> is_unwrap_call_type c then
        (let one_split' = one_split @ [c]
         in split_loop cs one_split' (if cs = [] then res @ [one_split'] else res))
      else
        (let res' = (if length one_split > 0 then res @ [one_split @ [CT_DirectCall]] else res)
         in split_loop cs [c] res'))"

definition split_at_unwrap_call_type :: "CallType \<Rightarrow> CallType list run" where
  "split_at_unwrap_call_type c =
     (if \<not> contains_unwrap_call_type c then Some [c]
      else
        let res = split_loop (call_type_to_array c) [] [];
            call_types = rev (map array_to_call_type res)
        in if call_types = [] then None
           else if is_unwrap_call_type (last call_types) then Some (call_types @ [CT_DirectCall])
           else Some call_types)"

section \<open>Layers\<close>

lemma to_array_nonempty [simp]: "call_type_to_array c \<noteq> []"
  by (subst call_type_to_array.simps) (simp split: option.split)

lemma rewrap_inner: "inner_call_type c = Some d \<Longrightarrow> rewrap c d = c"
  by (cases c) auto

lemma inner_rewrap: "inner_call_type c \<noteq> None \<Longrightarrow> inner_call_type (rewrap c d) = Some d"
  by (cases c) auto

lemma is_unwrap_rewrap [simp]:
  "inner_call_type c \<noteq> None \<Longrightarrow> is_unwrap_call_type (rewrap c d) = is_unwrap_call_type c"
  by (cases c) auto

lemma is_unwrap_not_leaf: "is_unwrap_call_type c \<Longrightarrow> inner_call_type c \<noteq> None"
  by (cases c) auto

text \<open>The index-based reassembly is a right fold of \<open>rewrap\<close>.\<close>

fun fold_layers :: "CallType list \<Rightarrow> CallType" where
  "fold_layers [] = CT_NotCompatible"
| "fold_layers [c] = c"
| "fold_layers (c # d # cs) = rewrap c (fold_layers (d # cs))"

lemma inner_array_eq_fold: "inner_array_to_call_type arr start = fold_layers (drop start arr)"
proof (induction arr start rule: inner_array_to_call_type.induct)
  case (1 arr start)
  show ?case
  proof (cases "start < length arr")
    case False
    then show ?thesis by (simp add: inner_array_to_call_type.simps [of arr start])
  next
    case True
    then have d: "drop start arr = arr ! start # drop (Suc start) arr"
      by (simp add: Cons_nth_drop_Suc)
    show ?thesis
    proof (cases "start = length arr - 1")
      case last: True
      with True have "inner_array_to_call_type arr start = arr ! start"
        by (subst inner_array_to_call_type.simps) simp
      moreover from last d have "drop start arr = [arr ! start]" by simp
      ultimately show ?thesis by simp
    next
      case False
      with True have "drop (Suc start) arr \<noteq> []" by simp
      then obtain e es where "drop (Suc start) arr = e # es" by (cases "drop (Suc start) arr") auto
      with 1 True False d show ?thesis
        by (simp add: inner_array_to_call_type.simps [of arr start])
    qed
  qed
qed

lemma array_to_call_type_fold: "array_to_call_type = fold_layers"
  by (rule ext) (simp add: array_to_call_type_def inner_array_eq_fold)

lemma fold_layers_Cons: "cs \<noteq> [] \<Longrightarrow> fold_layers (c # cs) = rewrap c (fold_layers cs)"
  by (cases cs) auto

lemma fold_layers_to_array: "fold_layers (call_type_to_array c) = c"
proof (induction c rule: call_type_to_array.induct)
  case (1 c)
  then show ?case
    by (cases "inner_call_type c")
      (simp_all add: call_type_to_array.simps [of c] fold_layers_Cons rewrap_inner)
qed

text \<open>\<open>layered cs\<close>: inner layers followed by one leaf, the shape of every array of a call type.\<close>

fun layered :: "CallType list \<Rightarrow> bool" where
  "layered [] = False"
| "layered [c] = (inner_call_type c = None)"
| "layered (c # cs) = (inner_call_type c \<noteq> None \<and> layered cs)"

lemma layered_Cons: "cs \<noteq> [] \<Longrightarrow> layered (c # cs) \<longleftrightarrow> inner_call_type c \<noteq> None \<and> layered cs"
  by (cases cs) auto

lemma layered_to_array: "layered (call_type_to_array c)"
proof (induction c rule: call_type_to_array.induct)
  case (1 c)
  then show ?case
    by (cases "inner_call_type c") (simp_all add: call_type_to_array.simps [of c] layered_Cons)
qed

lemma layered_append:
  "list_all (\<lambda>c. inner_call_type c \<noteq> None) one \<Longrightarrow> layered cs \<Longrightarrow> layered (one @ cs)"
proof (induction one)
  case (Cons c one)
  moreover from Cons.prems(2) have "one @ cs \<noteq> []" by (cases cs) auto
  ultimately show ?case by (simp add: layered_Cons)
qed simp

section \<open>Printing layer by layer\<close>

text \<open>What one layer adds around the expression of its inner part.\<close>

definition wrap_string :: "CallType \<Rightarrow> string \<Rightarrow> string run" where
  "wrap_string c s = to_call_string (rewrap c CT_DirectCall) s"

lemma to_call_string_rewrap:
  "inner_call_type c \<noteq> None \<Longrightarrow>
   to_call_string (rewrap c d) v = do { s \<leftarrow> to_call_string d v; wrap_string c s }"
  by (cases c) (auto simp: wrap_string_def split: bind_splits)

definition wraps :: "CallType list \<Rightarrow> string \<Rightarrow> string run" where
  "wraps one s = fold_m wrap_string (rev one) s"

lemma wraps_Nil [simp]: "wraps [] s = Some s"
  by (simp add: wraps_def)

lemma wraps_Cons: "wraps (c # one) s = do { t \<leftarrow> wraps one s; wrap_string c t }"
  by (simp add: wraps_def split: bind_splits)

lemma fold_layers_wraps:
  assumes "list_all (\<lambda>c. inner_call_type c \<noteq> None) one" and "cs \<noteq> []"
  shows "to_call_string (fold_layers (one @ cs)) v
       = do { s \<leftarrow> to_call_string (fold_layers cs) v; wraps one s }"
  using assms
  by (induction one)
    (auto simp: fold_layers_Cons to_call_string_rewrap wraps_Cons split: bind_splits)

definition run_pieces :: "CallType list \<Rightarrow> string \<Rightarrow> string run" where
  "run_pieces cs v = fold_m to_call_string cs v"

lemma run_pieces_Cons:
  "run_pieces (c # cs) v = do { s \<leftarrow> to_call_string c v; run_pieces cs s }"
  by (simp add: run_pieces_def)

lemma run_pieces_Nil [simp]: "run_pieces [] = Some"
  by (rule ext) (simp add: run_pieces_def)

lemma run_pieces_append:
  "run_pieces (xs @ ys) v = do { s \<leftarrow> run_pieces xs v; run_pieces ys s }"
  by (simp add: run_pieces_def)

lemma run_pieces_single [simp]: "run_pieces [c] v = to_call_string c v"
  by (simp add: run_pieces_def)

lemma split_loop_run:
  assumes "layered cs" and "list_all (\<lambda>c. inner_call_type c \<noteq> None) one"
  shows "run_pieces (rev (map fold_layers (split_loop cs one res))) v
       = do { s \<leftarrow> to_call_string (fold_layers (one @ cs)) v;
              run_pieces (rev (map fold_layers res)) s }"
  using assms
proof (induction cs one res rule: split_loop.induct)
  case (2 c cs one res)
  show ?case
  proof (cases "is_unwrap_call_type c")
    case False
    with 2 show ?thesis by (cases "cs = []") (auto simp: layered_Cons run_pieces_Cons)
  next
    case True
    then have leaf: "inner_call_type c \<noteq> None" by (rule is_unwrap_not_leaf)
    with 2(3) have cs: "cs \<noteq> []" "layered cs" by (cases cs; auto)+
    from 2(4) have "to_call_string (fold_layers (one @ [CT_DirectCall])) s = wraps one s" for s
      by (simp add: fold_layers_wraps)
    with 2 True leaf cs show ?thesis
      by (auto simp: fold_layers_wraps run_pieces_Cons split: bind_splits)
  qed
qed simp

lemma split_loop_nonempty:
  "layered cs \<Longrightarrow> split_loop cs one res \<noteq> []"
proof (induction cs one res rule: split_loop.induct)
  case (2 c cs one res)
  have emp: "split_loop [] a b = b" for a b by simp
  show ?case
  proof (cases "cs = []")
    case True
    with 2(3) have "\<not> is_unwrap_call_type c" using is_unwrap_not_leaf [of c] by auto
    with True show ?thesis by simp
  next
    case False
    with 2 show ?thesis by (auto simp: layered_Cons Let_def)
  qed
qed simp

section \<open>Unwraps\<close>

definition has_unwrap :: "CallType \<Rightarrow> bool" where
  "has_unwrap c = list_ex is_unwrap_call_type (call_type_to_array c)"

text \<open>A piece is well split when an unwrap occurs at its outermost layer only.\<close>

definition unwrap_at_head_only :: "CallType \<Rightarrow> bool" where
  "unwrap_at_head_only c = list_all (\<lambda>d. \<not> is_unwrap_call_type d) (tl (call_type_to_array c))"

lemma to_array_inner:
  "inner_call_type c = Some d \<Longrightarrow> call_type_to_array c = c # call_type_to_array d"
  by (simp add: call_type_to_array.simps [of c])

lemma to_array_leaf: "inner_call_type c = None \<Longrightarrow> call_type_to_array c = [c]"
  by (simp add: call_type_to_array.simps [of c])

lemma has_unwrap_moves: "has_unwrap c \<Longrightarrow> contains_move_call_type c"
proof (induction c)
  case (CT_BorrowedRef c)
  then show ?case by (cases c) (auto simp: has_unwrap_def to_array_inner to_array_leaf)
next
  case (CT_MutBorrowedRef c)
  then show ?case by (cases c) (auto simp: has_unwrap_def to_array_inner to_array_leaf)
qed (auto simp: has_unwrap_def to_array_inner to_array_leaf)

lemma has_unwrap_contains: "has_unwrap c \<Longrightarrow> contains_unwrap_call_type c"
  by (cases c) (auto simp: has_unwrap_def to_array_inner to_array_leaf
      intro!: has_unwrap_moves [unfolded has_unwrap_def])

lemma unwrap_at_head_rewrap:
  "inner_call_type c \<noteq> None \<Longrightarrow> unwrap_at_head_only (rewrap c d) \<longleftrightarrow> \<not> has_unwrap d"
  by (simp add: unwrap_at_head_only_def has_unwrap_def to_array_inner [OF inner_rewrap]
      list_all_iff list_ex_iff)

lemma has_unwrap_rewrap:
  "inner_call_type c \<noteq> None \<Longrightarrow> has_unwrap (rewrap c d) \<longleftrightarrow> is_unwrap_call_type c \<or> has_unwrap d"
  by (simp add: has_unwrap_def to_array_inner [OF inner_rewrap])

lemma has_unwrap_fold_layers:
  "layered cs \<Longrightarrow> has_unwrap (fold_layers cs) \<longleftrightarrow> list_ex is_unwrap_call_type cs"
proof (induction cs rule: layered.induct)
  case (2 c)
  then show ?case using is_unwrap_not_leaf by (auto simp: has_unwrap_def to_array_leaf)
next
  case (3 c d cs)
  then show ?case by (simp add: has_unwrap_rewrap)
qed simp

lemma unwrap_at_head_fold_layers:
  "layered cs \<Longrightarrow> unwrap_at_head_only (fold_layers cs) \<longleftrightarrow> list_all (\<lambda>d. \<not> is_unwrap_call_type d) (tl cs)"
proof (induction cs rule: layered.induct)
  case (2 c)
  then show ?case by (simp add: unwrap_at_head_only_def to_array_leaf)
next
  case (3 c d cs)
  then show ?case
    by (simp add: unwrap_at_head_rewrap has_unwrap_fold_layers list_all_iff list_ex_iff)
qed simp

definition good_piece :: "CallType list \<Rightarrow> bool" where
  "good_piece p \<longleftrightarrow> layered p \<and> list_all (\<lambda>d. \<not> is_unwrap_call_type d) (tl p)"

lemma split_loop_good:
  assumes "layered cs" and "list_all (\<lambda>c. inner_call_type c \<noteq> None) one"
    and "list_all (\<lambda>d. \<not> is_unwrap_call_type d) (tl one)" and "list_all good_piece res"
  shows "list_all good_piece (split_loop cs one res)"
  using assms
proof (induction cs one res rule: split_loop.induct)
  case (2 c cs one res)
  show ?case
  proof (cases "is_unwrap_call_type c")
    case False
    with 2(5) have tl: "list_all (\<lambda>d. \<not> is_unwrap_call_type d) (tl (one @ [c]))"
      by (cases one) auto
    show ?thesis
    proof (cases "cs = []")
      case True
      with 2 False tl have "good_piece (one @ [c])" by (auto simp: good_piece_def layered_append)
      with True False 2(6) show ?thesis by simp
    next
      case cs: False
      with 2 False tl show ?thesis by (auto simp: layered_Cons)
    qed
  next
    case True
    then have leaf: "inner_call_type c \<noteq> None" by (rule is_unwrap_not_leaf)
    with 2(3) have cs: "layered cs" by (cases cs) auto
    from 2(4,5) have "good_piece (one @ [CT_DirectCall])"
      by (cases one) (auto simp: good_piece_def layered_append layered_Cons)
    with 2 True leaf cs show ?thesis by (auto simp: Let_def)
  qed
qed simp

section \<open>The properties of call types\<close>

text \<open>C35. Splitting a call type into layers and reassembling the layers gives the call type back:
  \<open>_array_to_call_type\<close> inverts \<open>_call_type_to_array\<close>.\<close>

theorem array_roundtrip: "array_to_call_type (call_type_to_array c) = c"
  by (simp add: array_to_call_type_fold fold_layers_to_array)

lemma split_pieces:
  assumes "split_at_unwrap_call_type c = Some pieces"
  obtains "pieces = [c]" "\<not> contains_unwrap_call_type c"
  | ps where "pieces = rev (map fold_layers (split_loop (call_type_to_array c) [] [])) @ ps"
      and "ps = [] \<or> ps = [CT_DirectCall]"
  using assms by (auto simp: split_at_unwrap_call_type_def array_to_call_type_fold Let_def
      split: if_splits)

lemma split_no_panic [no_panic]: "split_at_unwrap_call_type c \<noteq> None"
  using split_loop_nonempty [OF layered_to_array]
  by (simp add: split_at_unwrap_call_type_def Let_def)

lemma split_run:
  assumes "split_at_unwrap_call_type c = Some pieces"
  shows "run_pieces pieces v = to_call_string c v"
  using assms
proof (cases rule: split_pieces)
  case (2 ps)
  have "run_pieces (rev (map fold_layers (split_loop (call_type_to_array c) [] []))) v
      = to_call_string c v"
    by (simp add: split_loop_run layered_to_array fold_layers_to_array)
  with 2 show ?thesis by (auto simp: run_pieces_append split: bind_splits)
qed simp

lemma split_head_only:
  assumes "split_at_unwrap_call_type c = Some pieces"
  shows "list_all unwrap_at_head_only pieces"
  using assms
proof (cases rule: split_pieces)
  case 1
  then have "\<not> has_unwrap c" using has_unwrap_contains by blast
  with 1 show ?thesis
    by (cases "call_type_to_array c") (auto simp: unwrap_at_head_only_def has_unwrap_def
        list_all_iff list_ex_iff)
next
  case (2 ps)
  have "list_all good_piece (split_loop (call_type_to_array c) [] [])"
    by (rule split_loop_good) (simp_all add: layered_to_array)
  with 2 show ?thesis
    by (auto simp: list_all_iff good_piece_def unwrap_at_head_fold_layers)
      (simp add: unwrap_at_head_only_def to_array_leaf)
qed

text \<open>C31. \<open>_split_at_unwrap_call_type\<close> always returns (its \<open>last().unwrap()\<close> never panics), each
  piece has an unwrap at its outermost layer only, and evaluating the pieces one after the other,
  each on the helper variable of the one before, prints the expression of the whole call type.\<close>

theorem split_at_unwrap_correct:
  "\<exists>pieces. split_at_unwrap_call_type c = Some pieces \<and> pieces \<noteq> []
     \<and> list_all unwrap_at_head_only pieces
     \<and> fold_m to_call_string pieces v = to_call_string c v"
proof -
  obtain pieces where p: "split_at_unwrap_call_type c = Some pieces"
    using split_no_panic [of c] by blast
  moreover from p have "pieces \<noteq> []"
    by (auto simp: split_at_unwrap_call_type_def Let_def split: if_splits)
  ultimately show ?thesis
    using split_head_only [OF p] split_run [OF p, of v] by (auto simp: run_pieces_def)
qed

end
