(* ===== verification/Prelude_Type.thy ===== *)
theory Prelude_Type
  imports Call_Type
begin

text \<open>
  \<open>prelude_type.rs\<close>: \<open>Option\<close> and \<open>Result\<close> are seen through, every other type is taken as it is.
  The map from definition ids to full names (\<open>FullNameMap\<close>, \<open>impl_util.rs\<close>) decides which path
  is one of them. The lemmas give the facts the recursive clients need: the type inside an
  \<open>Option\<close> or \<open>Result\<close> is smaller, and looking inside does not panic on a resolved type.
\<close>

section \<open>Full names\<close>

type_synonym ItemType = opaque

record FullNameMap =
  full_names :: "DefId \<rightharpoonup> string \<times> ItemType"

definition FullNameMap_new :: FullNameMap where
  "FullNameMap_new = \<lparr>full_names = Map.empty\<rparr>"

definition push_mapping :: "FullNameMap \<Rightarrow> DefId \<Rightarrow> string \<Rightarrow> ItemType \<Rightarrow> FullNameMap" where
  "push_mapping m d n ty = m\<lparr>full_names := (full_names m)(d \<mapsto> (n, ty))\<rparr>"

definition get_full_name :: "FullNameMap \<Rightarrow> DefId \<Rightarrow> string option" where
  "get_full_name m d = (case full_names m d of None \<Rightarrow> None | Some (n, _) \<Rightarrow> Some n)"

section \<open>The prelude types\<close>

definition PRELUDED_TYPE :: "(string \<times> string) list" where
  "PRELUDED_TYPE =
     [(''core::option::Option'', ''Option''),
      (''core::result::Result'', ''Result''),
      (''alloc::string::String'', ''String'')]"

definition is_preluded_type :: "string \<Rightarrow> bool" where
  "is_preluded_type n = (map_of PRELUDED_TYPE n \<noteq> None)"

definition get_all_preluded_type :: "string list" where
  "get_all_preluded_type = map fst PRELUDED_TYPE"

definition preluded_type :: "Cache \<Rightarrow> FullNameMap \<Rightarrow> Type \<Rightarrow> bool run" where
  "preluded_type c m t =
     do { od \<leftarrow> type_def_id c t;
          d \<leftarrow> od;
          Some (case get_full_name m d of None \<Rightarrow> False | Some n \<Rightarrow> is_preluded_type n) }"

definition to_strip_type_name :: "string \<Rightarrow> string" where
  "to_strip_type_name n = (case map_of PRELUDED_TYPE n of Some s \<Rightarrow> s | None \<Rightarrow> n)"

datatype PreludeType =
    NotPrelude Type
  | PreludeOption Type
  | PreludeResult Type Type

text \<open>The single type argument of a segment, and the two of a \<open>Result\<close>.\<close>

fun option_arg :: "GenericArgs \<Rightarrow> Type option" where
  "option_arg (AngleBracketed [GA_Type u] _) = Some u"
| "option_arg _ = None"

fun result_arg :: "GenericArgs \<Rightarrow> (Type \<times> Type) option" where
  "result_arg (AngleBracketed [GA_Type u, GA_Type e] _) = Some (u, e)"
| "result_arg _ = None"

fun extract_option :: "PathSegment list \<Rightarrow> Type \<Rightarrow> PreludeType" where
  "extract_option [] t = NotPrelude t"
| "extract_option (s # segs) t =
     (case option_arg (seg_args s) of
        Some u \<Rightarrow> PreludeOption u
      | None \<Rightarrow> extract_option segs t)"

fun extract_result :: "PathSegment list \<Rightarrow> Type \<Rightarrow> PreludeType" where
  "extract_result [] t = NotPrelude t"
| "extract_result (s # segs) t =
     (case result_arg (seg_args s) of
        Some (u, e) \<Rightarrow> PreludeResult u e
      | None \<Rightarrow> extract_result segs t)"

definition from_type :: "Cache \<Rightarrow> FullNameMap \<Rightarrow> Type \<Rightarrow> PreludeType run" where
  "from_type c m t =
     (case t of
        T_Path p \<Rightarrow>
          do { b \<leftarrow> preluded_type c m t;
               if b then
                 do { od \<leftarrow> type_def_id c t;
                      d \<leftarrow> od;
                      n \<leftarrow> get_full_name m d;
                      let s = to_strip_type_name n;
                      Some (if s = ''Option'' then extract_option (path_segments p) t
                            else if s = ''Result'' then extract_result (path_segments p) t
                            else NotPrelude t) }
               else Some (NotPrelude t) }
      | _ \<Rightarrow> Some (NotPrelude t))"

definition prelude_to_type_name :: "PreludeType \<Rightarrow> string run" where
  "prelude_to_type_name p =
     (case p of
        NotPrelude t \<Rightarrow> type_name t
      | PreludeOption t \<Rightarrow> do { n \<leftarrow> type_name t; Some (''Option<'' @ n @ ''>'') }
      | PreludeResult ok err \<Rightarrow>
          do { n \<leftarrow> type_name ok; e \<leftarrow> type_name err;
               Some (''Result<'' @ n @ '', '' @ e @ ''>'') })"

fun is_final_type :: "PreludeType \<Rightarrow> bool" where
  "is_final_type (NotPrelude _) = True"
| "is_final_type (PreludeResult _ _) = False"
| "is_final_type (PreludeOption _) = False"

fun get_final_type :: "PreludeType \<Rightarrow> Type" where
  "get_final_type (NotPrelude t) = t"
| "get_final_type (PreludeOption t) = t"
| "get_final_type (PreludeResult ok _) = ok"

definition prelude_is_option :: "PreludeType \<Rightarrow> bool" where
  "prelude_is_option p = (case p of PreludeOption _ \<Rightarrow> True | _ \<Rightarrow> False)"

definition prelude_is_result :: "PreludeType \<Rightarrow> bool" where
  "prelude_is_result p = (case p of PreludeResult _ _ \<Rightarrow> True | _ \<Rightarrow> False)"

fun unwrap_call_type :: "PreludeType \<Rightarrow> CallType \<Rightarrow> CallType" where
  "unwrap_call_type (NotPrelude _) c = c"
| "unwrap_call_type (PreludeOption _) c = CT_UnwrapOption c"
| "unwrap_call_type (PreludeResult _ _) c = CT_UnwrapResult c"

fun to_call_type :: "PreludeType \<Rightarrow> CallType \<Rightarrow> CallType" where
  "to_call_type (NotPrelude _) c = c"
| "to_call_type (PreludeOption _) c = CT_ToOption c"
| "to_call_type (PreludeResult _ _) c = CT_ToResult c"

definition prelude_type_need_special_dealing :: "Cache \<Rightarrow> FullNameMap \<Rightarrow> Type \<Rightarrow> bool run" where
  "prelude_type_need_special_dealing c m t =
     do { p \<leftarrow> from_type c m t; Some (get_final_type p \<noteq> t) }"

section \<open>Helper functions of the generated file\<close>

datatype PreludeHelper = ResultHelper | OptionHelper

fun helpers_from_call_type :: "CallType \<Rightarrow> PreludeHelper set" where
  "helpers_from_call_type CT_DirectCall = {}"
| "helpers_from_call_type CT_NotCompatible = {}"
| "helpers_from_call_type (CT_AsConvert _) = {}"
| "helpers_from_call_type (CT_BorrowedRef c) = helpers_from_call_type c"
| "helpers_from_call_type (CT_ConstRawPointer c _) = helpers_from_call_type c"
| "helpers_from_call_type (CT_MutBorrowedRef c) = helpers_from_call_type c"
| "helpers_from_call_type (CT_MutRawPointer c _) = helpers_from_call_type c"
| "helpers_from_call_type (CT_Deref c) = helpers_from_call_type c"
| "helpers_from_call_type (CT_ToOption c) = helpers_from_call_type c"
| "helpers_from_call_type (CT_ToResult c) = helpers_from_call_type c"
| "helpers_from_call_type (CT_UnsafeDeref c) = helpers_from_call_type c"
| "helpers_from_call_type (CT_UnwrapOption c) = insert OptionHelper (helpers_from_call_type c)"
| "helpers_from_call_type (CT_UnwrapResult c) = insert ResultHelper (helpers_from_call_type c)"

definition unwrap_result_function :: string where
  "unwrap_result_function =
     ''fn _unwrap_result<T, E>(_res: Result<T, E>) -> T {'' @ nl @
     ''    match _res {'' @ nl @
     ''        Ok(_t) => _t,'' @ nl @
     ''        Err(_) => {'' @ nl @
     ''            use std::process;'' @ nl @
     ''            process::exit(0);'' @ nl @
     ''        },'' @ nl @
     ''    }'' @ nl @
     ''}'' @ nl"

definition unwrap_option_function :: string where
  "unwrap_option_function =
     ''fn _unwrap_option<T>(_opt: Option<T>) -> T {'' @ nl @
     ''    match _opt {'' @ nl @
     ''        Some(_t) => _t,'' @ nl @
     ''        None => {'' @ nl @
     ''            use std::process;'' @ nl @
     ''            process::exit(0);'' @ nl @
     ''        }'' @ nl @
     ''    }'' @ nl @
     ''}'' @ nl"

fun to_helper_function :: "PreludeHelper \<Rightarrow> string" where
  "to_helper_function ResultHelper = unwrap_result_function"
| "to_helper_function OptionHelper = unwrap_option_function"

section \<open>Sizes: the type inside is smaller\<close>

text \<open>The type arguments of a path, in order.\<close>

definition arg_types :: "GenericArgs \<Rightarrow> Type list" where
  "arg_types ga = (case ga of
     AngleBracketed args _ \<Rightarrow> List.map_filter (\<lambda>a. case a of GA_Type t \<Rightarrow> Some t | _ \<Rightarrow> None) args
   | Parenthesized _ _ \<Rightarrow> [])"

lemma arg_types_size:
  assumes "u \<in> set (arg_types (seg_args s))"
  shows "size u < size s"
proof -
  obtain n ga where s: "s = MkPathSegment n ga" by (cases s)
  from assms s obtain args bs where ga: "ga = AngleBracketed args bs" "GA_Type u \<in> set args"
    by (auto simp: arg_types_def map_filter_def split: GenericArgs.splits GenericArg.splits)
  have "size u < size (GA_Type u)" by simp
  also have "\<dots> \<le> size_list size args"
    using ga(2) by (rule size_list_estimation') simp
  finally show ?thesis using s ga(1) by simp
qed

lemma path_args_size:
  assumes "s \<in> set segs" and "u \<in> set (arg_types (seg_args s))"
  shows "size u < size (T_Path (MkPath r segs))"
proof -
  have "size u < size s" using assms(2) by (rule arg_types_size)
  also have "\<dots> \<le> size_list size segs"
    using assms(1) by (rule size_list_estimation') simp
  finally show ?thesis by simp
qed

lemma option_arg_in: "option_arg ga = Some u \<Longrightarrow> u \<in> set (arg_types ga)"
  by (cases ga rule: option_arg.cases) (auto simp: arg_types_def map_filter_def)

lemma result_arg_in: "result_arg ga = Some (u, e) \<Longrightarrow> u \<in> set (arg_types ga)"
  by (cases ga rule: result_arg.cases) (auto simp: arg_types_def map_filter_def)

lemma extract_option_cases:
  "extract_option segs t = NotPrelude t \<or>
   (\<exists>s \<in> set segs. \<exists>u. extract_option segs t = PreludeOption u \<and> u \<in> set (arg_types (seg_args s)))"
  by (induction segs) (auto dest: option_arg_in split: option.split)

lemma extract_result_cases:
  "extract_result segs t = NotPrelude t \<or>
   (\<exists>s \<in> set segs. \<exists>u e. extract_result segs t = PreludeResult u e \<and> u \<in> set (arg_types (seg_args s)))"
  by (induction segs) (auto dest: result_arg_in split: option.split)

lemma from_type_not_path: "(\<And>p. t \<noteq> T_Path p) \<Longrightarrow> from_type c m t = Some (NotPrelude t)"
  by (cases t) (auto simp: from_type_def)

text \<open>What \<open>from_type\<close> finds is the type itself or an argument of one of its path segments.\<close>

lemma from_type_cases:
  assumes "from_type c m t = Some p"
  obtains "p = NotPrelude t"
  | r segs s u where "t = T_Path (MkPath r segs)" and "s \<in> set segs"
      and "u \<in> set (arg_types (seg_args s))"
      and "p = PreludeOption u \<or> (\<exists>e. p = PreludeResult u e)"
proof (cases "p = NotPrelude t")
  case False
  with assms obtain q where t: "t = T_Path q"
    using from_type_not_path by fastforce
  obtain r segs where q: "q = MkPath r segs" by (cases q)
  from assms False t q consider "p = extract_option segs t" | "p = extract_result segs t"
    by (auto simp: from_type_def Let_def split: bind_splits if_splits)
  then show ?thesis
    using extract_option_cases [of segs t] extract_result_cases [of segs t] that False t q
    by cases force+
qed (rule that)

lemma from_type_final_smaller:
  assumes "from_type c m t = Some p" and "get_final_type p \<noteq> t"
  shows "size (get_final_type p) < size t"
  using assms(1)
proof (cases rule: from_type_cases)
  case (2 r segs s u)
  then have "get_final_type p = u" by auto
  with path_args_size [OF 2(2,3), of r] 2(1) show ?thesis by simp
qed (use assms(2) in simp)

lemma from_type_smaller_option [termination_simp]:
  "from_type c m t = Some (PreludeOption u) \<Longrightarrow> size u < size t"
  by (erule from_type_cases) (auto dest: path_args_size)

lemma from_type_smaller_path [termination_simp]:
  "from_type c m (T_Path p) = Some (PreludeOption u) \<Longrightarrow> size u < Suc (size p)"
  using from_type_smaller_option [of c m "T_Path p" u] by simp

lemma need_special_dealing_from_type:
  "prelude_type_need_special_dealing c m t = Some b \<longleftrightarrow>
   (\<exists>p. from_type c m t = Some p \<and> b = (get_final_type p \<noteq> t))"
  by (auto simp: prelude_type_need_special_dealing_def split: bind_splits)

section \<open>No panic on resolved types\<close>

lemma resolved_path_def_id: "resolved (T_Path p) \<Longrightarrow> \<exists>d. type_def_id c (T_Path p) = Some (Some d)"
  by (cases p) (auto simp: path_def_id_def res_def_id_def)

lemma from_type_no_panic [no_panic]:
  assumes "resolved t"
  shows "from_type c m t \<noteq> None"
proof (cases "\<exists>p. t = T_Path p")
  case True
  then obtain p d where "t = T_Path p" "type_def_id c t = Some (Some d)"
    using assms resolved_path_def_id by blast
  then show ?thesis
    by (auto simp: from_type_def preluded_type_def Let_def split: option.splits)
qed (simp add: from_type_not_path)

lemma need_special_dealing_no_panic [no_panic]:
  "resolved t \<Longrightarrow> prelude_type_need_special_dealing c m t \<noteq> None"
  using from_type_no_panic [of t c m] by (auto simp: prelude_type_need_special_dealing_def)

lemma resolved_args:
  assumes "resolved (T_Path (MkPath r segs))" and "s \<in> set segs"
    and "u \<in> set (arg_types (seg_args s))"
  shows "resolved u"
  using assms
  by (cases s) (fastforce simp: arg_types_def map_filter_def list_all_iff
      split: GenericArgs.splits GenericArg.splits PathSegment.splits)

lemma from_type_resolved:
  assumes "from_type c m t = Some p" and "resolved t"
  shows "resolved (get_final_type p)"
  using assms(1)
proof (cases rule: from_type_cases)
  case (2 r segs s u)
  from 2(4) have "get_final_type p = u" by auto
  with resolved_args [OF _ 2(2,3), of r] 2(1) assms(2) show ?thesis by metis
qed (use assms(2) in simp)

end
