(* ===== verification/Fuzz_Type.thy ===== *)
theory Fuzz_Type
  imports Prelude_Type
begin

text \<open>
  \<open>fuzz_type.rs\<close>: which parameter types can be built from raw fuzz input, what value is read from
  the input (\<open>FuzzableType\<close>) and how that value becomes the argument (\<open>CallType\<close>). The length
  functions decide how many bytes a value takes: a fixed part, and a number of dynamically sized
  parts (strings and slices).

  The lemmas show that the two results of \<open>generate_fuzzable_type_and_call_type\<close> fail together,
  that a type is fixed exactly when it has no dynamic part, and how fixed part and minimal length
  compare.
\<close>

datatype FuzzableCallType =
    FCT_NoFuzzable
  | FCT_Primitive PrimitiveType
  | FCT_Tuple "FuzzableCallType list"
  | FCT_Slice FuzzableCallType
  | FCT_Array FuzzableCallType
  | FCT_ConstRawPoiner FuzzableCallType Type
  | FCT_MutRawPoiner FuzzableCallType Type
  | FCT_STR
  | FCT_BorrowedRef FuzzableCallType
  | FCT_MutBorrowedRef FuzzableCallType
  | FCT_ToOption FuzzableCallType

datatype FuzzableType =
    FT_NoFuzzable
  | FT_Primitive PrimitiveType
  | FT_RefSlice FuzzableType
  | FT_RefStr
  | FT_Tuple "FuzzableType list"

section \<open>From the way to build a value to the value and its use\<close>

text \<open>The shared tail of the pointer, reference and option cases: both parts of the inner result
  must be usable, then the call type gets one more layer.\<close>

definition gen_wrap ::
  "(CallType \<Rightarrow> CallType) \<Rightarrow> FuzzableType \<times> CallType \<Rightarrow> FuzzableType \<times> CallType" where
  "gen_wrap layer r = (case r of (ft, ct) \<Rightarrow>
     if ft = FT_NoFuzzable then (FT_NoFuzzable, CT_NotCompatible)
     else if ct = CT_NotCompatible then (FT_NoFuzzable, CT_NotCompatible)
     else (ft, layer ct))"

fun generate_fuzzable_type_and_call_type :: "FuzzableCallType \<Rightarrow> FuzzableType \<times> CallType" where
  "generate_fuzzable_type_and_call_type FCT_NoFuzzable = (FT_NoFuzzable, CT_NotCompatible)"
| "generate_fuzzable_type_and_call_type (FCT_Primitive p) = (FT_Primitive p, CT_DirectCall)"
| "generate_fuzzable_type_and_call_type (FCT_Tuple ts) =
     (case map_m (\<lambda>t. case generate_fuzzable_type_and_call_type t of (ft, ct) \<Rightarrow>
             if ft = FT_NoFuzzable then None
             else if ct = CT_DirectCall then Some ft
             else None) ts of
        None \<Rightarrow> (FT_NoFuzzable, CT_NotCompatible)
      | Some fts \<Rightarrow> (FT_Tuple fts, CT_DirectCall))"
| "generate_fuzzable_type_and_call_type (FCT_ConstRawPoiner t ty) =
     gen_wrap (\<lambda>c. CT_ConstRawPointer c ty) (generate_fuzzable_type_and_call_type t)"
| "generate_fuzzable_type_and_call_type (FCT_MutRawPoiner t ty) =
     gen_wrap (\<lambda>c. CT_MutRawPointer c ty) (generate_fuzzable_type_and_call_type t)"
| "generate_fuzzable_type_and_call_type (FCT_BorrowedRef t) =
     (case t of
        FCT_Slice s \<Rightarrow>
          (case generate_fuzzable_type_and_call_type s of (ft, ct) \<Rightarrow>
             if ft = FT_NoFuzzable then (FT_NoFuzzable, CT_NotCompatible)
             else if ct = CT_NotCompatible then (FT_NoFuzzable, CT_NotCompatible)
             else (FT_RefSlice ft, CT_DirectCall))
      | _ \<Rightarrow> gen_wrap CT_BorrowedRef (generate_fuzzable_type_and_call_type t))"
| "generate_fuzzable_type_and_call_type (FCT_MutBorrowedRef t) =
     gen_wrap CT_MutBorrowedRef (generate_fuzzable_type_and_call_type t)"
| "generate_fuzzable_type_and_call_type FCT_STR = (FT_RefStr, CT_DirectCall)"
| "generate_fuzzable_type_and_call_type (FCT_ToOption t) =
     gen_wrap CT_ToOption (generate_fuzzable_type_and_call_type t)"
| "generate_fuzzable_type_and_call_type (FCT_Array _) = (FT_NoFuzzable, CT_NotCompatible)"
| "generate_fuzzable_type_and_call_type (FCT_Slice _) = (FT_NoFuzzable, CT_NotCompatible)"

section \<open>Lengths\<close>

fun is_fixed_length :: "FuzzableType \<Rightarrow> bool" where
  "is_fixed_length FT_NoFuzzable = True"
| "is_fixed_length (FT_Primitive _) = True"
| "is_fixed_length (FT_RefSlice _) = False"
| "is_fixed_length FT_RefStr = False"
| "is_fixed_length (FT_Tuple ts) = list_all is_fixed_length ts"

fun primitive_length :: "PrimitiveType \<Rightarrow> nat" where
  "primitive_length P_I8 = 1"
| "primitive_length P_U8 = 1"
| "primitive_length P_Bool = 1"
| "primitive_length P_I16 = 2"
| "primitive_length P_U16 = 2"
| "primitive_length P_I32 = 4"
| "primitive_length P_U32 = 4"
| "primitive_length P_Char = 4"
| "primitive_length P_F32 = 4"
| "primitive_length P_I64 = 8"
| "primitive_length P_U64 = 8"
| "primitive_length P_F64 = 8"
| "primitive_length P_Usize = 8"
| "primitive_length P_Isize = 8"
| "primitive_length P_I128 = 16"
| "primitive_length P_U128 = 16"
| "primitive_length _ = 0"

fun min_length :: "FuzzableType \<Rightarrow> nat" where
  "min_length FT_NoFuzzable = 0"
| "min_length (FT_Primitive p) = primitive_length p"
| "min_length (FT_RefSlice t) = min_length t"
| "min_length FT_RefStr = 1"
| "min_length (FT_Tuple ts) = sum_list (map min_length ts)"

fun fixed_part_length :: "FuzzableType \<Rightarrow> nat" where
  "fixed_part_length t =
     (if is_fixed_length t then min_length t
      else case t of
        FT_RefStr \<Rightarrow> 0
      | FT_RefSlice _ \<Rightarrow> 0
      | FT_Tuple ts \<Rightarrow> sum_list (map fixed_part_length ts)
      | _ \<Rightarrow> min_length t)"

fun dynamic_length_param_number :: "FuzzableType \<Rightarrow> nat" where
  "dynamic_length_param_number t =
     (if is_fixed_length t then 0
      else case t of
        FT_RefStr \<Rightarrow> 1
      | FT_RefSlice _ \<Rightarrow> 1
      | FT_Tuple ts \<Rightarrow> sum_list (map dynamic_length_param_number ts)
      | _ \<Rightarrow> 0)"

declare fixed_part_length.simps [simp del] dynamic_length_param_number.simps [simp del]

fun is_multiple_dynamic_length :: "FuzzableType \<Rightarrow> bool" where
  "is_multiple_dynamic_length (FT_RefSlice t) = (\<not> is_fixed_length t)"
| "is_multiple_dynamic_length (FT_Tuple ts) = list_ex is_multiple_dynamic_length ts"
| "is_multiple_dynamic_length _ = False"

fun to_type_string :: "FuzzableType \<Rightarrow> string" where
  "to_type_string FT_NoFuzzable = ''nofuzzable''"
| "to_type_string (FT_Primitive p) = as_sym p"
| "to_type_string (FT_RefSlice t) = ''&['' @ to_type_string t @ '']''"
| "to_type_string FT_RefStr = ''&str''"
| "to_type_string (FT_Tuple ts) = ''('' @ str_join '' ,'' (map to_type_string ts) @ '')''"

section \<open>Which types can be fuzzed\<close>

text \<open>The generic case asserts that the substituted type is primitive, so its recursive call is the
  primitive case.\<close>

fun fuzzable_call_type ::
  "Cache \<Rightarrow> FullNameMap \<Rightarrow> (string \<rightharpoonup> Type) option \<Rightarrow> Type \<Rightarrow> FuzzableCallType run" where
  "fuzzable_call_type c m sub (T_Path p) =
     (case from_type c m (T_Path p) of
        None \<Rightarrow> None
      | Some (NotPrelude _) \<Rightarrow> Some FCT_NoFuzzable
      | Some (PreludeResult _ _) \<Rightarrow> Some FCT_NoFuzzable
      | Some (PreludeOption u) \<Rightarrow>
          do { f \<leftarrow> fuzzable_call_type c m sub u;
               Some (if f = FCT_NoFuzzable then FCT_NoFuzzable else FCT_ToOption f) })"
| "fuzzable_call_type c m sub (T_Generic s) =
     (case sub of
        None \<Rightarrow> Some FCT_NoFuzzable
      | Some \<sigma> \<Rightarrow>
          (case \<sigma> s of
             None \<Rightarrow> Some FCT_NoFuzzable
           | Some (T_Primitive p) \<Rightarrow> Some (FCT_Primitive p)
           | Some _ \<Rightarrow> None))"
| "fuzzable_call_type c m sub (T_Primitive p) = Some (FCT_Primitive p)"
| "fuzzable_call_type c m sub (T_BareFunction _) = Some FCT_NoFuzzable"
| "fuzzable_call_type c m sub (T_Tuple ts) =
     do { r \<leftarrow> map_until (fuzzable_call_type c m sub) (\<lambda>f. f = FCT_NoFuzzable) ts;
          Some (case r of None \<Rightarrow> FCT_NoFuzzable | Some fs \<Rightarrow> FCT_Tuple fs) }"
| "fuzzable_call_type c m sub (T_Slice t) =
     do { f \<leftarrow> fuzzable_call_type c m sub t;
          Some (if f = FCT_NoFuzzable then FCT_NoFuzzable else FCT_Slice f) }"
| "fuzzable_call_type c m sub (T_Array t _) =
     do { f \<leftarrow> fuzzable_call_type c m sub t;
          Some (if f = FCT_NoFuzzable then FCT_NoFuzzable else FCT_Array f) }"
| "fuzzable_call_type c m sub (T_RawPointer mu t) =
     do { f \<leftarrow> fuzzable_call_type c m sub t;
          Some (if f = FCT_NoFuzzable then FCT_NoFuzzable
                else (case mu of Mut \<Rightarrow> FCT_MutRawPoiner f t | Not \<Rightarrow> FCT_ConstRawPoiner f t)) }"
| "fuzzable_call_type c m sub (T_BorrowedRef lt mu t) =
     (if t = T_Primitive P_Str \<and> mu = Not then
        Some (if lt = Some (CHR 0x27 # ''static'') then FCT_NoFuzzable else FCT_STR)
      else
        do { f \<leftarrow> fuzzable_call_type c m sub t;
             Some (if f = FCT_NoFuzzable then FCT_NoFuzzable
                   else (case mu of Mut \<Rightarrow> FCT_MutBorrowedRef f | Not \<Rightarrow> FCT_BorrowedRef f)) })"
| "fuzzable_call_type c m sub (T_QPath _ _) = Some FCT_NoFuzzable"
| "fuzzable_call_type c m sub (T_ImplTrait _) = Some FCT_NoFuzzable"
| "fuzzable_call_type c m sub T_Infer = Some FCT_NoFuzzable"
| "fuzzable_call_type c m sub (T_DynTrait _ _) = Some FCT_NoFuzzable"

definition is_fuzzable_type ::
  "Cache \<Rightarrow> FullNameMap \<Rightarrow> (string \<rightharpoonup> Type) option \<Rightarrow> Type \<Rightarrow> bool run" where
  "is_fuzzable_type c m sub t =
     do { f \<leftarrow> fuzzable_call_type c m sub t; Some (f \<noteq> FCT_NoFuzzable) }"

section \<open>Lemmas\<close>

lemma gen_wrap_cases:
  "gen_wrap layer r = (FT_NoFuzzable, CT_NotCompatible) \<or>
   (fst r \<noteq> FT_NoFuzzable \<and> snd r \<noteq> CT_NotCompatible \<and> gen_wrap layer r = (fst r, layer (snd r)))"
  by (cases r) (auto simp: gen_wrap_def)

lemma fixed_part_simps [simp]:
  "fixed_part_length FT_NoFuzzable = 0"
  "fixed_part_length (FT_Primitive p) = primitive_length p"
  "fixed_part_length (FT_RefSlice t) = 0"
  "fixed_part_length FT_RefStr = 0"
  by (simp_all add: fixed_part_length.simps)

lemma dynamic_number_simps [simp]:
  "dynamic_length_param_number FT_NoFuzzable = 0"
  "dynamic_length_param_number (FT_Primitive p) = 0"
  "dynamic_length_param_number (FT_RefSlice t) = 1"
  "dynamic_length_param_number FT_RefStr = 1"
  by (simp_all add: dynamic_length_param_number.simps)

lemma fixed_part_fixed: "is_fixed_length t \<Longrightarrow> fixed_part_length t = min_length t"
  by (subst fixed_part_length.simps) simp

lemma fixed_part_tuple [simp]:
  "fixed_part_length (FT_Tuple ts) = sum_list (map fixed_part_length ts)"
proof (cases "list_all is_fixed_length ts")
  case True
  then have "map fixed_part_length ts = map min_length ts"
    by (auto simp: list_all_iff fixed_part_fixed)
  moreover from True have "fixed_part_length (FT_Tuple ts) = min_length (FT_Tuple ts)"
    by (simp add: fixed_part_fixed)
  ultimately show ?thesis by (metis min_length.simps(5))
next
  case False
  then show ?thesis by (subst fixed_part_length.simps) simp
qed

lemma dynamic_number_fixed: "is_fixed_length t \<Longrightarrow> dynamic_length_param_number t = 0"
  by (subst dynamic_length_param_number.simps) simp

lemma dynamic_number_tuple [simp]:
  "dynamic_length_param_number (FT_Tuple ts) = sum_list (map dynamic_length_param_number ts)"
proof (cases "list_all is_fixed_length ts")
  case True
  then have "map dynamic_length_param_number ts = map (\<lambda>_. 0) ts"
    by (auto simp: list_all_iff dynamic_number_fixed)
  with True show ?thesis by (simp add: dynamic_number_fixed)
next
  case False
  then show ?thesis by (subst dynamic_length_param_number.simps) simp
qed

lemma fixed_iff_no_dynamic: "is_fixed_length t \<longleftrightarrow> dynamic_length_param_number t = 0"
  by (induction t) (auto simp: list_all_iff)

lemma fixed_part_le_min: "fixed_part_length t \<le> min_length t"
  by (induction t) (auto intro: sum_list_mono)

lemma gen_wrap_agree:
  assumes "gen_wrap layer r = (ft, ct)" and "\<And>c. layer c \<noteq> CT_NotCompatible"
  shows "ft = FT_NoFuzzable \<longleftrightarrow> ct = CT_NotCompatible"
  using gen_wrap_cases [of layer r] assms by auto

lemma generate_agree:
  assumes "generate_fuzzable_type_and_call_type f = (ft, ct)"
  shows "ft = FT_NoFuzzable \<longleftrightarrow> ct = CT_NotCompatible"
proof (cases f)
  case (FCT_Tuple ts)
  with assms show ?thesis by (auto split: option.splits)
next
  case (FCT_BorrowedRef g)
  show ?thesis
  proof (cases "\<exists>s. g = FCT_Slice s")
    case True
    with FCT_BorrowedRef assms show ?thesis by (auto split: prod.splits if_splits)
  next
    case False
    with FCT_BorrowedRef assms
    have "gen_wrap CT_BorrowedRef (generate_fuzzable_type_and_call_type g) = (ft, ct)"
      by (cases g) simp_all
    then show ?thesis by (rule gen_wrap_agree) simp
  qed
qed (use assms in \<open>auto dest: gen_wrap_agree\<close>)

text \<open>A substitution the generator builds maps every parameter to a primitive type.\<close>

definition primitive_subst :: "(string \<rightharpoonup> Type) option \<Rightarrow> bool" where
  "primitive_subst sub = (case sub of None \<Rightarrow> True
     | Some \<sigma> \<Rightarrow> (\<forall>t \<in> ran \<sigma>. \<exists>p. t = T_Primitive p))"

lemma fuzzable_call_type_no_panic [no_panic]:
  assumes "resolved t" and "primitive_subst sub"
  shows "fuzzable_call_type c m sub t \<noteq> None"
  using assms
proof (induction c m sub t rule: fuzzable_call_type.induct)
  case (1 c m sub p)
  show ?case
  proof (cases "from_type c m (T_Path p)")
    case None
    with from_type_no_panic [OF 1(2)] show ?thesis by blast
  next
    case (Some r)
    show ?thesis
    proof (cases r)
      case (PreludeOption u)
      with from_type_resolved [OF Some 1(2)] 1 Some show ?thesis by auto
    qed (use Some in auto)
  qed
next
  case (2 c m sub s)
  then show ?case
    by (auto simp: primitive_subst_def ran_def split: option.splits Type.splits)
next
  case (5 c m sub ts)
  then have "map_until (fuzzable_call_type c m sub) (\<lambda>f. f = FCT_NoFuzzable) ts \<noteq> None"
    by (intro map_until_no_panic) (auto simp: list_all_iff)
  then show ?case by auto
qed auto

lemma is_fuzzable_type_no_panic [no_panic]:
  "resolved t \<Longrightarrow> primitive_subst sub \<Longrightarrow> is_fuzzable_type c m sub t \<noteq> None"
  using fuzzable_call_type_no_panic [of t sub c m] by (auto simp: is_fuzzable_type_def)

end
