(* ===== verification/Api_Util.thy ===== *)
theory Api_Util
  imports Fuzz_Type
begin

text \<open>
  \<open>api_util.rs\<close>: questions about types (is it generic, does it end a chain of calls, is it copied
  when passed), substitution of generic parameters, and the central one: \<open>_same_type\<close>, which
  decides whether the value one function returns can be passed as the parameter of another, and
  by which call type. Then the conditions on a call type that \<open>is_fun_satisfied\<close> uses to track
  moves and borrows.
\<close>

section \<open>Signatures\<close>

record Argument =
  arg_type :: Type
  arg_name :: Symbol
  arg_is_const :: bool

datatype FnRetTy = Return Type | DefaultReturn

definition extract_input_types :: "Argument list \<Rightarrow> Type list" where
  "extract_input_types inputs = map arg_type inputs"

definition extract_output_type :: "FnRetTy \<Rightarrow> Type option" where
  "extract_output_type r = (case r of Return t \<Rightarrow> Some t | DefaultReturn \<Rightarrow> None)"

section \<open>Questions about types\<close>

fun is_generic_type :: "Type \<Rightarrow> bool" where
  "is_generic_type (T_Generic _) = True"
| "is_generic_type (T_Path (MkPath _ segs)) =
     list_ex (\<lambda>s. case s of MkPathSegment _ ga \<Rightarrow>
       (case ga of
          AngleBracketed args _ \<Rightarrow> list_ex (\<lambda>a. case a of GA_Type _ \<Rightarrow> True | _ \<Rightarrow> False) args
        | Parenthesized ins out \<Rightarrow>
            list_ex is_generic_type ins
            \<or> (case out of None \<Rightarrow> False | Some t \<Rightarrow> is_generic_type t))) segs"
| "is_generic_type (T_Tuple ts) = list_ex is_generic_type ts"
| "is_generic_type (T_Slice t) = is_generic_type t"
| "is_generic_type (T_Array t _) = is_generic_type t"
| "is_generic_type (T_RawPointer _ t) = is_generic_type t"
| "is_generic_type (T_BorrowedRef _ _ t) = is_generic_type t"
| "is_generic_type _ = False"

fun is_immutable_borrow_type :: "Type \<Rightarrow> bool" where
  "is_immutable_borrow_type (T_Generic _) = False"
| "is_immutable_borrow_type (T_Path (MkPath _ segs)) =
     list_ex (\<lambda>s. case s of MkPathSegment _ ga \<Rightarrow>
       (case ga of
          AngleBracketed args _ \<Rightarrow>
            list_ex (\<lambda>a. case a of GA_Type t \<Rightarrow> is_immutable_borrow_type t | _ \<Rightarrow> False) args
        | Parenthesized _ _ \<Rightarrow> False)) segs"
| "is_immutable_borrow_type (T_Tuple ts) = list_ex is_immutable_borrow_type ts"
| "is_immutable_borrow_type (T_Slice t) = is_immutable_borrow_type t"
| "is_immutable_borrow_type (T_Array t _) = is_immutable_borrow_type t"
| "is_immutable_borrow_type (T_RawPointer _ t) = is_immutable_borrow_type t"
| "is_immutable_borrow_type (T_BorrowedRef _ mu t) =
     (if mu \<noteq> Mut then True else is_immutable_borrow_type t)"
| "is_immutable_borrow_type _ = False"

lemma special_dealing_smaller [termination_simp]:
  "prelude_type_need_special_dealing c m t = Some True \<Longrightarrow> from_type c m t = Some p \<Longrightarrow>
   size (get_final_type p) < size t"
  by (auto simp: need_special_dealing_from_type intro: from_type_final_smaller)

lemma special_dealing_smaller_path [termination_simp]:
  "prelude_type_need_special_dealing c m (T_Path q) = Some True \<Longrightarrow>
   from_type c m (T_Path q) = Some p \<Longrightarrow> size (get_final_type p) < Suc (size q)"
  using special_dealing_smaller [of c m "T_Path q" p] by simp

fun is_end_type :: "Cache \<Rightarrow> FullNameMap \<Rightarrow> bool \<Rightarrow> Type \<Rightarrow> bool run" where
  "is_end_type c m sg (T_Path p) =
     do { b \<leftarrow> prelude_type_need_special_dealing c m (T_Path p);
          if b = True then
            do { pt \<leftarrow> from_type c m (T_Path p);
                 e \<leftarrow> is_end_type c m sg (get_final_type pt);
                 Some e }
          else Some False }"
| "is_end_type c m sg (T_Generic _) = Some sg"
| "is_end_type c m sg (T_Primitive _) = Some True"
| "is_end_type c m sg (T_BareFunction _) = Some False"
| "is_end_type c m sg (T_Tuple ts) = all_m (is_end_type c m sg) ts"
| "is_end_type c m sg (T_Slice t) = is_end_type c m sg t"
| "is_end_type c m sg (T_Array t _) = is_end_type c m sg t"
| "is_end_type c m sg (T_RawPointer _ t) = is_end_type c m sg t"
| "is_end_type c m sg (T_BorrowedRef _ _ t) = is_end_type c m sg t"
| "is_end_type c m sg (T_QPath _ _) = Some False"
| "is_end_type c m sg T_Infer = Some False"
| "is_end_type c m sg (T_ImplTrait _) = Some False"
| "is_end_type c m sg (T_DynTrait _ _) = Some False"

text \<open>The primitive types that are copied when passed, and the numeric ones among them.\<close>

definition numeric_type :: "PrimitiveType \<Rightarrow> bool" where
  "numeric_type p = (p \<in> {P_Isize, P_I8, P_I16, P_I32, P_I64, P_I128,
     P_Usize, P_U8, P_U16, P_U32, P_U64, P_U128, P_F32, P_F64})"

fun copy_type :: "Type \<Rightarrow> bool" where
  "copy_type (T_Path _) = False"
| "copy_type (T_Generic _) = False"
| "copy_type (T_Primitive p) = (numeric_type p \<or> p = P_Char \<or> p = P_Bool)"
| "copy_type (T_BareFunction _) = False"
| "copy_type T_Infer = False"
| "copy_type (T_Tuple ts) = list_all copy_type ts"
| "copy_type (T_Slice _) = False"
| "copy_type (T_Array t _) = copy_type t"
| "copy_type (T_RawPointer _ _) = True"
| "copy_type (T_BorrowedRef _ mu _) = (case mu of Mut \<Rightarrow> False | Not \<Rightarrow> True)"
| "copy_type (T_QPath _ _) = False"
| "copy_type (T_ImplTrait _) = False"
| "copy_type (T_DynTrait _ _) = False"

section \<open>Substitution of generic parameters\<close>

lemma enumerate_size [termination_simp]:
  "(i, a) \<in> set (enumerate n xs) \<Longrightarrow> y < f a \<Longrightarrow> y < size_list f xs"
  by (rule size_list_estimation [of a]) (auto simp: in_set_enumerate_eq)

fun substitute_type :: "(string \<rightharpoonup> Type) \<Rightarrow> Type \<Rightarrow> Type option" where
  "substitute_type \<sigma> (T_Path (MkPath r segs)) =
     Some (T_Path (MkPath r (map (\<lambda>s. case s of MkPathSegment n ga \<Rightarrow>
       (case ga of
          AngleBracketed args bindings \<Rightarrow>
            MkPathSegment n (AngleBracketed
              (map (\<lambda>(i, a). case a of
                      GA_Type t \<Rightarrow>
                        if i < length bindings then GA_Type t
                        else (case substitute_type \<sigma> t of Some u \<Rightarrow> GA_Type u | None \<Rightarrow> GA_Type t)
                    | _ \<Rightarrow> a) (enumerate 0 args)) bindings)
        | Parenthesized ins out \<Rightarrow> MkPathSegment n (Parenthesized ins out))) segs)))"
| "substitute_type \<sigma> (T_Generic s) =
     Some (case \<sigma> s of Some t \<Rightarrow> t | None \<Rightarrow> T_Primitive P_I32)"
| "substitute_type \<sigma> (T_Tuple ts) = map_option T_Tuple (map_m (substitute_type \<sigma>) ts)"
| "substitute_type \<sigma> (T_Slice t) = map_option T_Slice (substitute_type \<sigma> t)"
| "substitute_type \<sigma> (T_Array t n) = map_option (\<lambda>u. T_Array u n) (substitute_type \<sigma> t)"
| "substitute_type \<sigma> (T_RawPointer mu t) = map_option (T_RawPointer mu) (substitute_type \<sigma> t)"
| "substitute_type \<sigma> (T_BorrowedRef l mu t) =
     map_option (T_BorrowedRef l mu) (substitute_type \<sigma> t)"
| "substitute_type \<sigma> (T_Primitive _) = None"
| "substitute_type \<sigma> (T_BareFunction _) = None"
| "substitute_type \<sigma> (T_QPath _ _) = None"
| "substitute_type \<sigma> T_Infer = None"
| "substitute_type \<sigma> (T_ImplTrait _) = None"
| "substitute_type \<sigma> (T_DynTrait _ _) = None"

section \<open>Can this value be passed there\<close>

text \<open>\<open>GenericArg::Infer\<close> is a \<open>todo!()\<close> of \<open>new_segments_without_lifetime\<close>.\<close>

definition segment_without_lifetime :: "PathSegment \<Rightarrow> PathSegment run" where
  "segment_without_lifetime s = (case s of MkPathSegment n ga \<Rightarrow>
     (case ga of
        AngleBracketed args bindings \<Rightarrow>
          if GA_Infer \<in> set args then None
          else Some (MkPathSegment n (AngleBracketed [] bindings))
      | Parenthesized _ _ \<Rightarrow> Some s))"

definition new_segments_without_lifetime :: "PathSegment list \<Rightarrow> PathSegment list run" where
  "new_segments_without_lifetime segs = map_m segment_without_lifetime segs"

fun resolved_path_equal_without_lifetime :: "Type \<Rightarrow> Type \<Rightarrow> bool run" where
  "resolved_path_equal_without_lifetime (T_Path (MkPath lres lsegs)) (T_Path (MkPath rres rsegs)) =
     (if lres \<noteq> rres \<or> length lsegs \<noteq> length rsegs then Some False
      else do { ls \<leftarrow> new_segments_without_lifetime lsegs;
                rs \<leftarrow> new_segments_without_lifetime rsegs;
                Some (ls = rs) })"
| "resolved_path_equal_without_lifetime _ _ = Some False"

fun same_type_primitive :: "PrimitiveType \<Rightarrow> Type \<Rightarrow> CallType" where
  "same_type_primitive out (T_Primitive inp) =
     (if numeric_type out then
        if out = inp then CT_DirectCall
        else if numeric_type inp then CT_AsConvert (as_sym inp)
        else if inp = P_Char then
          (if out = P_U8 then CT_AsConvert (as_sym inp) else CT_NotCompatible)
        else CT_NotCompatible
      else if out = P_Char then
        (if inp = P_Char then CT_DirectCall
         else if inp = P_U8 then CT_AsConvert (as_sym inp)
         else CT_NotCompatible)
      else CT_NotCompatible)"
| "same_type_primitive _ _ = CT_NotCompatible"

text \<open>The two patterns of the input type that are taken apart first.\<close>

fun as_borrowed_ref :: "Type \<Rightarrow> (Mutability \<times> Type) option" where
  "as_borrowed_ref (T_BorrowedRef _ mu t) = Some (mu, t)"
| "as_borrowed_ref _ = None"

fun as_raw_pointer :: "Type \<Rightarrow> (Mutability \<times> Type) option" where
  "as_raw_pointer (T_RawPointer mu t) = Some (mu, t)"
| "as_raw_pointer _ = None"

lemma as_borrowed_ref_Some:
  "as_borrowed_ref t = Some (mu, u) \<longleftrightarrow> (\<exists>l. t = T_BorrowedRef l mu u)"
  by (cases t) auto

lemma as_raw_pointer_Some: "as_raw_pointer t = Some (mu, u) \<longleftrightarrow> t = T_RawPointer mu u"
  by (cases t) auto

function (sequential) same_type_hard_mode :: "Cache \<Rightarrow> FullNameMap \<Rightarrow> Type \<Rightarrow> Type \<Rightarrow> CallType run"
and same_type_resolved_path :: "Cache \<Rightarrow> FullNameMap \<Rightarrow> Type \<Rightarrow> Type \<Rightarrow> CallType run"
and same_type_raw_pointer :: "Cache \<Rightarrow> FullNameMap \<Rightarrow> Type \<Rightarrow> Type \<Rightarrow> CallType run"
and same_type_borrowed_ref :: "Cache \<Rightarrow> FullNameMap \<Rightarrow> Type \<Rightarrow> Type \<Rightarrow> CallType run"
and borrowed_ref_in_same_type ::
  "Cache \<Rightarrow> FullNameMap \<Rightarrow> Mutability \<Rightarrow> Type \<Rightarrow> Type \<Rightarrow> CallType run"
and raw_pointer_in_same_type ::
  "Cache \<Rightarrow> FullNameMap \<Rightarrow> Mutability \<Rightarrow> Type \<Rightarrow> Type \<Rightarrow> CallType run"
where
  "same_type_hard_mode c m out inp =
     (if out = inp then Some CT_DirectCall
      else case as_borrowed_ref inp of
        Some (mu, t) \<Rightarrow> borrowed_ref_in_same_type c m mu t out
      | None \<Rightarrow> (case as_raw_pointer inp of
        Some (mu, t) \<Rightarrow> raw_pointer_in_same_type c m mu t out
      | None \<Rightarrow>
        do { b \<leftarrow> prelude_type_need_special_dealing c m inp;
             if b = True then
               do { p \<leftarrow> from_type c m inp;
                    inner \<leftarrow> same_type_hard_mode c m out (get_final_type p);
                    Some (if inner = CT_NotCompatible then CT_NotCompatible
                          else to_call_type p inner) }
             else (case out of
                 T_Path _ \<Rightarrow> same_type_resolved_path c m out inp
               | T_Primitive p \<Rightarrow> Some (same_type_primitive p inp)
               | T_RawPointer _ t \<Rightarrow> same_type_raw_pointer c m t inp
               | T_BorrowedRef _ _ t \<Rightarrow> same_type_borrowed_ref c m t inp
               | _ \<Rightarrow> Some CT_NotCompatible) }))"
| "same_type_resolved_path c m out inp =
     do { b \<leftarrow> prelude_type_need_special_dealing c m out;
          if b = True then
            do { p \<leftarrow> from_type c m out;
                 inner \<leftarrow> same_type_hard_mode c m (get_final_type p) inp;
                 Some (if inner = CT_NotCompatible then CT_NotCompatible
                       else unwrap_call_type p inner) }
          else (case inp of
              T_Path _ \<Rightarrow>
                (if out = inp then Some CT_DirectCall
                 else do { e \<leftarrow> resolved_path_equal_without_lifetime out inp;
                           Some (if e then CT_DirectCall else CT_NotCompatible) })
            | _ \<Rightarrow> Some CT_NotCompatible) }"
| "same_type_raw_pointer c m t inp =
     do { inner \<leftarrow> same_type_hard_mode c m t inp;
          Some (if inner = CT_NotCompatible then CT_NotCompatible else CT_UnsafeDeref inner) }"
| "same_type_borrowed_ref c m t inp =
     do { inner \<leftarrow> same_type_hard_mode c m t inp;
          Some (if inner = CT_NotCompatible then CT_NotCompatible
                else if copy_type t then CT_Deref inner
                else CT_NotCompatible) }"
| "borrowed_ref_in_same_type c m mu t out =
     do { inner \<leftarrow> same_type_hard_mode c m out t;
          Some (if inner = CT_NotCompatible then CT_NotCompatible
                else (case mu of Mut \<Rightarrow> CT_MutBorrowedRef inner | Not \<Rightarrow> CT_BorrowedRef inner)) }"
| "raw_pointer_in_same_type c m mu t out =
     do { inner \<leftarrow> same_type_hard_mode c m out t;
          Some (if inner = CT_NotCompatible then CT_NotCompatible
                else (case mu of Mut \<Rightarrow> CT_MutRawPointer inner t
                               | Not \<Rightarrow> CT_ConstRawPointer inner t)) }"
  by pat_completeness auto
termination
  by (relation "measure (case_sum
        (case_sum (\<lambda>(c, m, out, inp). 3 * (size out + size inp) + 1)
          (case_sum (\<lambda>(c, m, out, inp). 3 * (size out + size inp))
            (\<lambda>(c, m, t, inp). 3 * (size t + size inp) + 2)))
        (case_sum (\<lambda>(c, m, t, inp). 3 * (size t + size inp) + 2)
          (case_sum (\<lambda>(c, m, mu, t, out). 3 * (size out + size t) + 2)
            (\<lambda>(c, m, mu, t, out). 3 * (size out + size t) + 2))))")
    (auto simp: as_borrowed_ref_Some as_raw_pointer_Some dest: special_dealing_smaller)

declare same_type_hard_mode.simps [simp del] same_type_resolved_path.simps [simp del]
  same_type_raw_pointer.simps [simp del] same_type_borrowed_ref.simps [simp del]
  borrowed_ref_in_same_type.simps [simp del] raw_pointer_in_same_type.simps [simp del]

definition same_type :: "Cache \<Rightarrow> FullNameMap \<Rightarrow> bool \<Rightarrow> Type \<Rightarrow> Type \<Rightarrow> CallType run" where
  "same_type c m hard_mode out inp =
     (if hard_mode then same_type_hard_mode c m out inp else Some CT_NotCompatible)"

section \<open>Moves and borrows\<close>

definition move_condition :: "Type \<Rightarrow> CallType \<Rightarrow> bool" where
  "move_condition inp ct =
     (if contains_move_call_type ct then True
      else if \<not> copy_type inp then contains_move_call_type ct
      else False)"

fun mutability_of :: "Type \<Rightarrow> Mutability option" where
  "mutability_of (T_BorrowedRef _ mu _) = Some mu"
| "mutability_of (T_RawPointer mu _) = Some mu"
| "mutability_of _ = None"

definition is_mutable_borrow_occurs :: "Type \<Rightarrow> CallType \<Rightarrow> bool" where
  "is_mutable_borrow_occurs inp ct =
     (if contains_move_call_type ct then False
      else mutability_of inp = Some Mut \<and>
        (case ct of CT_DirectCall \<Rightarrow> True | CT_MutBorrowedRef _ \<Rightarrow> True
                  | CT_MutRawPointer _ _ \<Rightarrow> True | _ \<Rightarrow> False))"

definition is_immutable_borrow_occurs :: "Type \<Rightarrow> CallType \<Rightarrow> bool" where
  "is_immutable_borrow_occurs inp ct =
     (mutability_of inp = Some Not \<and>
        (case ct of CT_DirectCall \<Rightarrow> True | CT_BorrowedRef _ \<Rightarrow> True
                  | CT_ConstRawPointer _ _ \<Rightarrow> True | _ \<Rightarrow> False))"

definition need_mut_tag :: "CallType \<Rightarrow> bool" where
  "need_mut_tag ct = (case ct of CT_MutBorrowedRef _ \<Rightarrow> True | CT_MutRawPointer _ _ \<Rightarrow> True
                               | _ \<Rightarrow> False)"

end
