(* ===== verification/Call_Typing.thy ===== *)
theory Call_Typing
  imports Api_Util
begin

text \<open>
  What a call type promises: the expression \<open>to_call_string\<close> prints for it, around a variable of
  one type, has another type. \<open>arg_has_type\<close> states this as typing rules, one per printed form,
  independently of how the generator chooses call types; types of paths are compared up to their
  generic arguments, which the generator does not compare either. The theorems say when the
  choices of \<open>_same_type\<close> and of \<open>fuzzable_call_type\<close> meet the rules, and show the cases in which
  they do not.
\<close>

section \<open>Typing rules\<close>

definition same_definition :: "Type \<Rightarrow> Type \<Rightarrow> bool" where
  "same_definition a b = (case (a, b) of
     (T_Path (MkPath r segs), T_Path (MkPath r' segs')) \<Rightarrow>
       r = r' \<and> map seg_name segs = map seg_name segs'
   | _ \<Rightarrow> False)"

definition compat :: "Type \<Rightarrow> Type \<Rightarrow> bool" where
  "compat a b \<longleftrightarrow> a = b \<or> same_definition a b"

definition castable :: "PrimitiveType \<Rightarrow> PrimitiveType \<Rightarrow> bool" where
  "castable p q \<longleftrightarrow>
     (numeric_type p \<and> numeric_type q) \<or> (p = P_U8 \<and> q = P_Char) \<or> (p = P_Char \<and> q = P_U8)"

inductive arg_has_type :: "Cache \<Rightarrow> FullNameMap \<Rightarrow> Type \<Rightarrow> CallType \<Rightarrow> Type \<Rightarrow> bool"
  for c :: Cache and m :: FullNameMap where
  variable: "compat a b \<Longrightarrow> arg_has_type c m a CT_DirectCall b"
| borrow: "arg_has_type c m a ct b \<Longrightarrow>
    arg_has_type c m a (CT_BorrowedRef ct) (T_BorrowedRef l Not b)"
| borrow_mut: "arg_has_type c m a ct b \<Longrightarrow>
    arg_has_type c m a (CT_MutBorrowedRef ct) (T_BorrowedRef l Mut b)"
| const_ptr: "arg_has_type c m a ct b \<Longrightarrow>
    arg_has_type c m a (CT_ConstRawPointer ct b) (T_RawPointer Not b)"
| cast: "castable p q \<Longrightarrow>
    arg_has_type c m (T_Primitive p) (CT_AsConvert (as_sym q)) (T_Primitive q)"
| unsafe_deref: "arg_has_type c m a ct (T_RawPointer mu b) \<Longrightarrow> compat b b' \<Longrightarrow>
    arg_has_type c m a (CT_UnsafeDeref ct) b'"
| deref: "arg_has_type c m a ct (T_BorrowedRef l mu b) \<Longrightarrow> copy_type b \<Longrightarrow> compat b b' \<Longrightarrow>
    arg_has_type c m a (CT_Deref ct) b'"
| unwrap_option: "arg_has_type c m a ct t \<Longrightarrow> from_type c m t = Some (PreludeOption b) \<Longrightarrow>
    compat b b' \<Longrightarrow> arg_has_type c m a (CT_UnwrapOption ct) b'"
| unwrap_result: "arg_has_type c m a ct t \<Longrightarrow> from_type c m t = Some (PreludeResult b e) \<Longrightarrow>
    compat b b' \<Longrightarrow> arg_has_type c m a (CT_UnwrapResult ct) b'"
| to_option: "arg_has_type c m a ct b \<Longrightarrow> from_type c m t = Some (PreludeOption b) \<Longrightarrow>
    arg_has_type c m a (CT_ToOption ct) t"
| to_result: "arg_has_type c m a ct b \<Longrightarrow> from_type c m t = Some (PreludeResult b e) \<Longrightarrow>
    arg_has_type c m a (CT_ToResult ct) t"

inductive_cases arg_deref_cast: "arg_has_type c m a (CT_Deref (CT_AsConvert s)) b"
inductive_cases arg_cast: "arg_has_type c m a (CT_AsConvert s) b"
inductive_cases arg_variable: "arg_has_type c m a CT_DirectCall b"

lemma compat_refl [simp, intro]: "compat a a"
  by (simp add: compat_def)

text \<open>
  The call types whose printed expression nests the layers in the order the conversion needs: the
  layers that take the output apart (dereference, unwrap) are applied to the variable itself, and
  there is no cast to \<open>*mut\<close>, which is printed from a shared reference.
\<close>

fun printable :: "CallType \<Rightarrow> bool" where
  "printable CT_NotCompatible = False"
| "printable CT_DirectCall = True"
| "printable (CT_AsConvert _) = True"
| "printable (CT_BorrowedRef c) = printable c"
| "printable (CT_MutBorrowedRef c) = printable c"
| "printable (CT_ConstRawPointer c _) = printable c"
| "printable (CT_MutRawPointer c _) = False"
| "printable (CT_ToOption c) = printable c"
| "printable (CT_ToResult c) = printable c"
| "printable (CT_UnsafeDeref c) = (c = CT_DirectCall)"
| "printable (CT_Deref c) = (c = CT_DirectCall)"
| "printable (CT_UnwrapOption c) = (c = CT_DirectCall)"
| "printable (CT_UnwrapResult c) = (c = CT_DirectCall)"

section \<open>How \<open>_same_type\<close> arrives at a call type\<close>

lemma same_type_by_output:
  assumes "out \<noteq> inp" and "as_borrowed_ref inp = None" and "as_raw_pointer inp = None"
    and "prelude_type_need_special_dealing c m inp = Some False"
  shows "same_type_hard_mode c m out inp =
    (case out of
       T_Path _ \<Rightarrow> same_type_resolved_path c m out inp
     | T_Primitive p \<Rightarrow> Some (same_type_primitive p inp)
     | T_RawPointer _ t \<Rightarrow> same_type_raw_pointer c m t inp
     | T_BorrowedRef _ _ t \<Rightarrow> same_type_borrowed_ref c m t inp
     | _ \<Rightarrow> Some CT_NotCompatible)"
  using assms by (simp add: same_type_hard_mode.simps [of c m out inp])

lemma same_type_resolved_path_cases:
  assumes "same_type_resolved_path c m out inp = Some ct" and "ct \<noteq> CT_NotCompatible"
  obtains (prelude) p d where "from_type c m out = Some p" "get_final_type p \<noteq> out"
      "same_type_hard_mode c m (get_final_type p) inp = Some d" "d \<noteq> CT_NotCompatible"
      "ct = unwrap_call_type p d"
  | (same) "out = inp" "ct = CT_DirectCall"
  | (path) "resolved_path_equal_without_lifetime out inp = Some True" "ct = CT_DirectCall"
proof -
  from assms obtain b where b: "prelude_type_need_special_dealing c m out = Some b"
    by (auto simp: same_type_resolved_path.simps bind_eq_Some_conv)
  show ?thesis
  proof (cases b)
    case True
    with b obtain p where p: "from_type c m out = Some p" "get_final_type p \<noteq> out"
      by (auto simp: need_special_dealing_from_type)
    with b True assms that(1) [OF p] show ?thesis
      by (auto simp: same_type_resolved_path.simps [of c m out inp] bind_eq_Some_conv
          split: if_splits)
  next
    case False
    with b assms that(2,3) show ?thesis
      by (auto simp: same_type_resolved_path.simps [of c m out inp] bind_eq_Some_conv
          split: if_splits Type.splits)
  qed
qed

text \<open>The two ways that are left when the parameter is neither a reference nor a raw pointer.\<close>

lemma same_type_input_prelude:
  assumes "same_type_hard_mode c m out inp = Some ct" and "ct \<noteq> CT_NotCompatible"
    and "as_raw_pointer inp = None" and "as_borrowed_ref inp = None" and "out \<noteq> inp"
    and "prelude_type_need_special_dealing c m inp = Some True"
  obtains p d where "from_type c m inp = Some p" "get_final_type p \<noteq> inp"
      "same_type_hard_mode c m out (get_final_type p) = Some d" "d \<noteq> CT_NotCompatible" "ct = to_call_type p d"
proof -
  from assms(6) obtain p where p: "from_type c m inp = Some p" "get_final_type p \<noteq> inp"
    by (auto simp: need_special_dealing_from_type)
  from assms(1,3-6) p(1)
  have "do { inner \<leftarrow> same_type_hard_mode c m out (get_final_type p);
             Some (if inner = CT_NotCompatible then CT_NotCompatible else to_call_type p inner) } = Some ct"
    by (subst (asm) same_type_hard_mode.simps) simp
  then obtain d where "same_type_hard_mode c m out (get_final_type p) = Some d"
      "ct = (if d = CT_NotCompatible then CT_NotCompatible else to_call_type p d)"
    by (auto simp: bind_eq_Some_conv)
  with assms(2) show ?thesis by (intro that [OF p, of d]) (simp_all split: if_splits)
qed

lemma same_type_output_cases [consumes 6]:
  assumes "same_type_hard_mode c m out inp = Some ct" and "ct \<noteq> CT_NotCompatible"
    and "as_raw_pointer inp = None" and "as_borrowed_ref inp = None" and "out \<noteq> inp"
    and "prelude_type_need_special_dealing c m inp = Some False"
  obtains (same) "out = inp" "ct = CT_DirectCall"
  | (out_prelude) p d where "from_type c m out = Some p" "get_final_type p \<noteq> out"
      "same_type_hard_mode c m (get_final_type p) inp = Some d" "d \<noteq> CT_NotCompatible"
      "ct = unwrap_call_type p d"
  | (path) "resolved_path_equal_without_lifetime out inp = Some True" "ct = CT_DirectCall"
  | (prim) p where "out = T_Primitive p" "ct = same_type_primitive p inp"
  | (out_ptr) mu t d where "out = T_RawPointer mu t"
      "same_type_hard_mode c m t inp = Some d" "d \<noteq> CT_NotCompatible" "ct = CT_UnsafeDeref d"
  | (out_ref) l mu t d where "out = T_BorrowedRef l mu t" "copy_type t"
      "same_type_hard_mode c m t inp = Some d" "d \<noteq> CT_NotCompatible" "ct = CT_Deref d"
proof -
  have eq: "same_type_hard_mode c m out inp =
      (case out of
         T_Path _ \<Rightarrow> same_type_resolved_path c m out inp
       | T_Primitive p \<Rightarrow> Some (same_type_primitive p inp)
       | T_RawPointer _ t \<Rightarrow> same_type_raw_pointer c m t inp
       | T_BorrowedRef _ _ t \<Rightarrow> same_type_borrowed_ref c m t inp
       | _ \<Rightarrow> Some CT_NotCompatible)"
    using assms(3-6) by (intro same_type_by_output) auto
  show ?thesis
  proof (cases out)
    case (T_Path q)
    with eq assms(1) have "same_type_resolved_path c m out inp = Some ct" by simp
    then show ?thesis
      using assms(2) by (cases rule: same_type_resolved_path_cases) (erule that(1-3); assumption)+
  next
    case (T_RawPointer mu t)
    with eq assms that(5) show ?thesis
      by (auto simp: same_type_raw_pointer.simps bind_eq_Some_conv split: if_splits)
  next
    case (T_BorrowedRef l mu t)
    with eq assms that(6) show ?thesis
      by (auto simp: same_type_borrowed_ref.simps bind_eq_Some_conv split: if_splits)
  qed (use eq assms that(4) in auto)
qed

lemma same_type_cases [consumes 2]:
  assumes "same_type_hard_mode c m out inp = Some ct" and "ct \<noteq> CT_NotCompatible"
  obtains (same) "out = inp" "ct = CT_DirectCall"
  | (in_ref) l mu t d where "inp = T_BorrowedRef l mu t"
      "same_type_hard_mode c m out t = Some d" "d \<noteq> CT_NotCompatible"
      "ct = (case mu of Mut \<Rightarrow> CT_MutBorrowedRef d | Not \<Rightarrow> CT_BorrowedRef d)"
  | (in_ptr) mu t d where "inp = T_RawPointer mu t"
      "same_type_hard_mode c m out t = Some d" "d \<noteq> CT_NotCompatible"
      "ct = (case mu of Mut \<Rightarrow> CT_MutRawPointer d t | Not \<Rightarrow> CT_ConstRawPointer d t)"
  | (in_prelude) p d where "from_type c m inp = Some p" "get_final_type p \<noteq> inp"
      "same_type_hard_mode c m out (get_final_type p) = Some d" "d \<noteq> CT_NotCompatible"
      "ct = to_call_type p d"
  | (out_prelude) p d where "from_type c m out = Some p" "get_final_type p \<noteq> out"
      "same_type_hard_mode c m (get_final_type p) inp = Some d" "d \<noteq> CT_NotCompatible"
      "ct = unwrap_call_type p d"
  | (path) "resolved_path_equal_without_lifetime out inp = Some True" "ct = CT_DirectCall"
  | (prim) p where "out = T_Primitive p" "ct = same_type_primitive p inp"
  | (out_ptr) mu t d where "out = T_RawPointer mu t"
      "same_type_hard_mode c m t inp = Some d" "d \<noteq> CT_NotCompatible" "ct = CT_UnsafeDeref d"
  | (out_ref) l mu t d where "out = T_BorrowedRef l mu t" "copy_type t"
      "same_type_hard_mode c m t inp = Some d" "d \<noteq> CT_NotCompatible" "ct = CT_Deref d"
proof -
  consider (same) "out = inp"
    | (ref) mu t where "as_borrowed_ref inp = Some (mu, t)" "out \<noteq> inp"
    | (ptr) mu t where "as_raw_pointer inp = Some (mu, t)" "as_borrowed_ref inp = None" "out \<noteq> inp"
    | (other) "as_raw_pointer inp = None" "as_borrowed_ref inp = None" "out \<noteq> inp"
    by (metis not_Some_eq prod.exhaust)
  then show ?thesis
  proof cases
    case same
    with assms same(1) that(1) show ?thesis by (simp add: same_type_hard_mode.simps)
  next
    case (ref mu t)
    with assms have "borrowed_ref_in_same_type c m mu t out = Some ct"
      by (simp add: same_type_hard_mode.simps)
    with ref assms(2) that(2) show ?thesis
      by (auto simp: borrowed_ref_in_same_type.simps as_borrowed_ref_Some bind_eq_Some_conv
          split: if_splits)
  next
    case (ptr mu t)
    with assms have "raw_pointer_in_same_type c m mu t out = Some ct"
      by (simp add: same_type_hard_mode.simps)
    with ptr assms(2) that(3) show ?thesis
      by (auto simp: raw_pointer_in_same_type.simps as_raw_pointer_Some bind_eq_Some_conv
          split: if_splits)
  next
    case other
    with assms obtain b where b: "prelude_type_need_special_dealing c m inp = Some b"
      by (auto simp: same_type_hard_mode.simps bind_eq_Some_conv)
    show ?thesis
    proof (cases b)
      case True
      with b show ?thesis by (auto intro: same_type_input_prelude [OF assms other] that(4))
    next
      case False
      with b have "prelude_type_need_special_dealing c m inp = Some False" by simp
      from assms other this show ?thesis
        by (cases rule: same_type_output_cases) (erule that(1,5-9); assumption)+
    qed
  qed
qed

section \<open>Soundness of \<open>_same_type\<close>\<close>

lemma from_type_final_cases:
  assumes "from_type c m t = Some p" and "get_final_type p \<noteq> t"
  obtains (option) u where "p = PreludeOption u" | (result) u e where "p = PreludeResult u e"
  using assms(1) by (cases rule: from_type_cases) (use assms(2) in auto)

lemma segment_without_lifetime_name:
  "segment_without_lifetime s = Some s' \<Longrightarrow> seg_name s' = seg_name s"
  by (cases s) (auto simp: segment_without_lifetime_def split: GenericArgs.splits if_splits)

lemma new_segments_names:
  "new_segments_without_lifetime segs = Some segs' \<Longrightarrow> map seg_name segs' = map seg_name segs"
  by (induction segs arbitrary: segs')
    (auto simp: new_segments_without_lifetime_def bind_eq_Some_conv segment_without_lifetime_name)

lemma resolved_path_equal_compat:
  "resolved_path_equal_without_lifetime a b = Some True \<Longrightarrow> compat a b"
  by (cases "(a, b)" rule: resolved_path_equal_without_lifetime.cases)
    (auto simp: compat_def same_definition_def bind_eq_Some_conv split: if_splits
      dest!: new_segments_names)

lemma same_type_primitive_sound:
  assumes "same_type_primitive p inp \<noteq> CT_NotCompatible"
  obtains q where "inp = T_Primitive q"
    and "same_type_primitive p inp = CT_DirectCall \<and> p = q
      \<or> same_type_primitive p inp = CT_AsConvert (as_sym q) \<and> castable p q"
  using assms by (cases inp) (auto simp: castable_def split: if_splits)

lemma same_type_sound:
  assumes "same_type_hard_mode c m out inp = Some ct" and "ct \<noteq> CT_NotCompatible"
  shows "(ct = CT_DirectCall \<longrightarrow> compat out inp) \<and> (printable ct \<longrightarrow> arg_has_type c m out ct inp)"
  using assms
proof (induction "size out + size inp" arbitrary: out inp ct rule: less_induct)
  case less
  from less.prems show ?case
  proof (cases rule: same_type_cases)
    case (in_ref l mu t d)
    with less.hyps [OF _ in_ref(2,3)] show ?thesis
      by (cases mu) (auto intro: arg_has_type.intros)
  next
    case (in_ptr mu t d)
    with less.hyps [OF _ in_ptr(2,3)] show ?thesis
      by (cases mu) (auto intro: arg_has_type.intros)
  next
    case (in_prelude p d)
    then have "size (get_final_type p) < size inp" by (intro from_type_final_smaller)
    with less.hyps [OF _ in_prelude(3,4)] in_prelude show ?thesis
      by (cases rule: from_type_final_cases [OF in_prelude(1,2)]) (auto intro: arg_has_type.intros)
  next
    case (out_prelude p d)
    then have "size (get_final_type p) < size out" by (intro from_type_final_smaller)
    with less.hyps [OF _ out_prelude(3,4)] out_prelude show ?thesis
      by (cases rule: from_type_final_cases [OF out_prelude(1,2)])
        (auto intro: arg_has_type.intros)
  next
    case (prim p)
    with less.prems(2) obtain q where "inp = T_Primitive q"
      and "ct = CT_DirectCall \<and> p = q \<or> ct = CT_AsConvert (as_sym q) \<and> castable p q"
      by (metis same_type_primitive_sound)
    with prim(1) show ?thesis by (auto intro: arg_has_type.intros)
  next
    case (out_ptr mu t d)
    with less.hyps [OF _ out_ptr(2,3)] show ?thesis by (auto intro: arg_has_type.intros)
  next
    case (out_ref l mu t d)
    with less.hyps [OF _ out_ref(3,4)] show ?thesis by (auto intro: arg_has_type.intros)
  qed (auto intro: arg_has_type.intros resolved_path_equal_compat)
qed

lemma segment_without_lifetime_no_panic:
  assumes "resolved (T_Path (MkPath r segs))" and "s \<in> set segs"
  shows "segment_without_lifetime s \<noteq> None"
  using assms
  by (cases s) (fastforce simp: segment_without_lifetime_def list_all_iff
      split: GenericArgs.splits PathSegment.splits)

lemma resolved_path_equal_no_panic [no_panic]:
  assumes "resolved a" and "resolved b"
  shows "resolved_path_equal_without_lifetime a b \<noteq> None"
proof (cases "\<exists>r s r' s'. a = T_Path (MkPath r s) \<and> b = T_Path (MkPath r' s')")
  case True
  then obtain r s r' s' where ab: "a = T_Path (MkPath r s)" "b = T_Path (MkPath r' s')" by blast
  have "new_segments_without_lifetime s \<noteq> None"
    unfolding new_segments_without_lifetime_def
    using assms(1) [unfolded ab] by (intro map_m_no_panic segment_without_lifetime_no_panic)
  moreover have "new_segments_without_lifetime s' \<noteq> None"
    unfolding new_segments_without_lifetime_def
    using assms(2) [unfolded ab] by (intro map_m_no_panic segment_without_lifetime_no_panic)
  ultimately show ?thesis using ab by auto
qed (cases "(a, b)" rule: resolved_path_equal_without_lifetime.cases; simp)

lemma resolved_inner:
  "resolved inp \<Longrightarrow> as_borrowed_ref inp = Some (mu, t) \<Longrightarrow> resolved t"
  "resolved inp \<Longrightarrow> as_raw_pointer inp = Some (mu, t) \<Longrightarrow> resolved t"
  by (auto simp: as_borrowed_ref_Some as_raw_pointer_Some)

lemma same_type_resolved_path_no_panic:
  assumes "resolved out" and "resolved inp"
    and IH: "\<And>t. size t < size out \<Longrightarrow> resolved t \<Longrightarrow> same_type_hard_mode c m t inp \<noteq> None"
  shows "same_type_resolved_path c m out inp \<noteq> None"
proof -
  obtain b where b: "prelude_type_need_special_dealing c m out = Some b"
    using need_special_dealing_no_panic [OF assms(1)] by blast
  show ?thesis
  proof (cases b)
    case True
    with b obtain p where p: "from_type c m out = Some p" "get_final_type p \<noteq> out"
      by (auto simp: need_special_dealing_from_type)
    then have "same_type_hard_mode c m (get_final_type p) inp \<noteq> None"
      by (intro IH from_type_final_smaller from_type_resolved [OF _ assms(1)])
    with p b True show ?thesis by (auto simp: same_type_resolved_path.simps)
  next
    case False
    with b resolved_path_equal_no_panic [OF assms(1,2)] show ?thesis
      by (auto simp: same_type_resolved_path.simps bind_eq_None_conv split: Type.splits)
  qed
qed

lemma same_type_output_no_panic:
  assumes ih: "\<And>out' inp'. size out' + size inp' < size out + size inp \<Longrightarrow> resolved out' \<Longrightarrow> resolved inp' \<Longrightarrow>
      same_type_hard_mode c m out' inp' \<noteq> None"
    and "resolved out" and "resolved inp" and "as_raw_pointer inp = None" and "as_borrowed_ref inp = None"
    and "out \<noteq> inp" and "prelude_type_need_special_dealing c m inp = Some False"
  shows "same_type_hard_mode c m out inp \<noteq> None"
proof -
  have "same_type_resolved_path c m out inp \<noteq> None"
    using assms by (intro same_type_resolved_path_no_panic) auto
  moreover have "\<And>mu t. out = T_RawPointer mu t \<Longrightarrow> same_type_raw_pointer c m t inp \<noteq> None"
    using ih assms(2,3) by (auto simp: same_type_raw_pointer.simps bind_eq_None_conv)
  moreover have "\<And>l mu t. out = T_BorrowedRef l mu t \<Longrightarrow> same_type_borrowed_ref c m t inp \<noteq> None"
    using ih assms(2,3) by (auto simp: same_type_borrowed_ref.simps bind_eq_None_conv)
  ultimately show ?thesis
    using assms(4-7) same_type_by_output [of out inp c m] by (cases out) auto
qed

lemma same_type_hard_no_panic [no_panic]:
  assumes "resolved out" and "resolved inp"
  shows "same_type_hard_mode c m out inp \<noteq> None"
  using assms
proof (induction "size out + size inp" arbitrary: out inp rule: less_induct)
  case less
  consider (same) "out = inp"
    | (ref) mu t where "as_borrowed_ref inp = Some (mu, t)" "out \<noteq> inp"
    | (ptr) mu t where "as_raw_pointer inp = Some (mu, t)" "as_borrowed_ref inp = None" "out \<noteq> inp"
    | (other) "as_raw_pointer inp = None" "as_borrowed_ref inp = None" "out \<noteq> inp"
    by (metis not_Some_eq prod.exhaust)
  then show ?case
  proof cases
    case (ref mu t)
    with less.hyps [of out t] less.prems have "same_type_hard_mode c m out t \<noteq> None"
      by (auto simp: as_borrowed_ref_Some)
    with ref show ?thesis
      by (auto simp: same_type_hard_mode.simps [of c m out inp] borrowed_ref_in_same_type.simps)
  next
    case (ptr mu t)
    with less.hyps [of out t] less.prems have "same_type_hard_mode c m out t \<noteq> None"
      by (auto simp: as_raw_pointer_Some)
    with ptr show ?thesis
      by (auto simp: same_type_hard_mode.simps [of c m out inp] raw_pointer_in_same_type.simps)
  next
    case other
    obtain b where b: "prelude_type_need_special_dealing c m inp = Some b"
      using need_special_dealing_no_panic [OF less.prems(2)] by blast
    show ?thesis
    proof (cases b)
      case True
      with b obtain p where p: "from_type c m inp = Some p" "get_final_type p \<noteq> inp"
        by (auto simp: need_special_dealing_from_type)
      have "same_type_hard_mode c m out (get_final_type p) \<noteq> None"
        using from_type_final_smaller [OF p] from_type_resolved [OF p(1) less.prems(2)]
        by (intro less.hyps less.prems(1)) auto
      then obtain d where "same_type_hard_mode c m out (get_final_type p) = Some d" by blast
      with p b True other show ?thesis by (subst same_type_hard_mode.simps) simp
    next
      case False
      with b have "prelude_type_need_special_dealing c m inp = Some False" by (cases b) auto
      with less.prems other show ?thesis by (rule same_type_output_no_panic [rotated]) (rule less.hyps)
    qed
  qed (simp add: same_type_hard_mode.simps)
qed

section \<open>Soundness of the fuzzed arguments\<close>

text \<open>The type of the value the generated code reads from the input for a \<open>FuzzableType\<close>.\<close>

inductive value_type :: "FuzzableType \<Rightarrow> Type \<Rightarrow> bool" where
  primitive: "value_type (FT_Primitive p) (T_Primitive p)"
| ref_str: "value_type FT_RefStr (T_BorrowedRef l Not (T_Primitive P_Str))"
| ref_slice: "value_type ft a \<Longrightarrow> value_type (FT_RefSlice ft) (T_BorrowedRef l Not (T_Slice a))"
| tuple: "list_all2 value_type fts as \<Longrightarrow> value_type (FT_Tuple fts) (T_Tuple as)"

inductive_simps value_type_simps:
  "value_type (FT_Primitive p) t" "value_type (FT_RefSlice ft) t"

text \<open>
  The elements of a slice are read and stored as they are: the call type that would make the
  argument out of an element is not kept. The condition under which nothing is lost.
\<close>

fun slices_direct :: "FuzzableCallType \<Rightarrow> bool" where
  "slices_direct (FCT_BorrowedRef f) =
     (case f of
        FCT_Slice s \<Rightarrow> snd (generate_fuzzable_type_and_call_type s) = CT_DirectCall \<and> slices_direct s
      | _ \<Rightarrow> slices_direct f)"
| "slices_direct (FCT_MutBorrowedRef f) = slices_direct f"
| "slices_direct (FCT_ConstRawPoiner f _) = slices_direct f"
| "slices_direct (FCT_MutRawPoiner f _) = slices_direct f"
| "slices_direct (FCT_ToOption f) = slices_direct f"
| "slices_direct (FCT_Tuple fs) = list_all slices_direct fs"
| "slices_direct (FCT_Slice f) = slices_direct f"
| "slices_direct (FCT_Array f) = slices_direct f"
| "slices_direct _ = True"

text \<open>What is to be shown of one type: the value read has a type from which the call type makes the
  parameter type, and a value passed as it is has exactly that type.\<close>

definition fuzz_typed :: "Cache \<Rightarrow> FullNameMap \<Rightarrow> Type \<Rightarrow> FuzzableType \<times> CallType \<Rightarrow> bool" where
  "fuzz_typed c m t r = (case r of (ft, ct) \<Rightarrow>
     ft \<noteq> FT_NoFuzzable \<longrightarrow>
       (ct = CT_DirectCall \<longrightarrow> value_type ft t) \<and>
       (printable ct \<longrightarrow> (\<exists>a. value_type ft a \<and> arg_has_type c m a ct t)))"

lemma fuzz_typed_direct: "value_type ft t \<Longrightarrow> fuzz_typed c m t (ft, CT_DirectCall)"
  by (auto simp: fuzz_typed_def intro: arg_has_type.variable)

lemma fuzz_typed_none [simp]: "fuzz_typed c m t (FT_NoFuzzable, ct)"
  by (simp add: fuzz_typed_def)

lemma fuzz_typed_wrap:
  assumes "fuzz_typed c m t r"
    and "\<And>ct. layer ct \<noteq> CT_DirectCall" "\<And>ct. printable (layer ct) \<Longrightarrow> printable ct"
    and "\<And>a ct. printable (layer ct) \<Longrightarrow> arg_has_type c m a ct t \<Longrightarrow> arg_has_type c m a (layer ct) t'"
  shows "fuzz_typed c m t' (gen_wrap layer r)"
  using assms gen_wrap_cases [of layer r] by (cases r) (fastforce simp: fuzz_typed_def)

lemma generate_borrowed:
  "(\<And>s. f \<noteq> FCT_Slice s) \<Longrightarrow> generate_fuzzable_type_and_call_type (FCT_BorrowedRef f) =
     gen_wrap CT_BorrowedRef (generate_fuzzable_type_and_call_type f)"
  by (cases f) auto

lemma slices_direct_borrowed:
  "(\<And>s. f \<noteq> FCT_Slice s) \<Longrightarrow> slices_direct (FCT_BorrowedRef f) = slices_direct f"
  by (cases f) auto

lemma fuzzable_slice:
  assumes "fuzzable_call_type c m sub t = Some (FCT_Slice s)"
  obtains u where "t = T_Slice u" "fuzzable_call_type c m sub u = Some s"
  using assms
  by (cases t) (auto simp: bind_eq_Some_conv split: option.splits PreludeType.splits if_splits
      Mutability.splits Type.splits)

lemma fuzz_typed_tuple:
  assumes "map_m (fuzzable_call_type c m None) ts = Some fs"
    and "\<And>t f. t \<in> set ts \<Longrightarrow> fuzzable_call_type c m None t = Some f \<Longrightarrow> f \<in> set fs \<Longrightarrow>
      fuzz_typed c m t (generate_fuzzable_type_and_call_type f)"
  shows "fuzz_typed c m (T_Tuple ts) (generate_fuzzable_type_and_call_type (FCT_Tuple fs))"
proof (cases "map_m (\<lambda>t. case generate_fuzzable_type_and_call_type t of (ft, ct) \<Rightarrow>
             if ft = FT_NoFuzzable then None else if ct = CT_DirectCall then Some ft else None) fs")
  case (Some fts)
  have len: "length fs = length ts" "length fts = length fs"
    using map_m_length [OF assms(1)] map_m_length [OF Some] by auto
  have "value_type (fts ! i) (ts ! i)" if "i < length ts" for i
    using assms(2) [of "ts ! i" "fs ! i"] map_m_nth [OF assms(1) that] map_m_nth [OF Some, of i]
      that len by (auto simp: fuzz_typed_def split: prod.splits if_splits)
  with len have "value_type (FT_Tuple fts) (T_Tuple ts)"
    by (intro value_type.tuple) (simp add: list_all2_conv_all_nth)
  with Some show ?thesis by (simp add: fuzz_typed_direct)
qed simp


lemma fuzz_typed_slice_ref:
  assumes "fuzz_typed c m u (generate_fuzzable_type_and_call_type s)"
    and "snd (generate_fuzzable_type_and_call_type s) = CT_DirectCall"
  shows "fuzz_typed c m (T_BorrowedRef l Not (T_Slice u))
    (generate_fuzzable_type_and_call_type (FCT_BorrowedRef (FCT_Slice s)))"
  using assms
  by (cases "generate_fuzzable_type_and_call_type s")
    (auto simp: fuzz_typed_def intro!: exI value_type.ref_slice arg_has_type.variable)

lemma fuzz_typed_borrow:
  assumes "fuzzable_call_type c m None t = Some f" and "slices_direct (FCT_BorrowedRef f)"
    and "slices_direct f \<Longrightarrow> fuzz_typed c m t (generate_fuzzable_type_and_call_type f)"
    and slice: "\<And>u s. t = T_Slice u \<Longrightarrow> fuzzable_call_type c m None u = Some s \<Longrightarrow> slices_direct s \<Longrightarrow>
      fuzz_typed c m u (generate_fuzzable_type_and_call_type s)"
  shows "fuzz_typed c m (T_BorrowedRef l Not t)
    (generate_fuzzable_type_and_call_type (FCT_BorrowedRef f))"
proof (cases "\<exists>s. f = FCT_Slice s")
  case True
  then obtain s where f: "f = FCT_Slice s" ..
  with assms(1) obtain u where u: "t = T_Slice u" "fuzzable_call_type c m None u = Some s"
    by (metis fuzzable_slice)
  from assms(2) f have "snd (generate_fuzzable_type_and_call_type s) = CT_DirectCall" "slices_direct s"
    by simp_all
  with slice [OF u] u f show ?thesis by (metis fuzz_typed_slice_ref)
next
  case False
  then have gen: "generate_fuzzable_type_and_call_type (FCT_BorrowedRef f) =
      gen_wrap CT_BorrowedRef (generate_fuzzable_type_and_call_type f)"
    by (intro generate_borrowed) simp
  from False assms(2) have "slices_direct f" using slices_direct_borrowed [of f] by blast
  with assms(3) show ?thesis unfolding gen
    by (intro fuzz_typed_wrap) (auto intro: arg_has_type.intros)
qed

text \<open>The cases of the induction over the type; each gets the induction hypothesis.\<close>

lemma fuzzable_sound_path:
  assumes ih: "\<And>u g. size u < size t \<Longrightarrow> fuzzable_call_type c m None u = Some g \<Longrightarrow> slices_direct g \<Longrightarrow>
      fuzz_typed c m u (generate_fuzzable_type_and_call_type g)"
    and "fuzzable_call_type c m None t = Some f" and "slices_direct f" and "f \<noteq> FCT_NoFuzzable" and "t = T_Path p"
  shows "fuzz_typed c m t (generate_fuzzable_type_and_call_type f)"
proof -
  from assms(2,4,5) obtain u g where u: "from_type c m t = Some (PreludeOption u)"
    "fuzzable_call_type c m None u = Some g" "f = FCT_ToOption g"
    by (auto simp: bind_eq_Some_conv split: option.splits PreludeType.splits if_splits)
  from u assms(3) have "fuzz_typed c m u (generate_fuzzable_type_and_call_type g)"
    by (intro ih) (auto dest: from_type_smaller_option)
  then have "fuzz_typed c m t (gen_wrap CT_ToOption (generate_fuzzable_type_and_call_type g))"
    by (rule fuzz_typed_wrap) (auto intro: arg_has_type.to_option [OF _ u(1)])
  with u(3) show ?thesis by simp
qed

lemma fuzzable_sound_tuple:
  assumes ih: "\<And>u g. size u < size t \<Longrightarrow> fuzzable_call_type c m None u = Some g \<Longrightarrow> slices_direct g \<Longrightarrow>
      fuzz_typed c m u (generate_fuzzable_type_and_call_type g)"
    and "fuzzable_call_type c m None t = Some f" and "slices_direct f" and "f \<noteq> FCT_NoFuzzable" and "t = T_Tuple ts"
  shows "fuzz_typed c m t (generate_fuzzable_type_and_call_type f)"
proof -
  from assms(2,4,5) obtain fs where fs: "f = FCT_Tuple fs" "map_m (fuzzable_call_type c m None) ts = Some fs"
    by (auto simp: bind_eq_Some_conv map_until_Some split: option.splits)
  have "fuzz_typed c m (T_Tuple ts) (generate_fuzzable_type_and_call_type (FCT_Tuple fs))"
    using fs assms(2-5)
    by (intro fuzz_typed_tuple ih) (auto simp: list_all_iff less_Suc_eq_le intro: size_list_estimation')
  with fs assms(5) show ?thesis by simp
qed

lemma fuzzable_sound_pointer:
  assumes ih: "\<And>u g. size u < size t \<Longrightarrow> fuzzable_call_type c m None u = Some g \<Longrightarrow> slices_direct g \<Longrightarrow>
      fuzz_typed c m u (generate_fuzzable_type_and_call_type g)"
    and "fuzzable_call_type c m None t = Some f" and "slices_direct f" and "f \<noteq> FCT_NoFuzzable" and "t = T_RawPointer mu u"
  shows "fuzz_typed c m t (generate_fuzzable_type_and_call_type f)"
proof -
  from assms(2,4,5) obtain g where g: "fuzzable_call_type c m None u = Some g"
      "f = (case mu of Mut \<Rightarrow> FCT_MutRawPoiner g u | Not \<Rightarrow> FCT_ConstRawPoiner g u)"
    by (auto simp: bind_eq_Some_conv split: if_splits)
  from g assms(3,5) have "fuzz_typed c m u (generate_fuzzable_type_and_call_type g)"
    by (intro ih) (auto split: Mutability.splits)
  with g assms(5) show ?thesis
    by (cases mu) (auto intro!: fuzz_typed_wrap intro: arg_has_type.intros)
qed

lemma fuzzable_sound_reference:
  assumes ih: "\<And>u g. size u < size t \<Longrightarrow> fuzzable_call_type c m None u = Some g \<Longrightarrow> slices_direct g \<Longrightarrow>
      fuzz_typed c m u (generate_fuzzable_type_and_call_type g)"
    and "fuzzable_call_type c m None t = Some f" and "slices_direct f" and "f \<noteq> FCT_NoFuzzable" and "t = T_BorrowedRef l mu u"
  shows "fuzz_typed c m t (generate_fuzzable_type_and_call_type f)"
proof (cases "f = FCT_STR")
  case True
  with assms(2,5) show ?thesis
    by (auto simp: bind_eq_Some_conv intro!: fuzz_typed_direct value_type.ref_str
        split: if_splits Mutability.splits)
next
  case False
  with assms(2,4,5) obtain g where g: "fuzzable_call_type c m None u = Some g"
      "f = (case mu of Mut \<Rightarrow> FCT_MutBorrowedRef g | Not \<Rightarrow> FCT_BorrowedRef g)"
    by (auto simp: bind_eq_Some_conv split: if_splits)
  have inner: "slices_direct g \<Longrightarrow> fuzz_typed c m u (generate_fuzzable_type_and_call_type g)"
    using g assms(5) by (intro ih) auto
  show ?thesis
  proof (cases mu)
    case Mut
    with g inner assms(3,5) show ?thesis
      by (auto intro!: fuzz_typed_wrap intro: arg_has_type.intros)
  next
    case Not
    have "fuzz_typed c m (T_BorrowedRef l Not u) (generate_fuzzable_type_and_call_type (FCT_BorrowedRef g))"
      using g inner Not assms(2-5) by (intro fuzz_typed_borrow ih) auto
    with Not g assms(5) show ?thesis by simp
  qed
qed

lemma fuzzable_sound:
  assumes "fuzzable_call_type c m None t = Some f" and "slices_direct f"
  shows "fuzz_typed c m t (generate_fuzzable_type_and_call_type f)"
  using assms
proof (induction "size t" arbitrary: t f rule: less_induct)
  case less
  show ?case
  proof (cases "f = FCT_NoFuzzable")
    case False
    show ?thesis
    proof (cases t)
      case (T_Path p)
      with less.prems False show ?thesis by (rule fuzzable_sound_path [rotated]) (rule less.hyps)
    next
      case (T_Tuple ts)
      with less.prems False show ?thesis by (rule fuzzable_sound_tuple [rotated]) (rule less.hyps)
    next
      case (T_RawPointer mu u)
      with less.prems False show ?thesis by (rule fuzzable_sound_pointer [rotated]) (rule less.hyps)
    next
      case (T_BorrowedRef l mu u)
      with less.prems False show ?thesis by (rule fuzzable_sound_reference [rotated]) (rule less.hyps)
    qed (use less.prems in \<open>auto simp: bind_eq_Some_conv intro!: fuzz_typed_direct value_type.primitive
           split: if_splits\<close>)
  qed simp
qed

section \<open>The properties of call types\<close>

text \<open>C10. The call type \<open>_same_type\<close> chooses is right: when it says that the value of type \<open>out\<close> can
  be passed where \<open>inp\<close> is expected, and the call type has its output-side layers on the variable
  itself and no \<open>*mut\<close> cast, then the printed expression around a variable of type \<open>out\<close> has type
  \<open>inp\<close> (up to generic arguments of paths).\<close>

theorem same_type_sound_typing:
  assumes "same_type c m True out inp = Some ct" and "ct \<noteq> CT_NotCompatible" and "printable ct"
  shows "arg_has_type c m out ct inp"
  using assms by (simp add: same_type_def same_type_sound)

definition option_of :: "Type \<Rightarrow> Type" where
  "option_of t = T_Path (MkPath (Res_Def ''Enum'' (2, 3))
     [MkPathSegment ''Option'' (AngleBracketed [GA_Type t] [])])"

definition core_names :: FullNameMap where
  "core_names = push_mapping FullNameMap_new (2, 3) ''core::option::Option'' ''Enum''"

definition empty_cache :: Cache where
  "empty_cache = \<lparr>primitive_locations = Map.empty\<rparr>"

lemmas concrete_types = option_of_def core_names_def empty_cache_def push_mapping_def
  FullNameMap_new_def from_type_def preluded_type_def path_def_id_def res_def_id_def
  get_full_name_def is_preluded_type_def PRELUDED_TYPE_def to_strip_type_name_def
  prelude_type_need_special_dealing_def

lemma from_type_option_of [simp]:
  "from_type empty_cache core_names (option_of t) = Some (PreludeOption t)"
  by (simp add: concrete_types Let_def)

lemma special_dealing_primitive [simp]:
  "prelude_type_need_special_dealing c m (T_Primitive p) = Some False"
  by (simp add: prelude_type_need_special_dealing_def from_type_not_path)

text \<open>An \<open>Option<u8>\<close> returned earlier, passed to a parameter of type \<open>&u8\<close>: \<open>&(_unwrap_option(x))\<close>.\<close>

lemma same_type_option_ref:
  "same_type empty_cache core_names True (option_of (T_Primitive P_U8))
     (T_BorrowedRef None Not (T_Primitive P_U8)) = Some (CT_BorrowedRef (CT_UnwrapOption CT_DirectCall))"
proof -
  have "same_type_hard_mode empty_cache core_names (option_of (T_Primitive P_U8)) (T_Primitive P_U8)
      = Some (CT_UnwrapOption CT_DirectCall)"
    by (subst same_type_by_output)
      (simp_all add: option_of_def same_type_resolved_path.simps
        from_type_option_of [unfolded option_of_def] prelude_type_need_special_dealing_def
        same_type_hard_mode.simps [of _ _ "T_Primitive P_U8" "T_Primitive P_U8"] from_type_not_path)
  then show ?thesis
    by (simp add: same_type_def same_type_hard_mode.simps [of _ _ _ "T_BorrowedRef None Not _"]
        borrowed_ref_in_same_type.simps option_of_def)
qed

lemma same_type_sound_typing_witness:
  "arg_has_type empty_cache core_names (option_of (T_Primitive P_U8))
     (CT_BorrowedRef (CT_UnwrapOption CT_DirectCall)) (T_BorrowedRef None Not (T_Primitive P_U8))"
  by (rule same_type_sound_typing [OF same_type_option_ref]) simp_all

text \<open>C27. On resolved types \<open>_same_type\<close> always returns: neither the \<open>unwrap\<close> of a definition id nor
  the \<open>todo!()\<close> for an inferred argument is reached, and the mutual recursion ends.\<close>

theorem same_type_returns:
  assumes "resolved out" and "resolved inp"
  shows "\<exists>ct. same_type c m hard out inp = Some ct"
  using same_type_hard_no_panic [OF assms, of c m] by (auto simp: same_type_def)

lemma same_type_returns_witness:
  "resolved (option_of (T_Primitive P_U8)) \<and>
   (\<exists>ct. same_type empty_cache core_names True (option_of (T_Primitive P_U8)) (T_Primitive P_U16)
      = Some ct)"
proof
  show r: "resolved (option_of (T_Primitive P_U8))" by (simp add: option_of_def)
  show "\<exists>ct. same_type empty_cache core_names True (option_of (T_Primitive P_U8)) (T_Primitive P_U16)
      = Some ct"
    by (rule same_type_returns [OF r]) simp
qed

text \<open>A fuzzed argument is well typed: the value read from the input for a parameter of type \<open>t\<close>
  has a type from which the chosen call type makes \<open>t\<close>, when the call type is free of \<open>*mut\<close> casts
  and the elements of every slice are passed as they are.\<close>

theorem fuzzable_argument_typed:
  assumes "fuzzable_call_type c m None t = Some f"
    and "generate_fuzzable_type_and_call_type f = (ft, ct)" and "ft \<noteq> FT_NoFuzzable"
    and "printable ct" and "slices_direct f"
  shows "\<exists>a. value_type ft a \<and> arg_has_type c m a ct t"
  using fuzzable_sound [OF assms(1,5)] assms(2-4) by (simp add: fuzz_typed_def)

lemma fuzzable_argument_typed_witness:
  "\<exists>a. value_type (FT_RefSlice (FT_Tuple [FT_Primitive P_U8, FT_RefStr])) a \<and>
     arg_has_type empty_cache core_names a (CT_ToOption CT_DirectCall)
       (option_of (T_BorrowedRef None Not (T_Slice (T_Tuple
          [T_Primitive P_U8, T_BorrowedRef None Not (T_Primitive P_Str)]))))"
  by (rule fuzzable_argument_typed [where
        f = "FCT_ToOption (FCT_BorrowedRef (FCT_Slice (FCT_Tuple [FCT_Primitive P_U8, FCT_STR])))"])
    (simp_all add: option_of_def from_type_option_of [unfolded option_of_def] gen_wrap_def)

text \<open>Where the layers of the output are not on the variable: a value of type \<open>&u8\<close> offered for a
  \<open>u16\<close> is accepted with the call type \<open>Deref(AsConvert(u16))\<close>, printed \<open>*(v as u16)\<close>, which is no
  expression of type \<open>u16\<close>.\<close>

theorem deref_cast_ill_typed:
  "same_type c m True (T_BorrowedRef l mu (T_Primitive P_U8)) (T_Primitive P_U16)
     = Some (CT_Deref (CT_AsConvert ''u16'')) \<and>
   to_call_string (CT_Deref (CT_AsConvert ''u16'')) ''v'' = Some ''*(v as u16)'' \<and>
   \<not> arg_has_type c m (T_BorrowedRef l mu (T_Primitive P_U8)) (CT_Deref (CT_AsConvert ''u16''))
       (T_Primitive P_U16)"
proof (intro conjI)
  show "same_type c m True (T_BorrowedRef l mu (T_Primitive P_U8)) (T_Primitive P_U16)
      = Some (CT_Deref (CT_AsConvert ''u16''))"
    by (simp add: same_type_def same_type_by_output same_type_borrowed_ref.simps numeric_type_def)
qed (auto elim: arg_deref_cast arg_cast)

text \<open>A parameter of type \<open>&[&u8]\<close> is declared fuzzable with a value of type \<open>&[u8]\<close> passed as it
  is: the call type of the element is dropped.\<close>

theorem slice_of_references_ill_typed:
  "fuzzable_call_type c m None
     (T_BorrowedRef l Not (T_Slice (T_BorrowedRef l' Not (T_Primitive P_U8))))
     = Some (FCT_BorrowedRef (FCT_Slice (FCT_BorrowedRef (FCT_Primitive P_U8)))) \<and>
   generate_fuzzable_type_and_call_type
     (FCT_BorrowedRef (FCT_Slice (FCT_BorrowedRef (FCT_Primitive P_U8))))
     = (FT_RefSlice (FT_Primitive P_U8), CT_DirectCall) \<and>
   \<not> (\<exists>a. value_type (FT_RefSlice (FT_Primitive P_U8)) a \<and>
      arg_has_type c m a CT_DirectCall
         (T_BorrowedRef l Not (T_Slice (T_BorrowedRef l' Not (T_Primitive P_U8)))))"
  by (auto simp: gen_wrap_def compat_def same_definition_def value_type_simps
      elim!: arg_variable)

end
