(* ===== verification/Afl_Util.thy ===== *)
theory Afl_Util
  imports Fuzz_Type
begin

text \<open>
  \<open>afl_util.rs\<close>: the helper functions of the generated file that read values out of the fuzz input,
  the closure of the helpers a parameter needs, and the expression that initialises a parameter.
  The expressions are generated as text; \<open>read_plan\<close> is what such an expression means, and
  \<open>plan_text\<close> prints it. The refinement lemma \<open>rhs_plan\<close> says that the generator prints the plan of
  the type, so that the bounds of the reads can be stated on plans.
\<close>

datatype AflHelpers =
    H_NoHelper | H_U8 | H_I8 | H_U16 | H_I16 | H_U32 | H_I32 | H_F32 | H_U64 | H_I64 | H_F64
  | H_U128 | H_I128 | H_Usize | H_Isize | H_Char | H_Bool | H_Str
  | H_Slice AflHelpers
  | H_Tuple "AflHelpers list"

fun primitive_helper :: "PrimitiveType \<Rightarrow> AflHelpers" where
  "primitive_helper P_U8 = H_U8"
| "primitive_helper P_I8 = H_I8"
| "primitive_helper P_U16 = H_U16"
| "primitive_helper P_I16 = H_I16"
| "primitive_helper P_U32 = H_U32"
| "primitive_helper P_I32 = H_I32"
| "primitive_helper P_U64 = H_U64"
| "primitive_helper P_I64 = H_I64"
| "primitive_helper P_U128 = H_U128"
| "primitive_helper P_I128 = H_I128"
| "primitive_helper P_Usize = H_Usize"
| "primitive_helper P_Isize = H_Isize"
| "primitive_helper P_Char = H_Char"
| "primitive_helper P_Bool = H_Bool"
| "primitive_helper P_F32 = H_F32"
| "primitive_helper P_F64 = H_F64"
| "primitive_helper _ = H_NoHelper"

fun new_from_fuzzable :: "FuzzableType \<Rightarrow> AflHelpers" where
  "new_from_fuzzable FT_NoFuzzable = H_NoHelper"
| "new_from_fuzzable FT_RefStr = H_Str"
| "new_from_fuzzable (FT_Primitive p) = primitive_helper p"
| "new_from_fuzzable (FT_RefSlice t) = H_Slice (new_from_fuzzable t)"
| "new_from_fuzzable (FT_Tuple ts) = H_Tuple (map new_from_fuzzable ts)"

section \<open>The helpers a helper needs\<close>

text \<open>The helper that the text of a helper function calls.\<close>

fun helper_rank :: "AflHelpers \<Rightarrow> nat" where
  "helper_rank H_U16 = 1"
| "helper_rank H_I16 = 1"
| "helper_rank H_Bool = 1"
| "helper_rank H_U32 = 2"
| "helper_rank H_I32 = 2"
| "helper_rank H_U64 = 3"
| "helper_rank H_I64 = 3"
| "helper_rank H_Char = 3"
| "helper_rank H_U128 = 4"
| "helper_rank H_I128 = 4"
| "helper_rank H_Usize = 4"
| "helper_rank H_Isize = 4"
| "helper_rank (H_Tuple hs) = Suc (sum_list (map helper_rank hs))"
| "helper_rank _ = 0"

lemma sum_list_member_le: "h \<in> set hs \<Longrightarrow> (f h :: nat) \<le> sum_list (map f hs)"
  by (induction hs) auto

function (sequential) get_all_dependent_afl_helpers :: "AflHelpers \<Rightarrow> AflHelpers list" where
  "get_all_dependent_afl_helpers (H_Tuple hs) =
     concat (map get_all_dependent_afl_helpers hs)"
| "get_all_dependent_afl_helpers H_Bool = H_Bool # get_all_dependent_afl_helpers H_U8"
| "get_all_dependent_afl_helpers H_U16 = H_U16 # get_all_dependent_afl_helpers H_U8"
| "get_all_dependent_afl_helpers H_I16 = H_I16 # get_all_dependent_afl_helpers H_I8"
| "get_all_dependent_afl_helpers H_U32 = H_U32 # get_all_dependent_afl_helpers H_U16"
| "get_all_dependent_afl_helpers H_I32 = H_I32 # get_all_dependent_afl_helpers H_I16"
| "get_all_dependent_afl_helpers H_U64 = H_U64 # get_all_dependent_afl_helpers H_U32"
| "get_all_dependent_afl_helpers H_I64 = H_I64 # get_all_dependent_afl_helpers H_I32"
| "get_all_dependent_afl_helpers H_U128 = H_U128 # get_all_dependent_afl_helpers H_U64"
| "get_all_dependent_afl_helpers H_I128 = H_I128 # get_all_dependent_afl_helpers H_I64"
| "get_all_dependent_afl_helpers H_Usize = H_Usize # get_all_dependent_afl_helpers H_U64"
| "get_all_dependent_afl_helpers H_Isize = H_Isize # get_all_dependent_afl_helpers H_I64"
| "get_all_dependent_afl_helpers H_Char = H_Char # get_all_dependent_afl_helpers H_U32"
| "get_all_dependent_afl_helpers h = [h]"
  by pat_completeness auto

termination
  by (relation "measure helper_rank") (auto simp: less_Suc_eq_le sum_list_member_le)

section \<open>The text of the helpers\<close>

abbreviation dq :: string where
  "dq \<equiv> [CHR 0x22]"

definition data_to_u8 :: string where
  "data_to_u8 = ''fn _to_u8(data:&[u8], index:usize)->u8 {'' @ nl @
     ''    data[index]'' @ nl @ ''}'' @ nl"

definition data_to_i8 :: string where
  "data_to_i8 = ''fn _to_i8(data:&[u8], index:usize)->i8 {'' @ nl @
     ''    data[index] as i8'' @ nl @ ''}'' @ nl"

text \<open>The ten functions that put two halves together share one text, with their names, the
  offset of the second half and the shift. The source spells each of them out.\<close>

definition data_to_double :: "string \<Rightarrow> string \<Rightarrow> string \<Rightarrow> string \<Rightarrow> string" where
  "data_to_double ty half off shift =
     ''fn _to_'' @ ty @ ''(data:&[u8], index:usize)->'' @ ty @ '' {'' @ nl @
     ''    let data0 = _to_'' @ half @ ''(data, index) as '' @ ty @ '';'' @ nl @
     ''    let data1 = _to_'' @ half @ ''(data, index+'' @ off @ '') as '' @ ty @ '';'' @ nl @
     ''    data0 << '' @ shift @ '' | data1'' @ nl @ ''}'' @ nl"

definition data_to_u16 :: string where "data_to_u16 = data_to_double ''u16'' ''u8'' ''1'' ''8''"
definition data_to_i16 :: string where "data_to_i16 = data_to_double ''i16'' ''i8'' ''1'' ''8''"
definition data_to_u32 :: string where "data_to_u32 = data_to_double ''u32'' ''u16'' ''2'' ''16''"
definition data_to_i32 :: string where "data_to_i32 = data_to_double ''i32'' ''i16'' ''2'' ''16''"
definition data_to_u64 :: string where "data_to_u64 = data_to_double ''u64'' ''u32'' ''4'' ''32''"
definition data_to_i64 :: string where "data_to_i64 = data_to_double ''i64'' ''i32'' ''4'' ''32''"
definition data_to_u128 :: string where
  "data_to_u128 = data_to_double ''u128'' ''u64'' ''8'' ''64''"
definition data_to_i128 :: string where
  "data_to_i128 = data_to_double ''i128'' ''i64'' ''8'' ''64''"

definition data_to_float :: "string \<Rightarrow> string \<Rightarrow> string" where
  "data_to_float ty n =
     ''fn _to_'' @ ty @ ''(data:&[u8], index: usize) -> '' @ ty @ '' {'' @ nl @
     ''    let data_slice = &data[index..index+'' @ n @ ''];'' @ nl @
     ''    use std::convert::TryInto;'' @ nl @
     ''    let data_array:[u8;'' @ n @ ''] = data_slice.try_into().expect('' @ dq @
       ''slice with incorrect length'' @ dq @ '');'' @ nl @
     ''    '' @ ty @ ''::from_le_bytes(data_array)'' @ nl @ ''}'' @ nl"

definition data_to_f32 :: string where "data_to_f32 = data_to_float ''f32'' ''4''"
definition data_to_f64 :: string where "data_to_f64 = data_to_float ''f64'' ''8''"

definition data_to_usize :: string where
  "data_to_usize = ''fn _to_usize(data:&[u8], index:usize)->usize {'' @ nl @
     ''    _to_u64(data, index) as usize'' @ nl @ ''}'' @ nl"

definition data_to_isize :: string where
  "data_to_isize = ''fn _to_isize(data:&[u8], index:usize)->isize {'' @ nl @
     ''    _to_i64(data, index) as isize'' @ nl @ ''}'' @ nl"

definition data_to_char :: string where
  "data_to_char = ''fn _to_char(data:&[u8], index: usize)->char {'' @ nl @
     ''    let char_value = _to_u32(data,index);'' @ nl @
     ''    match char::from_u32(char_value) {'' @ nl @
     ''        Some(c)=>c,'' @ nl @
     ''        None=>{'' @ nl @
     ''            use std::process;'' @ nl @
     ''            process::exit(0);'' @ nl @
     ''        }'' @ nl @ ''    }'' @ nl @ ''}'' @ nl"

definition data_to_bool :: string where
  "data_to_bool = ''fn _to_bool(data:&[u8], index: usize)->bool {'' @ nl @
     ''    let bool_value = _to_u8(data, index);'' @ nl @
     ''    if bool_value %2 == 0 {'' @ nl @
     ''        true'' @ nl @
     ''    } else {'' @ nl @
     ''        false'' @ nl @
     ''    }'' @ nl @ ''}'' @ nl"

definition data_to_str :: string where
  "data_to_str = ''fn _to_str(data:&[u8], start_index: usize, end_index: usize)->&str {'' @ nl @
     ''    let data_slice = &data[start_index..end_index];'' @ nl @
     ''    use std::str;'' @ nl @
     ''    match str::from_utf8(data_slice) {'' @ nl @
     ''        Ok(s)=>s,'' @ nl @
     ''        Err(_)=>{'' @ nl @
     ''            use std::process;'' @ nl @
     ''            process::exit(0);'' @ nl @
     ''        }'' @ nl @ ''    }'' @ nl @ ''}'' @ nl"

definition data_to_slice :: string where
  "data_to_slice =
     ''fn _to_slice<T>(data:&[u8], start_index: usize, end_index: usize)->&[T] {'' @ nl @
     ''    let data_slice = &data[start_index..end_index];'' @ nl @
     ''    let (_, shorts, _) = unsafe {data_slice.align_to::<T>()};'' @ nl @
     ''    shorts'' @ nl @ ''}'' @ nl"

fun to_full_function :: "AflHelpers \<Rightarrow> string" where
  "to_full_function H_NoHelper = ''afl no helper''"
| "to_full_function H_U8 = data_to_u8"
| "to_full_function H_I8 = data_to_i8"
| "to_full_function H_U16 = data_to_u16"
| "to_full_function H_I16 = data_to_i16"
| "to_full_function H_U32 = data_to_u32"
| "to_full_function H_I32 = data_to_i32"
| "to_full_function H_F32 = data_to_f32"
| "to_full_function H_U64 = data_to_u64"
| "to_full_function H_I64 = data_to_i64"
| "to_full_function H_F64 = data_to_f64"
| "to_full_function H_U128 = data_to_u128"
| "to_full_function H_I128 = data_to_i128"
| "to_full_function H_Usize = data_to_usize"
| "to_full_function H_Isize = data_to_isize"
| "to_full_function H_Char = data_to_char"
| "to_full_function H_Bool = data_to_bool"
| "to_full_function H_Str = data_to_str"
| "to_full_function (H_Slice _) = data_to_slice"
| "to_full_function (H_Tuple _) = ''''"

fun helper_type_name :: "AflHelpers \<Rightarrow> string" where
  "helper_type_name H_NoHelper = ''afl no helper''"
| "helper_type_name H_U8 = ''u8''"
| "helper_type_name H_I8 = ''i8''"
| "helper_type_name H_U16 = ''u16''"
| "helper_type_name H_I16 = ''i16''"
| "helper_type_name H_U32 = ''u32''"
| "helper_type_name H_I32 = ''i32''"
| "helper_type_name H_F32 = ''f32''"
| "helper_type_name H_U64 = ''u64''"
| "helper_type_name H_I64 = ''i64''"
| "helper_type_name H_F64 = ''f64''"
| "helper_type_name H_U128 = ''u128''"
| "helper_type_name H_I128 = ''i128''"
| "helper_type_name H_Usize = ''usize''"
| "helper_type_name H_Isize = ''isize''"
| "helper_type_name H_Bool = ''bool''"
| "helper_type_name H_Char = ''char''"
| "helper_type_name H_Str = ''str''"
| "helper_type_name (H_Slice _) = ''slice''"
| "helper_type_name (H_Tuple hs) = ''('' @ str_join '' ,'' (map helper_type_name hs) @ '')''"

fun to_function_name :: "AflHelpers \<Rightarrow> string" where
  "to_function_name (H_Slice h) = ''_to_'' @ helper_type_name (H_Slice h) @ ''::<'' @ helper_type_name h @ ''>''"
| "to_function_name (H_Tuple _) = ''''"
| "to_function_name h = ''_to_'' @ helper_type_name h"

definition feature_gate :: "AflHelpers \<Rightarrow> string option" where
  "feature_gate h = (if h = H_Char then Some ''#![feature(assoc_char_funcs)]'' else None)"

definition is_slice :: "AflHelpers \<Rightarrow> bool" where
  "is_slice h = (case h of H_Slice _ \<Rightarrow> True | _ \<Rightarrow> False)"

definition is_tuple :: "AflHelpers \<Rightarrow> bool" where
  "is_tuple h = (case h of H_Tuple _ \<Rightarrow> True | _ \<Rightarrow> False)"

section \<open>The expression that initialises a parameter\<close>

text \<open>The second function is the loop over the components of a tuple; \<open>inner_fuzzables[i]\<close> panics
  when the type has fewer components than the helper.\<close>

fun generate_param_initial_rhs ::
  "AflHelpers \<Rightarrow> nat \<Rightarrow> nat \<Rightarrow> nat \<Rightarrow> nat \<Rightarrow> string \<Rightarrow> FuzzableType \<Rightarrow> string run"
and generate_tuple_rhs ::
  "AflHelpers list \<Rightarrow> nat \<Rightarrow> nat \<Rightarrow> nat \<Rightarrow> nat \<Rightarrow> string \<Rightarrow> FuzzableType list \<Rightarrow> string list run"
where
  "generate_param_initial_rhs (H_Tuple hs) fixed dyn_start dyn tot len origin =
     (case origin of
        FT_Tuple fts \<Rightarrow>
          do { parts \<leftarrow> generate_tuple_rhs hs fixed dyn_start dyn tot len fts;
               Some (''('' @ str_join '', '' parts @ '')'') }
      | _ \<Rightarrow> Some ''Type not match in afl_util'')"
| "generate_param_initial_rhs H_NoHelper fixed dyn_start dyn tot len origin = Some ''No helper''"
| "generate_param_initial_rhs h fixed dyn_start dyn tot len origin =
     (if h = H_Str \<or> is_slice h then
        do { t \<leftarrow> sub_m tot 1;
             let latter = (if dyn = t then ''data.len()''
               else string_of_nat dyn_start @ '' + '' @ string_of_nat (dyn + 1) @ '' * '' @ len);
             Some (to_function_name h @ ''(data, '' @ string_of_nat dyn_start @ '' + '' @
               string_of_nat dyn @ '' * '' @ len @ '', '' @ latter @ '')'') }
      else Some (to_function_name h @ ''(data, '' @ string_of_nat fixed @ '')''))"
| "generate_tuple_rhs [] fixed dyn_start dyn tot len fts = Some []"
| "generate_tuple_rhs (h # hs) fixed dyn_start dyn tot len fts =
     (case fts of
        [] \<Rightarrow> None
      | ft # fts' \<Rightarrow>
          do { r \<leftarrow> generate_param_initial_rhs h fixed dyn_start dyn tot len ft;
               rs \<leftarrow> generate_tuple_rhs hs (fixed + fixed_part_length ft) dyn_start
                       (dyn + dynamic_length_param_number ft) tot len fts';
               Some (r # rs) })"

definition generate_param_initial_statement ::
  "AflHelpers \<Rightarrow> nat \<Rightarrow> nat \<Rightarrow> nat \<Rightarrow> nat \<Rightarrow> nat \<Rightarrow> string \<Rightarrow> FuzzableType \<Rightarrow> string run" where
  "generate_param_initial_statement h param fixed dyn_start dyn tot len origin =
     (if h = H_NoHelper then Some ''No helper''
      else do { rhs \<leftarrow> generate_param_initial_rhs h fixed dyn_start dyn tot len origin;
                Some (''let _param'' @ string_of_nat param @ '' = '' @ rhs @ '';'') })"

section \<open>The helpers of a sequence\<close>

text \<open>The hash set is the list without repetitions; its iteration order is not specified.\<close>

definition get_all_dependent_afl_helpers_of_sequence :: "FuzzableType list \<Rightarrow> AflHelpers list" where
  "get_all_dependent_afl_helpers_of_sequence params =
     remdups (concat (map (\<lambda>p. get_all_dependent_afl_helpers (new_from_fuzzable p)) params))"

fun helper_functions_loop :: "AflHelpers list \<Rightarrow> bool \<Rightarrow> string list" where
  "helper_functions_loop [] seen_slice = []"
| "helper_functions_loop (h # hs) seen_slice =
     (if \<not> seen_slice \<and> is_slice h then to_full_function h # helper_functions_loop hs True
      else to_full_function h # helper_functions_loop hs seen_slice)"

definition get_afl_helpers_functions_of_sequence :: "FuzzableType list \<Rightarrow> string list option" where
  "get_afl_helpers_functions_of_sequence params =
     (let hs = get_all_dependent_afl_helpers_of_sequence params
      in if length hs < 1 then None else Some (helper_functions_loop hs False))"

definition get_feature_gates_of_sequence :: "FuzzableType list \<Rightarrow> string list option" where
  "get_feature_gates_of_sequence params =
     (let gates = remdups (List.map_filter feature_gate (get_all_dependent_afl_helpers_of_sequence params))
      in if length gates < 1 then None else Some gates)"

section \<open>What the expressions read\<close>

datatype read_plan =
    R_none
  | R_fixed AflHelpers nat
  | R_dynamic AflHelpers nat bool
  | R_tuple "read_plan list"

text \<open>The plan of a type: at which offset of the input each fixed part is read, and which of the
  dynamic parts, in order, each string or slice takes (the flag marks the last one).\<close>

fun plan_read :: "FuzzableType \<Rightarrow> nat \<Rightarrow> nat \<Rightarrow> nat \<Rightarrow> read_plan"
and plan_reads :: "FuzzableType list \<Rightarrow> nat \<Rightarrow> nat \<Rightarrow> nat \<Rightarrow> read_plan list"
where
  "plan_read FT_NoFuzzable fixed dyn tot = R_none"
| "plan_read (FT_Primitive p) fixed dyn tot =
     (if primitive_helper p = H_NoHelper then R_none else R_fixed (primitive_helper p) fixed)"
| "plan_read FT_RefStr fixed dyn tot = R_dynamic H_Str dyn (dyn + 1 = tot)"
| "plan_read (FT_RefSlice t) fixed dyn tot =
     R_dynamic (H_Slice (new_from_fuzzable t)) dyn (dyn + 1 = tot)"
| "plan_read (FT_Tuple ts) fixed dyn tot = R_tuple (plan_reads ts fixed dyn tot)"
| "plan_reads [] fixed dyn tot = []"
| "plan_reads (t # ts) fixed dyn tot =
     plan_read t fixed dyn tot #
     plan_reads ts (fixed + fixed_part_length t) (dyn + dynamic_length_param_number t) tot"

fun plan_text :: "nat \<Rightarrow> string \<Rightarrow> read_plan \<Rightarrow> string" where
  "plan_text ds len R_none = ''No helper''"
| "plan_text ds len (R_fixed h i) = to_function_name h @ ''(data, '' @ string_of_nat i @ '')''"
| "plan_text ds len (R_dynamic h k fin) =
     to_function_name h @ ''(data, '' @ string_of_nat ds @ '' + '' @ string_of_nat k @ '' * '' @ len @
     '', '' @ (if fin then ''data.len()''
              else string_of_nat ds @ '' + '' @ string_of_nat (k + 1) @ '' * '' @ len) @ '')''"
| "plan_text ds len (R_tuple ps) = ''('' @ str_join '', '' (map (plan_text ds len) ps) @ '')''"

lemma rhs_primitive:
  "generate_param_initial_rhs (primitive_helper p) fixed ds dyn tot len origin =
     Some (plan_text ds len (plan_read (FT_Primitive p) fixed dyn tot))"
  by (cases p) (simp_all add: is_slice_def)

lemma rhs_plan:
  "0 < dynamic_length_param_number t \<longrightarrow> 0 < tot \<Longrightarrow>
   generate_param_initial_rhs (new_from_fuzzable t) fixed ds dyn tot len t =
     Some (plan_text ds len (plan_read t fixed dyn tot))"
  "0 < sum_list (map dynamic_length_param_number ts) \<longrightarrow> 0 < tot \<Longrightarrow>
   generate_tuple_rhs (map new_from_fuzzable ts) fixed ds dyn tot len ts =
     Some (map (plan_text ds len) (plan_reads ts fixed dyn tot))"
proof (induction t fixed dyn tot and ts fixed dyn tot rule: plan_read_plan_reads.induct)
  case (2 p fixed dyn tot)
  show ?case by (simp only: new_from_fuzzable.simps rhs_primitive)
next
  case (3 fixed dyn tot)
  then have "dyn = tot - 1 \<longleftrightarrow> dyn + 1 = tot" by auto
  with 3 show ?case by (simp add: is_slice_def)
next
  case (4 t fixed dyn tot)
  then have "dyn = tot - 1 \<longleftrightarrow> dyn + 1 = tot" by auto
  with 4 show ?case by (simp add: is_slice_def)
qed auto

section \<open>The regions of the input that are read\<close>

fun helper_bytes :: "AflHelpers \<Rightarrow> nat" where
  "helper_bytes H_U8 = 1"
| "helper_bytes H_I8 = 1"
| "helper_bytes H_Bool = 1"
| "helper_bytes H_U16 = 2"
| "helper_bytes H_I16 = 2"
| "helper_bytes H_U32 = 4"
| "helper_bytes H_I32 = 4"
| "helper_bytes H_Char = 4"
| "helper_bytes H_F32 = 4"
| "helper_bytes H_U64 = 8"
| "helper_bytes H_I64 = 8"
| "helper_bytes H_F64 = 8"
| "helper_bytes H_Usize = 8"
| "helper_bytes H_Isize = 8"
| "helper_bytes H_U128 = 16"
| "helper_bytes H_I128 = 16"
| "helper_bytes _ = 0"

lemma primitive_length_bytes: "primitive_length p = helper_bytes (primitive_helper p)"
  by (cases p) simp_all

text \<open>\<open>tile a b ss\<close>: the regions \<open>ss\<close> cover \<open>[a, b)\<close> one after the other, without gap or overlap.\<close>

fun tile :: "nat \<Rightarrow> nat \<Rightarrow> (nat \<times> nat) list \<Rightarrow> bool" where
  "tile a b [] = (a = b)"
| "tile a b ((s, e) # ss) = (s = a \<and> s \<le> e \<and> tile e b ss)"

lemma tile_append: "tile a b ss \<Longrightarrow> tile b c ts \<Longrightarrow> tile a c (ss @ ts)"
  by (induction a b ss rule: tile.induct) auto

lemma tile_bounds: "tile a b ss \<Longrightarrow> (s, e) \<in> set ss \<Longrightarrow> a \<le> s \<and> s \<le> e \<and> e \<le> b"
proof (induction a b ss rule: tile.induct)
  case (2 a b s' e' ss)
  have "e' \<le> b" if "tile e' b ss" using that by (induction e' b ss rule: tile.induct) auto
  with 2 show ?case by (auto dest: le_trans)
qed auto

fun fixed_spans :: "read_plan \<Rightarrow> (nat \<times> nat) list" where
  "fixed_spans (R_fixed h i) = [(i, i + helper_bytes h)]"
| "fixed_spans (R_tuple ps) = concat (map fixed_spans ps)"
| "fixed_spans _ = []"

text \<open>The dynamic regions, for the start \<open>ds\<close> of the dynamic part, the length \<open>dl\<close> of one of them
  and the length \<open>n\<close> of the input.\<close>

fun dynamic_spans :: "nat \<Rightarrow> nat \<Rightarrow> nat \<Rightarrow> read_plan \<Rightarrow> (nat \<times> nat) list" where
  "dynamic_spans ds dl n (R_dynamic h k fin) =
     [(ds + k * dl, if fin then n else ds + (k + 1) * dl)]"
| "dynamic_spans ds dl n (R_tuple ps) = concat (map (dynamic_spans ds dl n) ps)"
| "dynamic_spans _ _ _ _ = []"

lemma fixed_spans_tile:
  "tile fixed (fixed + fixed_part_length t) (fixed_spans (plan_read t fixed dyn tot))"
  "tile fixed (fixed + sum_list (map fixed_part_length ts))
     (concat (map fixed_spans (plan_reads ts fixed dyn tot)))"
proof (induction t fixed dyn tot and ts fixed dyn tot rule: plan_read_plan_reads.induct)
  case (7 t ts fixed dyn tot)
  then show ?case by (auto intro: tile_append simp: add.assoc)
qed (auto simp: primitive_length_bytes)

text \<open>Where the \<open>k\<close>-th of \<open>tot\<close> dynamic regions begins, and the last one ends.\<close>

definition dynamic_bound :: "nat \<Rightarrow> nat \<Rightarrow> nat \<Rightarrow> nat \<Rightarrow> nat \<Rightarrow> nat" where
  "dynamic_bound ds dl n tot k = (if k = tot then n else ds + k * dl)"

lemma dynamic_bound_mono:
  assumes "ds + tot * dl \<le> n" and "k < tot"
  shows "ds + k * dl \<le> dynamic_bound ds dl n tot (Suc k)"
proof -
  have "k * dl \<le> tot * dl" using assms(2) by (intro mult_right_mono) auto
  with assms(1) have "ds + k * dl \<le> n" by linarith
  then show ?thesis by (simp add: dynamic_bound_def)
qed

lemma dynamic_spans_tile:
  assumes "ds + tot * dl \<le> n"
  shows "dyn + dynamic_length_param_number t \<le> tot \<Longrightarrow>
      tile (dynamic_bound ds dl n tot dyn)
        (dynamic_bound ds dl n tot (dyn + dynamic_length_param_number t))
        (dynamic_spans ds dl n (plan_read t fixed dyn tot))"
    and "dyn + sum_list (map dynamic_length_param_number ts) \<le> tot \<Longrightarrow>
      tile (dynamic_bound ds dl n tot dyn)
        (dynamic_bound ds dl n tot (dyn + sum_list (map dynamic_length_param_number ts)))
        (concat (map (dynamic_spans ds dl n) (plan_reads ts fixed dyn tot)))"
  using assms
proof (induction t fixed dyn tot and ts fixed dyn tot rule: plan_read_plan_reads.induct)
  case (3 fixed dyn tot)
  then show ?case using dynamic_bound_mono [of ds tot dl n dyn] by (auto simp: dynamic_bound_def)
next
  case (4 t fixed dyn tot)
  then show ?case using dynamic_bound_mono [of ds tot dl n dyn] by (auto simp: dynamic_bound_def)
next
  case (7 t ts fixed dyn tot)
  then show ?case by (auto intro: tile_append simp: add.assoc)
qed auto

section \<open>The helpers needed are all there\<close>

text \<open>The helpers that the text of a helper calls.\<close>

fun called_helpers :: "AflHelpers \<Rightarrow> AflHelpers list" where
  "called_helpers H_Bool = [H_U8]"
| "called_helpers H_U16 = [H_U8]"
| "called_helpers H_I16 = [H_I8]"
| "called_helpers H_U32 = [H_U16]"
| "called_helpers H_I32 = [H_I16]"
| "called_helpers H_U64 = [H_U32]"
| "called_helpers H_I64 = [H_I32]"
| "called_helpers H_U128 = [H_U64]"
| "called_helpers H_I128 = [H_I64]"
| "called_helpers H_Usize = [H_U64]"
| "called_helpers H_Isize = [H_I64]"
| "called_helpers H_Char = [H_U32]"
| "called_helpers _ = []"

text \<open>The helpers a plan calls.\<close>

fun plan_helpers :: "read_plan \<Rightarrow> AflHelpers list" where
  "plan_helpers (R_fixed h _) = [h]"
| "plan_helpers (R_dynamic h _ _) = [h]"
| "plan_helpers (R_tuple ps) = concat (map plan_helpers ps)"
| "plan_helpers R_none = []"

lemma dependent_closed:
  "g \<in> set (get_all_dependent_afl_helpers h) \<Longrightarrow> d \<in> set (called_helpers g) \<Longrightarrow>
   d \<in> set (get_all_dependent_afl_helpers h)"
  by (induction h arbitrary: g d rule: get_all_dependent_afl_helpers.induct) auto

lemma dependent_self: "\<not> is_tuple h \<Longrightarrow> h \<in> set (get_all_dependent_afl_helpers h)"
  by (cases h) (auto simp: is_tuple_def)

lemma primitive_helper_no_tuple [simp]: "\<not> is_tuple (primitive_helper p)"
  by (cases p) (auto simp: is_tuple_def)

lemma plan_helpers_dependent:
  "h \<in> set (plan_helpers (plan_read t fixed dyn tot)) \<Longrightarrow>
   h \<in> set (get_all_dependent_afl_helpers (new_from_fuzzable t))"
  "h \<in> set (concat (map plan_helpers (plan_reads ts fixed dyn tot))) \<Longrightarrow>
   h \<in> set (concat (map (\<lambda>t. get_all_dependent_afl_helpers (new_from_fuzzable t)) ts))"
proof (induction t fixed dyn tot and ts fixed dyn tot rule: plan_read_plan_reads.induct)
  case (2 p fixed dyn tot)
  then show ?case by (auto simp: dependent_self split: if_splits)
qed (auto simp: comp_def)

end
