(* ===== verification/Afl_Helpers.thy ===== *)
theory Afl_Helpers
  imports Afl_Util "HOL-Library.Word"
begin

unbundle bit_operations_syntax

text \<open>
  What the helper functions of the generated file compute: the meaning of the texts of
  \<open>afl_util.rs\<close> on a byte slice \<open>data\<close>, at the widths of the source. Signed integers are words read
  by \<open>sint\<close>; an \<open>as\<close> cast to a wider signed type is \<open>scast\<close>. A value of a \<open>process::exit(0)\<close> branch
  is \<open>Exited\<close>, an index out of range is the panic \<open>None\<close>. \<open>align_to\<close> may cut off both ends of a
  slice, so a slice value keeps the bytes it was given.

  The lemmas show the range of the reads, the big-endian value of the unsigned helpers and the
  values that the signed helpers cannot produce.
\<close>

section \<open>Integers\<close>

definition join_bits :: "nat \<Rightarrow> 'b::len word \<Rightarrow> 'b word \<Rightarrow> 'b word" where
  "join_bits k data0 data1 = push_bit k data0 OR data1"

definition to_u8 :: "8 word list \<Rightarrow> nat \<Rightarrow> 8 word run" where
  "to_u8 data i = index_m data i"

definition to_i8 :: "8 word list \<Rightarrow> nat \<Rightarrow> 8 word run" where
  "to_i8 data i = index_m data i"

definition to_u16 :: "8 word list \<Rightarrow> nat \<Rightarrow> 16 word run" where
  "to_u16 data i = do { a \<leftarrow> to_u8 data i; b \<leftarrow> to_u8 data (i + 1);
     Some (join_bits 8 (ucast a) (ucast b)) }"

definition to_i16 :: "8 word list \<Rightarrow> nat \<Rightarrow> 16 word run" where
  "to_i16 data i = do { a \<leftarrow> to_i8 data i; b \<leftarrow> to_i8 data (i + 1);
     Some (join_bits 8 (scast a) (scast b)) }"

definition to_u32 :: "8 word list \<Rightarrow> nat \<Rightarrow> 32 word run" where
  "to_u32 data i = do { a \<leftarrow> to_u16 data i; b \<leftarrow> to_u16 data (i + 2);
     Some (join_bits 16 (ucast a) (ucast b)) }"

definition to_i32 :: "8 word list \<Rightarrow> nat \<Rightarrow> 32 word run" where
  "to_i32 data i = do { a \<leftarrow> to_i16 data i; b \<leftarrow> to_i16 data (i + 2);
     Some (join_bits 16 (scast a) (scast b)) }"

definition to_u64 :: "8 word list \<Rightarrow> nat \<Rightarrow> 64 word run" where
  "to_u64 data i = do { a \<leftarrow> to_u32 data i; b \<leftarrow> to_u32 data (i + 4);
     Some (join_bits 32 (ucast a) (ucast b)) }"

definition to_i64 :: "8 word list \<Rightarrow> nat \<Rightarrow> 64 word run" where
  "to_i64 data i = do { a \<leftarrow> to_i32 data i; b \<leftarrow> to_i32 data (i + 4);
     Some (join_bits 32 (scast a) (scast b)) }"

definition to_u128 :: "8 word list \<Rightarrow> nat \<Rightarrow> 128 word run" where
  "to_u128 data i = do { a \<leftarrow> to_u64 data i; b \<leftarrow> to_u64 data (i + 8);
     Some (join_bits 64 (ucast a) (ucast b)) }"

definition to_i128 :: "8 word list \<Rightarrow> nat \<Rightarrow> 128 word run" where
  "to_i128 data i = do { a \<leftarrow> to_i64 data i; b \<leftarrow> to_i64 data (i + 8);
     Some (join_bits 64 (scast a) (scast b)) }"

definition to_usize :: "8 word list \<Rightarrow> nat \<Rightarrow> 64 word run" where
  "to_usize data i = to_u64 data i"

definition to_isize :: "8 word list \<Rightarrow> nat \<Rightarrow> 64 word run" where
  "to_isize data i = to_i64 data i"

section \<open>Floats, characters, booleans, strings and slices\<close>

text \<open>\<open>&data[a..b]\<close> panics unless \<open>a \<le> b \<le> data.len()\<close>.\<close>

definition slice_m :: "'a list \<Rightarrow> nat \<Rightarrow> nat \<Rightarrow> 'a list run" where
  "slice_m xs a b = (if a \<le> b \<and> b \<le> length xs then Some (take (b - a) (drop a xs)) else None)"

definition to_f32 :: "8 word list \<Rightarrow> nat \<Rightarrow> 32 word run" where
  "to_f32 data i = do { bytes \<leftarrow> slice_m data i (i + 4); Some (of_nat (horner_sum unat 256 bytes)) }"

definition to_f64 :: "8 word list \<Rightarrow> nat \<Rightarrow> 64 word run" where
  "to_f64 data i = do { bytes \<leftarrow> slice_m data i (i + 8); Some (of_nat (horner_sum unat 256 bytes)) }"

datatype 'a outcome = Returned 'a | Exited

definition char_from_u32 :: "32 word \<Rightarrow> nat option" where
  "char_from_u32 w = (let n = unat w in
     if n < 55296 \<or> (57344 \<le> n \<and> n < 1114112) then Some n else None)"

definition to_char :: "8 word list \<Rightarrow> nat \<Rightarrow> nat outcome run" where
  "to_char data i = do { w \<leftarrow> to_u32 data i;
     Some (case char_from_u32 w of Some ch \<Rightarrow> Returned ch | None \<Rightarrow> Exited) }"

definition to_bool :: "8 word list \<Rightarrow> nat \<Rightarrow> bool run" where
  "to_bool data i = do { w \<leftarrow> to_u8 data i; Some (w mod 2 = 0) }"

text \<open>\<open>str::from_utf8\<close>: the well-formed byte sequences of UTF-8.\<close>

definition utf8_cont :: "nat \<Rightarrow> bool" where
  "utf8_cont b = (128 \<le> b \<and> b < 192)"

fun utf8_ok :: "nat list \<Rightarrow> bool" where
  "utf8_ok [] = True"
| "utf8_ok (a # bs) =
     (if a < 128 then utf8_ok bs
      else case bs of
        [] \<Rightarrow> False
      | b # cs \<Rightarrow>
          if 194 \<le> a \<and> a < 224 then utf8_cont b \<and> utf8_ok cs
          else case cs of
            [] \<Rightarrow> False
          | d # ds \<Rightarrow>
              if 224 \<le> a \<and> a < 240 then
                utf8_cont b \<and> (a = 224 \<longrightarrow> 160 \<le> b) \<and> (a = 237 \<longrightarrow> b < 160) \<and> utf8_cont d \<and> utf8_ok ds
              else case ds of
                [] \<Rightarrow> False
              | e # es \<Rightarrow>
                  240 \<le> a \<and> a < 245 \<and> utf8_cont b \<and> (a = 240 \<longrightarrow> 144 \<le> b) \<and> (a = 244 \<longrightarrow> b < 144)
                  \<and> utf8_cont d \<and> utf8_cont e \<and> utf8_ok es)"

definition to_str :: "8 word list \<Rightarrow> nat \<Rightarrow> nat \<Rightarrow> 8 word list outcome run" where
  "to_str data a b = do { bytes \<leftarrow> slice_m data a b;
     Some (if utf8_ok (map unat bytes) then Returned bytes else Exited) }"

definition to_slice :: "8 word list \<Rightarrow> nat \<Rightarrow> nat \<Rightarrow> 8 word list run" where
  "to_slice data a b = slice_m data a b"

section \<open>Evaluating a plan\<close>

datatype rvalue =
    V_u8 "8 word" | V_i8 "8 word" | V_u16 "16 word" | V_i16 "16 word" | V_u32 "32 word"
  | V_i32 "32 word" | V_u64 "64 word" | V_i64 "64 word" | V_u128 "128 word" | V_i128 "128 word"
  | V_usize "64 word" | V_isize "64 word" | V_f32 "32 word" | V_f64 "64 word"
  | V_char nat | V_bool bool
  | V_str "8 word list"
  | V_slice AflHelpers "8 word list"
  | V_tuple "rvalue list"

definition returned :: "('a \<Rightarrow> rvalue) \<Rightarrow> 'a run \<Rightarrow> rvalue outcome run" where
  "returned k r = map_option (\<lambda>x. Returned (k x)) r"

fun run_fixed :: "8 word list \<Rightarrow> AflHelpers \<Rightarrow> nat \<Rightarrow> rvalue outcome run" where
  "run_fixed data H_U8 i = returned V_u8 (to_u8 data i)"
| "run_fixed data H_I8 i = returned V_i8 (to_i8 data i)"
| "run_fixed data H_U16 i = returned V_u16 (to_u16 data i)"
| "run_fixed data H_I16 i = returned V_i16 (to_i16 data i)"
| "run_fixed data H_U32 i = returned V_u32 (to_u32 data i)"
| "run_fixed data H_I32 i = returned V_i32 (to_i32 data i)"
| "run_fixed data H_U64 i = returned V_u64 (to_u64 data i)"
| "run_fixed data H_I64 i = returned V_i64 (to_i64 data i)"
| "run_fixed data H_U128 i = returned V_u128 (to_u128 data i)"
| "run_fixed data H_I128 i = returned V_i128 (to_i128 data i)"
| "run_fixed data H_Usize i = returned V_usize (to_usize data i)"
| "run_fixed data H_Isize i = returned V_isize (to_isize data i)"
| "run_fixed data H_F32 i = returned V_f32 (to_f32 data i)"
| "run_fixed data H_F64 i = returned V_f64 (to_f64 data i)"
| "run_fixed data H_Bool i = returned V_bool (to_bool data i)"
| "run_fixed data H_Char i =
     map_option (\<lambda>r. case r of Returned ch \<Rightarrow> Returned (V_char ch) | Exited \<Rightarrow> Exited) (to_char data i)"
| "run_fixed data _ i = None"

definition run_dynamic :: "8 word list \<Rightarrow> AflHelpers \<Rightarrow> nat \<Rightarrow> nat \<Rightarrow> rvalue outcome run" where
  "run_dynamic data h a b =
     (case h of
        H_Str \<Rightarrow> map_option (\<lambda>r. case r of Returned s \<Rightarrow> Returned (V_str s) | Exited \<Rightarrow> Exited)
                   (to_str data a b)
      | H_Slice g \<Rightarrow> returned (V_slice g) (to_slice data a b)
      | _ \<Rightarrow> None)"

text \<open>The text \<open>No helper\<close> of \<open>R_none\<close> is no expression.\<close>

fun run_plan :: "nat \<Rightarrow> nat \<Rightarrow> 8 word list \<Rightarrow> read_plan \<Rightarrow> rvalue outcome run"
and run_plans :: "nat \<Rightarrow> nat \<Rightarrow> 8 word list \<Rightarrow> read_plan list \<Rightarrow> rvalue list outcome run"
where
  "run_plan ds dl data R_none = None"
| "run_plan ds dl data (R_fixed h i) = run_fixed data h i"
| "run_plan ds dl data (R_dynamic h k fin) =
     run_dynamic data h (ds + k * dl) (if fin then length data else ds + (k + 1) * dl)"
| "run_plan ds dl data (R_tuple ps) =
     do { r \<leftarrow> run_plans ds dl data ps;
          Some (case r of Returned vs \<Rightarrow> Returned (V_tuple vs) | Exited \<Rightarrow> Exited) }"
| "run_plans ds dl data [] = Some (Returned [])"
| "run_plans ds dl data (p # ps) =
     do { r \<leftarrow> run_plan ds dl data p;
          case r of
            Exited \<Rightarrow> Some Exited
          | Returned v \<Rightarrow>
              do { rs \<leftarrow> run_plans ds dl data ps;
                   Some (case rs of Returned vs \<Rightarrow> Returned (v # vs) | Exited \<Rightarrow> Exited) } }"

section \<open>The reads are in range\<close>

lemma slice_m_None [simp]: "slice_m xs a b = None \<longleftrightarrow> \<not> (a \<le> b \<and> b \<le> length xs)"
  by (simp add: slice_m_def)

lemma index_m_None [simp]: "index_m xs i = None \<longleftrightarrow> length xs \<le> i"
  by (auto simp: index_m_def)

lemma to_integer_None:
  "to_u16 data i = None \<longleftrightarrow> length data < i + 2"
  "to_i16 data i = None \<longleftrightarrow> length data < i + 2"
  "to_u32 data i = None \<longleftrightarrow> length data < i + 4"
  "to_i32 data i = None \<longleftrightarrow> length data < i + 4"
  "to_u64 data i = None \<longleftrightarrow> length data < i + 8"
  "to_i64 data i = None \<longleftrightarrow> length data < i + 8"
  "to_u128 data i = None \<longleftrightarrow> length data < i + 16"
  "to_i128 data i = None \<longleftrightarrow> length data < i + 16"
proof -
  show u16: "to_u16 data i = None \<longleftrightarrow> length data < i + 2" for i
    by (auto simp: to_u16_def to_u8_def bind_eq_None_conv)
  show i16: "to_i16 data i = None \<longleftrightarrow> length data < i + 2" for i
    by (auto simp: to_i16_def to_i8_def bind_eq_None_conv)
  have later: "(Option.bind x f = None) = (x = None \<or> y = None)"
    if "\<And>v. (f v = None) = (y = None)" for x :: "'v option" and f :: "'v \<Rightarrow> 'w option" and y :: "'u option"
    using that by (cases x) auto
  show u32: "to_u32 data i = None \<longleftrightarrow> length data < i + 4" for i
    unfolding to_u32_def by (subst later [of _ "to_u16 data (i + 2)"]) (auto simp: u16 bind_eq_None_conv)
  show i32: "to_i32 data i = None \<longleftrightarrow> length data < i + 4" for i
    unfolding to_i32_def by (subst later [of _ "to_i16 data (i + 2)"]) (auto simp: i16 bind_eq_None_conv)
  show u64: "to_u64 data i = None \<longleftrightarrow> length data < i + 8" for i
    unfolding to_u64_def by (subst later [of _ "to_u32 data (i + 4)"]) (auto simp: u32 bind_eq_None_conv)
  show i64: "to_i64 data i = None \<longleftrightarrow> length data < i + 8" for i
    unfolding to_i64_def by (subst later [of _ "to_i32 data (i + 4)"]) (auto simp: i32 bind_eq_None_conv)
  show "to_u128 data i = None \<longleftrightarrow> length data < i + 16"
    unfolding to_u128_def by (subst later [of _ "to_u64 data (i + 8)"]) (auto simp: u64 bind_eq_None_conv)
  show "to_i128 data i = None \<longleftrightarrow> length data < i + 16"
    unfolding to_i128_def by (subst later [of _ "to_i64 data (i + 8)"]) (auto simp: i64 bind_eq_None_conv)
qed

lemma run_fixed_None:
  assumes "helper_bytes h \<noteq> 0"
  shows "run_fixed data h i = None \<longleftrightarrow> length data < i + helper_bytes h"
  using assms
  by (cases h) (auto simp: returned_def to_u8_def to_i8_def to_usize_def to_isize_def to_bool_def
      to_f32_def to_f64_def to_char_def to_integer_None bind_eq_None_conv simp flip: not_less)

lemma run_dynamic_in_range:
  assumes "h = H_Str \<or> is_slice h" and "a \<le> b" and "b \<le> length data"
  shows "run_dynamic data h a b \<noteq> None"
  using assms by (cases h) (auto simp: run_dynamic_def returned_def to_str_def to_slice_def
      slice_m_def is_slice_def)

fun readable :: "FuzzableType \<Rightarrow> bool" where
  "readable FT_NoFuzzable = False"
| "readable (FT_Primitive p) = (primitive_helper p \<noteq> H_NoHelper)"
| "readable (FT_RefSlice t) = readable t"
| "readable FT_RefStr = True"
| "readable (FT_Tuple ts) = list_all readable ts"

fun runnable :: "read_plan \<Rightarrow> bool" where
  "runnable R_none = False"
| "runnable (R_fixed h i) = (helper_bytes h \<noteq> 0)"
| "runnable (R_dynamic h k fin) = (h = H_Str \<or> is_slice h)"
| "runnable (R_tuple ps) = list_all runnable ps"

lemma helper_bytes_primitive: "primitive_helper p \<noteq> H_NoHelper \<Longrightarrow> helper_bytes (primitive_helper p) \<noteq> 0"
  by (cases p) auto

lemma readable_runnable:
  "readable t \<Longrightarrow> runnable (plan_read t fixed dyn tot)"
  "list_all readable ts \<Longrightarrow> list_all runnable (plan_reads ts fixed dyn tot)"
  by (induction t fixed dyn tot and ts fixed dyn tot rule: plan_read_plan_reads.induct)
    (auto simp: helper_bytes_primitive is_slice_def)

lemma run_plan_in_range:
  "runnable p \<Longrightarrow> \<forall>(s, e) \<in> set (fixed_spans p). e \<le> length data \<Longrightarrow>
   \<forall>(s, e) \<in> set (dynamic_spans ds dl (length data) p). s \<le> e \<and> e \<le> length data \<Longrightarrow>
   run_plan ds dl data p \<noteq> None"
  "list_all runnable ps \<Longrightarrow> \<forall>(s, e) \<in> set (concat (map fixed_spans ps)). e \<le> length data \<Longrightarrow>
   \<forall>(s, e) \<in> set (concat (map (dynamic_spans ds dl (length data)) ps)). s \<le> e \<and> e \<le> length data \<Longrightarrow>
   run_plans ds dl data ps \<noteq> None"
proof (induction ds dl data p and ds dl data ps rule: run_plan_run_plans.induct)
  case (2 ds dl data h i)
  then show ?case using run_fixed_None [of h data i] by (simp del: not_None_eq)
next
  case (3 ds dl data h k fin)
  then show ?case using run_dynamic_in_range [of h "ds + k * dl"] by simp
next
  case (6 ds dl data p ps)
  then have "run_plan ds dl data p \<noteq> None" by simp
  then obtain r where r: "run_plan ds dl data p = Some r" by blast
  show ?case
  proof (cases r)
    case (Returned v)
    with 6 r have "run_plans ds dl data ps \<noteq> None" by auto
    with r Returned show ?thesis by auto
  qed (simp add: r)
qed auto

section \<open>Values\<close>

text \<open>The number a byte string denotes, most significant byte first.\<close>

definition be_value :: "8 word list \<Rightarrow> nat" where
  "be_value bytes = horner_sum unat 256 (rev bytes)"

lemma be_value_append: "be_value (xs @ ys) = be_value xs * 256 ^ length ys + be_value ys"
  by (simp add: be_value_def horner_sum_append algebra_simps)

lemma be_value_single [simp]: "be_value [b] = unat b"
  by (simp add: be_value_def)

lemma unat_join_bits:
  assumes "LENGTH('a::len) = k" and "LENGTH('b::len) = 2 * k"
  shows "unat (join_bits k (ucast (a :: 'a word)) (ucast (b :: 'a word)) :: 'b word)
       = unat a * 2 ^ k + unat b"
proof -
  let ?x = "push_bit k (ucast a :: 'b word)" and ?y = "ucast b :: 'b word"
  have lt: "unat a < 2 ^ k" "unat b < 2 ^ k" using assms(1) by (metis unsigned_less)+
  have "?x AND ?y = 0"
    using assms by (intro bit_eqI) (auto simp: bit_simps dest: bit_imp_le_length)
  then have "join_bits k (ucast a) ?y = ?x + ?y"
    by (simp add: join_bits_def disjunctive_add_eq_or)
  moreover have up: "unat (ucast c :: 'b word) = unat c" for c :: "'a word"
  proof -
    have "unat c < 2 ^ LENGTH('b)"
      using assms by (intro order_less_le_trans [OF unsigned_less]) (simp add: power_increasing)
    then show ?thesis by (simp add: unsigned_ucast_eq take_bit_nat_eq_self)
  qed
  moreover have le: "unat a * 2 ^ k + unat b < 2 ^ LENGTH('b)"
  proof -
    have "unat a * 2 ^ k + unat b < unat a * 2 ^ k + 2 ^ k" using lt by simp
    also have "\<dots> = (unat a + 1) * 2 ^ k" by simp
    also have "\<dots> \<le> 2 ^ k * 2 ^ k" using lt(1) by (intro mult_right_mono) auto
    finally show ?thesis by (simp add: assms(2) mult_2 power_add)
  qed
  moreover have x: "unat ?x = unat a * 2 ^ k"
  proof -
    have "unat ?x = take_bit LENGTH('b) (unat a * 2 ^ k)"
      by (simp only: unsigned_push_bit_eq up) (simp only: push_bit_eq_mult)
    with le show ?thesis by (simp add: take_bit_nat_eq_self)
  qed
  ultimately show ?thesis using le x by (simp add: unat_plus_if')
qed

text \<open>The bytes at \<open>i\<close>, and what the two halves of a value make of them.\<close>

definition bytes_at :: "8 word list \<Rightarrow> nat \<Rightarrow> nat \<Rightarrow> 8 word list" where
  "bytes_at data i n = take n (drop i data)"

lemma bytes_at_split:
  "bytes_at data i (n + m) = bytes_at data i n @ bytes_at data (i + n) m"
  by (simp add: bytes_at_def take_add add.commute [of n i])

lemma be_value_bytes_at:
  assumes "i + (n + n) \<le> length data"
  shows "be_value (bytes_at data i (n + n))
       = be_value (bytes_at data i n) * 256 ^ n + be_value (bytes_at data (i + n) n)"
  using assms unfolding bytes_at_split be_value_append by (simp add: bytes_at_def)

lemma to_u8_value: "to_u8 data i = Some w \<Longrightarrow> unat w = be_value (bytes_at data i 1)"
  by (auto simp: to_u8_def bytes_at_def take_Suc_conv_app_nth Cons_nth_drop_Suc [symmetric])

lemma to_u16_value: "to_u16 data i = Some w \<Longrightarrow> unat w = be_value (bytes_at data i 2)"
  using be_value_bytes_at [of i 1 data] to_integer_None(1) [of data i]
  unfolding one_add_one
  by (auto simp: to_u16_def bind_eq_Some_conv unat_join_bits [where 'a = 8] to_u8_value)

lemma to_u32_value: "to_u32 data i = Some w \<Longrightarrow> unat w = be_value (bytes_at data i 4)"
  using be_value_bytes_at [of i 2 data] to_integer_None(3) [of data i]
  by (auto simp: to_u32_def bind_eq_Some_conv unat_join_bits [where 'a = 16] to_u16_value)

lemma to_u64_value: "to_u64 data i = Some w \<Longrightarrow> unat w = be_value (bytes_at data i 8)"
  using be_value_bytes_at [of i 4 data] to_integer_None(5) [of data i]
  by (auto simp: to_u64_def bind_eq_Some_conv unat_join_bits [where 'a = 32] to_u32_value)

lemma to_u128_value: "to_u128 data i = Some w \<Longrightarrow> unat w = be_value (bytes_at data i 16)"
  using be_value_bytes_at [of i 8 data] to_integer_None(7) [of data i]
  by (auto simp: to_u128_def bind_eq_Some_conv unat_join_bits [where 'a = 64] to_u64_value)

text \<open>C32. The unsigned helpers of the generated file return exactly when the input has enough bytes
  at the index, and then the big-endian value of those bytes.\<close>

theorem unsigned_helper_value:
  "(if i + 16 \<le> length data
    then \<exists>w. to_u128 data i = Some w \<and> unat w = be_value (bytes_at data i 16)
    else to_u128 data i = None) \<and>
   (if i + 8 \<le> length data
    then \<exists>w. to_u64 data i = Some w \<and> unat w = be_value (bytes_at data i 8)
    else to_u64 data i = None) \<and>
   (if i + 4 \<le> length data
    then \<exists>w. to_u32 data i = Some w \<and> unat w = be_value (bytes_at data i 4)
    else to_u32 data i = None) \<and>
   (if i + 2 \<le> length data
    then \<exists>w. to_u16 data i = Some w \<and> unat w = be_value (bytes_at data i 2)
    else to_u16 data i = None)"
  using to_integer_None(1,3,5,7) [of data i]
  by (auto simp: not_less simp flip: not_None_eq intro: to_u16_value to_u32_value to_u64_value to_u128_value)

text \<open>The signed helpers sign-extend the low half before it is merged: an \<open>i16\<close> whose low byte
  has its sign bit set is negative, so that the \<open>i16\<close> values 128 to 255, for instance, are never
  produced, whatever the input.\<close>

theorem signed_helper_gap:
  "to_i16 data i = Some w \<Longrightarrow> bit w 7 \<Longrightarrow> bit w 15"
  by (auto simp: to_i16_def bind_eq_Some_conv join_bits_def bit_simps signed_take_bit_def)

lemma signed_helper_gap_witness:
  "to_i16 [0, 0x80] 0 = Some 0xFF80 \<and> bit (0xFF80 :: 16 word) 15"
proof
  show r: "to_i16 [0, 0x80] 0 = Some 0xFF80"
    by (simp add: to_i16_def to_i8_def join_bits_def)
  show "bit (0xFF80 :: 16 word) 15"
    by (rule signed_helper_gap [OF r]) simp
qed

end
