(* ===== verification/Mod_Visibility.thy ===== *)
theory Mod_Visibility
  imports Rust_Prelude
begin

text \<open>
  \<open>mod_visibility.rs\<close>: which modules of the crate cannot be reached from outside. The hash map of
  the source is an association list with distinct keys, in the order in which the source happens
  to iterate over it; the theorem holds for every order. The specification is \<open>mod_visible\<close>: a
  module is visible when it and all its ancestors below the crate root are public.
\<close>

datatype Visibility = Public | Restricted "nat \<times> nat"

record ModVisibity =
  mv_crate_name :: string
  mv_inner :: "(string \<times> Visibility) list"

definition ModVisibity_new :: "string \<Rightarrow> ModVisibity" where
  "ModVisibity_new crate = \<lparr>mv_crate_name = crate, mv_inner = []\<rparr>"

text \<open>\<open>HashMap::insert\<close> replaces the value of a key that is present.\<close>

fun alist_insert :: "'k \<Rightarrow> 'v \<Rightarrow> ('k \<times> 'v) list \<Rightarrow> ('k \<times> 'v) list" where
  "alist_insert k v [] = [(k, v)]"
| "alist_insert k v ((k', v') # xs) =
     (if k = k' then (k, v) # xs else (k', v') # alist_insert k v xs)"

definition add_one_mod :: "ModVisibity \<Rightarrow> string \<Rightarrow> Visibility \<Rightarrow> ModVisibity" where
  "add_one_mod mv n vis = mv\<lparr>mv_inner := alist_insert n vis (mv_inner mv)\<rparr>"

definition get_parent_mod_name :: "string \<Rightarrow> string option" where
  "get_parent_mod_name n =
     (if \<not> str_contains n ''::'' then None
      else Some (str_join ''::'' (butlast (str_split ''::'' n))))"

text \<open>One iteration of the inner loop, on the visibilities found so far.\<close>

definition visit_mod ::
  "string \<times> Visibility \<Rightarrow> (string \<times> bool) list \<Rightarrow> (string \<times> bool) list run" where
  "visit_mod e found = (case e of (n, vis) \<Rightarrow>
     if map_of found n \<noteq> None then Some found
     else do { p \<leftarrow> get_parent_mod_name n;
               case map_of found p of
                 None \<Rightarrow> Some found
               | Some pv \<Rightarrow> Some (alist_insert n (vis = Public \<and> pv) found) })"

text \<open>The outer loop, \<open>for _ in 0..mod_number\<close> with its \<open>break\<close>.\<close>

fun visit_rounds ::
  "nat \<Rightarrow> (string \<times> Visibility) list \<Rightarrow> (string \<times> bool) list \<Rightarrow> (string \<times> bool) list run" where
  "visit_rounds 0 inner found = Some found"
| "visit_rounds (Suc k) inner found =
     do { found' \<leftarrow> fold_m visit_mod inner found;
          if length found' = length inner then Some found'
          else visit_rounds k inner found' }"

definition get_invisible_mods :: "ModVisibity \<Rightarrow> string list run" where
  "get_invisible_mods mv =
     (if map_of (mv_inner mv) (mv_crate_name mv) = None then None
      else do { found \<leftarrow> visit_rounds (length (mv_inner mv)) (mv_inner mv)
                  [(mv_crate_name mv, True)];
                Some (map fst (filter (\<lambda>(_, v). \<not> v) found)) })"

section \<open>Parents\<close>

lemma alist_insert_map_of: "map_of (alist_insert k v xs) = (map_of xs)(k \<mapsto> v)"
  by (induction k v xs rule: alist_insert.induct) (auto simp: fun_eq_iff)

lemma alist_insert_new: "k \<notin> fst ` set xs \<Longrightarrow> alist_insert k v xs = xs @ [(k, v)]"
  by (induction k v xs rule: alist_insert.induct) auto

lemma join_snoc: "ps \<noteq> [] \<Longrightarrow> str_join sep (ps @ [q]) = str_join sep ps @ sep @ q"
proof (induction ps)
  case (Cons p ps)
  then show ?case by (cases "ps = []") (simp_all add: join_Cons)
qed simp

lemma split_parts_shorter:
  assumes "split_go sep acc s = x # y # zs"
  shows "length (str_join sep (butlast (x # y # zs))) + length sep \<le> length acc + length s"
proof -
  define xs where "xs = x # y # zs"
  then have "xs = butlast xs @ [last xs]" and "butlast xs \<noteq> []" by auto
  then have "str_join sep xs = str_join sep (butlast xs) @ sep @ last xs" by (metis join_snoc)
  moreover from assms xs_def have "str_join sep xs = rev acc @ s" by (metis join_split_go)
  ultimately have "length (rev acc @ s) = length (str_join sep (butlast xs) @ sep @ last xs)"
    by simp
  then show ?thesis by (simp add: xs_def)
qed

lemma split_go_contains:
  "str_contains s sep \<Longrightarrow> sep \<noteq> [] \<Longrightarrow> \<exists>x y zs. split_go sep acc s = x # y # zs"
proof (induction sep acc s rule: split_go.induct)
  case (2 sep acc c s)
  show ?case
  proof (cases "starts_with (c # s) sep")
    case True
    with 2 show ?thesis
      using split_go_nonempty [of sep "[]" "drop (length sep) (c # s)"]
      by (metis (full_types) neq_Nil_conv split_go.simps(2))
  qed (use 2 in auto)
qed simp

lemma parent_shorter:
  assumes "get_parent_mod_name n = Some p"
  shows "length p < length n"
proof -
  from assms have c: "str_contains n ''::''"
    and p: "p = str_join ''::'' (butlast (str_split ''::'' n))"
    by (auto simp: get_parent_mod_name_def split: if_splits)
  from c have len: "2 \<le> length n" by (auto simp: str_contains_iff)
  from split_go_contains [OF c, of "[]"] obtain x y zs
    where s: "split_go ''::'' [] n = x # y # zs" by auto
  from split_parts_shorter [OF s] len show ?thesis by (simp add: p str_split_def s)
qed

section \<open>Specification and correctness\<close>

function mod_visible :: "string \<Rightarrow> (string \<times> Visibility) list \<Rightarrow> string \<Rightarrow> bool" where
  "mod_visible crate inner n =
     (if n = crate then True
      else case get_parent_mod_name n of
        None \<Rightarrow> False
      | Some p \<Rightarrow> map_of inner n = Some Public \<and> mod_visible crate inner p)"
  by pat_completeness auto
termination
  by (relation "measure (\<lambda>(_, _, n). length n)") (auto simp: parent_shorter)

declare mod_visible.simps [simp del]

text \<open>The modules form a tree under the crate root.\<close>

definition mods_wf :: "ModVisibity \<Rightarrow> bool" where
  "mods_wf mv \<longleftrightarrow> distinct (map fst (mv_inner mv)) \<and> mv_crate_name mv \<in> fst ` set (mv_inner mv)
     \<and> (\<forall>n \<in> fst ` set (mv_inner mv). n \<noteq> mv_crate_name mv \<longrightarrow>
          (\<exists>p \<in> fst ` set (mv_inner mv). get_parent_mod_name n = Some p))"

definition found_ok :: "ModVisibity \<Rightarrow> (string \<times> bool) list \<Rightarrow> bool" where
  "found_ok mv found \<longleftrightarrow> distinct (map fst found) \<and> fst ` set found \<subseteq> fst ` set (mv_inner mv)
     \<and> mv_crate_name mv \<in> fst ` set found
     \<and> (\<forall>(n, v) \<in> set found. v = mod_visible (mv_crate_name mv) (mv_inner mv) n)"

lemma visit_mod_ok:
  assumes "mods_wf mv" and "found_ok mv found" and "e \<in> set (mv_inner mv)"
  shows "\<exists>found'. visit_mod e found = Some found' \<and> found_ok mv found'
    \<and> fst ` set found \<subseteq> fst ` set found'
    \<and> (\<forall>p \<in> fst ` set found. get_parent_mod_name (fst e) = Some p \<longrightarrow> fst e \<in> fst ` set found')"
proof -
  obtain n vis where e: "e = (n, vis)" by (cases e)
  show ?thesis
  proof (cases "n \<in> fst ` set found")
    case True
    with assms e show ?thesis by (auto simp: visit_mod_def map_of_eq_None_iff)
  next
    case new: False
    with assms(2) have root: "n \<noteq> mv_crate_name mv" by (auto simp: found_ok_def)
    with assms(1,3) e obtain p where p: "get_parent_mod_name n = Some p"
      by (force simp: mods_wf_def)
    from assms(1,3) e have vis: "map_of (mv_inner mv) n = Some vis" by (simp add: mods_wf_def)
    show ?thesis
    proof (cases "map_of found p")
      case None
      then have "p \<notin> fst ` set found" by (simp add: map_of_eq_None_iff)
      moreover from new have "map_of found n = None" by (simp add: map_of_eq_None_iff)
      ultimately show ?thesis using None p e assms(2) by (simp add: visit_mod_def)
    next
      case (Some pv)
      then have "(p, pv) \<in> set found" by (rule map_of_SomeD)
      with assms(2) have "pv = mod_visible (mv_crate_name mv) (mv_inner mv) p"
        by (auto simp: found_ok_def)
      then have "mod_visible (mv_crate_name mv) (mv_inner mv) n = (vis = Public \<and> pv)"
        using root p vis by (subst mod_visible.simps) simp
      moreover have "n \<in> fst ` set (mv_inner mv)" using assms(3) e by force
      ultimately have "found_ok mv (found @ [(n, vis = Public \<and> pv)])"
        using assms(2) new by (auto simp: found_ok_def)
      with new p e Some show ?thesis
        by (auto simp: visit_mod_def map_of_eq_None_iff alist_insert_new)
    qed
  qed
qed

lemma visit_pass_ok:
  assumes "mods_wf mv" and "found_ok mv found" and "set es \<subseteq> set (mv_inner mv)"
  shows "\<exists>found'. fold_m visit_mod es found = Some found' \<and> found_ok mv found'
    \<and> fst ` set found \<subseteq> fst ` set found'
    \<and> (\<forall>n \<in> fst ` set es. \<forall>p \<in> fst ` set found. get_parent_mod_name n = Some p \<longrightarrow>
         n \<in> fst ` set found')"
  using assms(2,3)
proof (induction es arbitrary: found)
  case (Cons e es)
  then obtain f where f: "visit_mod e found = Some f" "found_ok mv f"
      "fst ` set found \<subseteq> fst ` set f"
      "\<forall>p \<in> fst ` set found. get_parent_mod_name (fst e) = Some p \<longrightarrow> fst e \<in> fst ` set f"
    using visit_mod_ok [OF assms(1), of found e] by auto
  with Cons.IH [OF f(2)] Cons.prems(2) obtain g where g: "fold_m visit_mod es f = Some g"
      "found_ok mv g" "fst ` set f \<subseteq> fst ` set g"
      "\<forall>n \<in> fst ` set es. \<forall>p \<in> fst ` set f. get_parent_mod_name n = Some p \<longrightarrow> n \<in> fst ` set g"
    by auto
  show ?case
  proof (intro exI conjI ballI impI)
    show "fold_m visit_mod (e # es) found = Some g" using f g by simp
    show "fst ` set found \<subseteq> fst ` set g" using f(3) g(3) by blast
    fix n p
    assume "n \<in> fst ` set (e # es)" "p \<in> fst ` set found" "get_parent_mod_name n = Some p"
    then show "n \<in> fst ` set g" using f(3,4) g(3,4) by (metis image_insert insertE list.simps(15) subsetD)
  qed (rule g(2))
qed auto

lemma distinct_keys_card: "distinct (map fst xs) \<Longrightarrow> length xs = card (fst ` set xs)"
  by (metis distinct_card length_map list.set_map)

lemma found_ok_card:
  assumes "found_ok mv found" and "mods_wf mv"
  shows "length found = card (fst ` set found)" "length (mv_inner mv) = card (fst ` set (mv_inner mv))"
  using assms by (simp_all only: found_ok_def mods_wf_def distinct_keys_card)

lemma visit_progress:
  assumes wf: "mods_wf mv" and ok: "found_ok mv found"
    and missing: "fst ` set (mv_inner mv) - fst ` set found \<noteq> {}"
    and pass: "fold_m visit_mod (mv_inner mv) found = Some found'"
  shows "length found < length found'"
proof -
  define U where "U = fst ` set (mv_inner mv) - fst ` set found"
  from missing obtain m where "m \<in> U" unfolding U_def by blast
  from ex_has_least_nat [of "\<lambda>x. x \<in> U", OF this, of length]
  obtain n where n: "n \<in> U" "\<And>k. k \<in> U \<Longrightarrow> length n \<le> length k" by blast
  have "mv_crate_name mv \<in> fst ` set found" using ok by (simp add: found_ok_def)
  with n(1) have "n \<noteq> mv_crate_name mv" unfolding U_def by blast
  with wf n(1) obtain p where p: "get_parent_mod_name n = Some p" "p \<in> fst ` set (mv_inner mv)"
    unfolding mods_wf_def U_def by (metis DiffD1)
  have "p \<notin> U" using n(2) [of p] parent_shorter [OF p(1)] by (meson not_less)
  with p(2) have "p \<in> fst ` set found" unfolding U_def by blast
  moreover have n': "n \<in> fst ` set (mv_inner mv)" "n \<notin> fst ` set found" using n(1) U_def by auto
  ultimately have f': "found_ok mv found'" "fst ` set found \<subseteq> fst ` set found'" "n \<in> fst ` set found'"
    using visit_pass_ok [OF wf ok, of "mv_inner mv"] pass p(1) by auto
  then have "found_ok mv found'" "fst ` set found \<subset> fst ` set found'" using n'(2) by blast+
  then show ?thesis using found_ok_card [OF ok wf] found_ok_card [of mv found'] wf
    by (simp add: psubset_card_mono)
qed

lemma found_complete:
  assumes "mods_wf mv" and "found_ok mv found" and "length (mv_inner mv) \<le> length found"
  shows "fst ` set found = fst ` set (mv_inner mv)"
  using assms found_ok_card [OF assms(2,1)]
  by (metis List.finite_set card_seteq finite_imageI found_ok_def)

lemma visit_rounds_ok:
  assumes wf: "mods_wf mv" and "found_ok mv found"
    and "length (mv_inner mv) \<le> length found + k"
  shows "\<exists>found'. visit_rounds k (mv_inner mv) found = Some found' \<and> found_ok mv found'
    \<and> fst ` set found' = fst ` set (mv_inner mv)"
  using assms(2,3)
proof (induction k arbitrary: found)
  case 0
  then show ?case using found_complete [OF wf 0(1)] by simp
next
  case (Suc k)
  obtain f where f: "fold_m visit_mod (mv_inner mv) found = Some f" "found_ok mv f"
      "fst ` set found \<subseteq> fst ` set f"
    using visit_pass_ok [OF wf Suc.prems(1), of "mv_inner mv"] by auto
  show ?case
  proof (cases "length f = length (mv_inner mv)")
    case True
    with f show ?thesis using found_complete [OF wf f(2)] by simp
  next
    case False
    have "length (mv_inner mv) \<le> length f + k"
    proof (cases "fst ` set (mv_inner mv) - fst ` set found = {}")
      case True
      moreover have "fst ` set f \<subseteq> fst ` set (mv_inner mv)" using f(2) by (simp add: found_ok_def)
      ultimately have "fst ` set f = fst ` set (mv_inner mv)" using f(3) by blast
      with found_ok_card [OF f(2) wf] show ?thesis by simp
    next
      case False
      with visit_progress [OF wf Suc.prems(1) _ f(1)] Suc.prems(2) show ?thesis by simp
    qed
    with Suc.IH [OF f(2)] f(1) False show ?thesis by simp
  qed
qed

lemma invisible_mods_result:
  assumes "mods_wf mv"
  shows "\<exists>ms. get_invisible_mods mv = Some ms \<and> distinct ms \<and>
    set ms = {n \<in> fst ` set (mv_inner mv). \<not> mod_visible (mv_crate_name mv) (mv_inner mv) n}"
proof -
  have "found_ok mv [(mv_crate_name mv, True)]"
    using assms by (auto simp: found_ok_def mods_wf_def mod_visible.simps)
  with visit_rounds_ok [OF assms, of "[(mv_crate_name mv, True)]" "length (mv_inner mv)"]
  obtain f where f: "visit_rounds (length (mv_inner mv)) (mv_inner mv) [(mv_crate_name mv, True)] = Some f"
      "found_ok mv f" "fst ` set f = fst ` set (mv_inner mv)"
    by auto
  have "map_of (mv_inner mv) (mv_crate_name mv) \<noteq> None"
    using assms by (simp add: mods_wf_def map_of_eq_None_iff)
  with f(1) have "get_invisible_mods mv = Some (map fst (filter (\<lambda>(_, v). \<not> v) f))"
    by (simp add: get_invisible_mods_def)
  moreover have "distinct (map fst (filter (\<lambda>(_, v). \<not> v) f))"
    using f(2) by (auto simp: found_ok_def distinct_map_filter)
  moreover have "set (map fst (filter (\<lambda>(_, v). \<not> v) f)) =
      {n \<in> fst ` set (mv_inner mv). \<not> mod_visible (mv_crate_name mv) (mv_inner mv) n}"
    using f(2) by (auto simp: f(3) [symmetric] found_ok_def image_iff split: prod.splits) force+
  ultimately show ?thesis by blast
qed

text \<open>C25. \<open>get_invisible_mods\<close> returns exactly the modules that are hidden: those for which they
  themselves or an ancestor below the crate root is not public. The bounded number of rounds is
  enough whatever the iteration order of the hash map.\<close>

theorem invisible_mods_correct:
  assumes "mods_wf mv"
  shows "\<exists>ms. get_invisible_mods mv = Some ms \<and> distinct ms \<and>
    set ms = {n \<in> fst ` set (mv_inner mv). \<not> mod_visible (mv_crate_name mv) (mv_inner mv) n}"
  by (rule invisible_mods_result [OF assms])

definition crate_mods :: ModVisibity where
  "crate_mods = add_one_mod (add_one_mod (add_one_mod (ModVisibity_new ''a'')
     ''a::b::c'' Public) ''a::b'' (Restricted (0, 0))) ''a'' Public"

lemma invisible_mods_correct_witness:
  "mods_wf crate_mods \<and> (\<exists>ms. get_invisible_mods crate_mods = Some ms \<and> distinct ms \<and>
    set ms = {n \<in> fst ` set (mv_inner crate_mods).
      \<not> mod_visible (mv_crate_name crate_mods) (mv_inner crate_mods) n})"
proof
  show w: "mods_wf crate_mods"
    by (simp add: mods_wf_def crate_mods_def add_one_mod_def ModVisibity_new_def
        get_parent_mod_name_def str_split_def starts_with_def)
  show "\<exists>ms. get_invisible_mods crate_mods = Some ms \<and> distinct ms \<and>
    set ms = {n \<in> fst ` set (mv_inner crate_mods).
      \<not> mod_visible (mv_crate_name crate_mods) (mv_inner crate_mods) n}"
    by (rule invisible_mods_correct [OF w])
qed

end
