(* ===== verification/Api_Function.thy ===== *)
theory Api_Function
  imports Api_Util Mod_Visibility
begin

text \<open>
  \<open>api_function.rs\<close>: one public function of the crate under test, with the tests that classify it
  (start and end functions of a call chain, parameters that cannot be fuzzed). Of the generic
  parameters the code looks at the name and at whether it is a type parameter.
\<close>

record GenericParamDef =
  gp_name :: Symbol
  gp_is_type :: bool

record ApiFunction =
  full_name :: string
  generics :: "GenericParamDef list"
  generic_substitutions :: "string \<rightharpoonup> Type"
  inputs :: "Type list"
  output_type :: "Type option"
  trait_full_path :: "string option"
  unsafe_tag :: ApiUnsafety
  visibility :: Visibility

text \<open>\<open>generic_function.rs\<close>: a function with its own substitution; nothing uses it yet.\<close>

record GenericFunction =
  gf_api_function :: ApiFunction
  gf_generic_substitute :: "string \<rightharpoonup> Type"

definition GenericFunction_from :: "ApiFunction \<Rightarrow> GenericFunction" where
  "GenericFunction_from f = \<lparr>gf_api_function = f, gf_generic_substitute = Map.empty\<rparr>"

definition is_start_function :: "Cache \<Rightarrow> FullNameMap \<Rightarrow> bool \<Rightarrow> ApiFunction \<Rightarrow> bool run" where
  "is_start_function c m sg f = all_m (is_end_type c m sg) (inputs f)"

definition is_mut_pointer :: "Type \<Rightarrow> bool" where
  "is_mut_pointer t = (case t of T_BorrowedRef _ mu _ \<Rightarrow> mu = Mut | T_RawPointer mu _ \<Rightarrow> mu = Mut
                               | _ \<Rightarrow> False)"

definition contains_mut_borrow :: "ApiFunction \<Rightarrow> bool" where
  "contains_mut_borrow f = list_ex is_mut_pointer (inputs f)"

definition is_end_function :: "Cache \<Rightarrow> FullNameMap \<Rightarrow> bool \<Rightarrow> ApiFunction \<Rightarrow> bool run" where
  "is_end_function c m sg f =
     (if contains_mut_borrow f then Some False
      else case output_type f of
        Some t \<Rightarrow> is_end_type c m sg t
      | None \<Rightarrow> Some True)"

definition is_not_defined_on_prelude_type :: "string list \<Rightarrow> ApiFunction \<Rightarrow> bool" where
  "is_not_defined_on_prelude_type prelude_types f =
     (\<not> list_ex (starts_with (full_name f)) prelude_types \<and>
      \<not> (case trait_full_path f of
            Some t \<Rightarrow> list_ex (starts_with t) prelude_types
          | None \<Rightarrow> False))"

definition is_generic_function :: "ApiFunction \<Rightarrow> bool" where
  "is_generic_function f = list_ex gp_is_type (generics f)"

definition has_no_output :: "ApiFunction \<Rightarrow> bool" where
  "has_no_output f = (output_type f = None)"

text \<open>One iteration of \<open>contains_unsupported_fuzzable_type\<close>.\<close>

definition unsupported_input :: "Cache \<Rightarrow> FullNameMap \<Rightarrow> Type \<Rightarrow> bool run" where
  "unsupported_input c m t =
     do { b \<leftarrow> is_fuzzable_type c m None t;
          if b then
            do { f \<leftarrow> fuzzable_call_type c m None t;
                 let (ft, ct) = generate_fuzzable_type_and_call_type f;
                 Some (ft = FT_NoFuzzable \<or> is_multiple_dynamic_length ft \<or> ct = CT_NotCompatible) }
          else Some False }"

definition contains_unsupported_fuzzable_type ::
  "Cache \<Rightarrow> FullNameMap \<Rightarrow> ApiFunction \<Rightarrow> bool run" where
  "contains_unsupported_fuzzable_type c m f = ex_m (unsupported_input c m) (inputs f)"

definition pretty_print :: "ApiFunction \<Rightarrow> string run" where
  "pretty_print f =
     do { let generic_part =
            (if generics f \<noteq> []
             then CHR 0x1B # ''[31m<'' @ str_join '', '' (map gp_name (generics f)) @ ''>'' @
                  CHR 0x1B # ''[0m''
             else []);
          ins \<leftarrow> map_m type_name (inputs f);
          out \<leftarrow> (case output_type f of
                    None \<Rightarrow> Some []
                  | Some t \<Rightarrow> do { n \<leftarrow> type_name t; Some (''->'' @ n) });
          Some (''fn '' @ full_name f @ generic_part @ ''('' @ str_join '', '' ins @ '')'' @ out) }"

section \<open>Lemmas\<close>

text \<open>The signature of a function whose types are all resolved.\<close>

definition resolved_function :: "ApiFunction \<Rightarrow> bool" where
  "resolved_function f \<longleftrightarrow> list_all resolved (inputs f) \<and>
     (case output_type f of None \<Rightarrow> True | Some t \<Rightarrow> resolved t)"

lemma is_end_type_no_panic [no_panic]: "resolved t \<Longrightarrow> is_end_type c m sg t \<noteq> None"
proof (induction c m sg t rule: is_end_type.induct)
  case (1 c m sg p)
  from need_special_dealing_no_panic [OF 1(2), of c m]
  obtain b where b: "prelude_type_need_special_dealing c m (T_Path p) = Some b" by blast
  then obtain pt where pt: "from_type c m (T_Path p) = Some pt"
    by (auto simp: need_special_dealing_from_type)
  with 1 b from_type_resolved [OF pt] show ?case by (cases b) auto
next
  case (5 c m sg ts)
  then have "all_m (is_end_type c m sg) ts \<noteq> None"
    by (intro all_m_no_panic) (simp add: list_all_iff)
  then show ?case by simp
qed auto

lemma is_start_function_no_panic [no_panic]:
  "resolved_function f \<Longrightarrow> is_start_function c m sg f \<noteq> None"
  unfolding is_start_function_def
  by (intro all_m_no_panic is_end_type_no_panic) (auto simp: resolved_function_def list_all_iff)

lemma is_end_function_no_panic [no_panic]:
  "resolved_function f \<Longrightarrow> is_end_function c m sg f \<noteq> None"
  using is_end_type_no_panic [of _ c m sg]
  by (auto simp: is_end_function_def resolved_function_def split: option.splits)

lemma unsupported_input_no_panic [no_panic]:
  assumes "resolved t" shows "unsupported_input c m t \<noteq> None"
proof -
  have "primitive_subst None" by (simp add: primitive_subst_def)
  with assms is_fuzzable_type_no_panic [of t None c m] fuzzable_call_type_no_panic [of t None c m]
  show ?thesis
    by (auto simp: unsupported_input_def bind_eq_None_conv simp del: not_None_eq split: prod.splits)
qed

lemma contains_unsupported_no_panic [no_panic]:
  "resolved_function f \<Longrightarrow> contains_unsupported_fuzzable_type c m f \<noteq> None"
  unfolding contains_unsupported_fuzzable_type_def
  by (intro ex_m_no_panic unsupported_input_no_panic) (auto simp: resolved_function_def list_all_iff)

lemma ex_m_Some_False: "ex_m p xs = Some False \<longleftrightarrow> (\<forall>x \<in> set xs. p x = Some False)"
  by (induction xs) (auto split: bind_splits)

lemma supported_input:
  assumes "contains_unsupported_fuzzable_type c m f = Some False" and "t \<in> set (inputs f)"
    and "fuzzable_call_type c m None t = Some fc" and "fc \<noteq> FCT_NoFuzzable"
    and "generate_fuzzable_type_and_call_type fc = (ft, ct)"
  shows "ft \<noteq> FT_NoFuzzable" "\<not> is_multiple_dynamic_length ft" "ct \<noteq> CT_NotCompatible"
  using assms
  by (auto simp: contains_unsupported_fuzzable_type_def ex_m_Some_False unsupported_input_def
      is_fuzzable_type_def dest!: bspec)

end
