(* ===== verification/Api_Sequence.thy ===== *)
theory Api_Sequence
  imports Afl_Util
begin

text \<open>
  \<open>api_sequence.rs\<close>, the data: a sequence of calls whose parameters are fuzzed values or the
  results of earlier calls, with the marks the generator keeps about moves, borrows and mutability.
  The reverse sequence lists the last call first and numbers the results from there.

  \<open>seq_wf\<close> is the invariant: every parameter of a call names a result of an earlier call or a
  declared fuzzed value, and every mark is in range. The locale \<open>sequence_merge\<close> states what the
  clients of merging rely on; both kinds of sequence provide it.
\<close>

datatype ParamType = FunctionReturn | FuzzableParam
datatype ApiType = BareFunction | GenericFunction

record ApiCall =
  func :: "ApiType \<times> nat"
  params :: "(ParamType \<times> nat \<times> CallType) list"

definition ApiCall_new :: "nat \<Rightarrow> ApiCall" where
  "ApiCall_new f = \<lparr>func = (BareFunction, f), params = []\<rparr>"

definition add_param :: "ApiCall \<Rightarrow> ParamType \<Rightarrow> nat \<Rightarrow> CallType \<Rightarrow> ApiCall" where
  "add_param call p i ct = call\<lparr>params := params call @ [(p, i, ct)]\<rparr>"

record ApiSequence =
  seq_functions :: "ApiCall list"
  fuzzable_params :: "FuzzableType list"
  using_traits :: "string list"
  seq_unsafe :: bool
  moved :: "nat set"
  mut_borrow :: "nat set"
  borrow :: "nat set"
  fuzzable_mut_tag :: "nat set"
  function_mut_tag :: "nat set"
  covered_dependencies :: "nat set"
  careful_pairs :: "nat \<rightharpoonup> nat list"

definition ApiSequence_new :: ApiSequence where
  "ApiSequence_new = \<lparr>seq_functions = [], fuzzable_params = [], using_traits = [], seq_unsafe = False,
     moved = {}, mut_borrow = {}, borrow = {}, fuzzable_mut_tag = {}, function_mut_tag = {},
     covered_dependencies = {}, careful_pairs = Map.empty\<rparr>"

section \<open>Small operations\<close>

definition add_dependency :: "ApiSequence \<Rightarrow> nat \<Rightarrow> ApiSequence" where
  "add_dependency s d = s\<lparr>covered_dependencies := insert d (covered_dependencies s)\<rparr>"

definition seq_len :: "ApiSequence \<Rightarrow> nat" where
  "seq_len s = length (seq_functions s)"

definition has_no_fuzzables :: "ApiSequence \<Rightarrow> bool" where
  "has_no_fuzzables s = (length (fuzzable_params s) \<le> 0)"

text \<open>The outer option is the \<open>todo!()\<close> for generic functions.\<close>

definition last_api_func_index :: "ApiSequence \<Rightarrow> nat option run" where
  "last_api_func_index s =
     (if seq_len s = 0 then Some None
      else case func (last (seq_functions s)) of
        (BareFunction, i) \<Rightarrow> Some (Some i)
      | (GenericFunction, _) \<Rightarrow> None)"

definition contains_api_function :: "ApiSequence \<Rightarrow> nat \<Rightarrow> bool" where
  "contains_api_function s i = list_ex (\<lambda>call. snd (func call) = i) (seq_functions s)"

fun contained_loop :: "ApiCall list \<Rightarrow> nat list \<Rightarrow> nat list" where
  "contained_loop [] res = res"
| "contained_loop (call # calls) res =
     contained_loop calls (if snd (func call) \<notin> set res then res @ [snd (func call)] else res)"

definition get_contained_api_functions :: "ApiSequence \<Rightarrow> nat list" where
  "get_contained_api_functions s = contained_loop (seq_functions s) []"

definition is_moved :: "ApiSequence \<Rightarrow> nat \<Rightarrow> bool" where
  "is_moved s i = (i \<in> moved s)"

definition insert_move_index :: "ApiSequence \<Rightarrow> nat \<Rightarrow> ApiSequence" where
  "insert_move_index s i = s\<lparr>moved := insert i (moved s)\<rparr>"

definition add_fn :: "ApiSequence \<Rightarrow> ApiCall \<Rightarrow> ApiSequence" where
  "add_fn s call = s\<lparr>seq_functions := seq_functions s @ [call]\<rparr>"

definition insert_fuzzable_mut_tag :: "ApiSequence \<Rightarrow> nat \<Rightarrow> ApiSequence" where
  "insert_fuzzable_mut_tag s i = s\<lparr>fuzzable_mut_tag := insert i (fuzzable_mut_tag s)\<rparr>"

definition is_fuzzable_need_mut_tag :: "ApiSequence \<Rightarrow> nat \<Rightarrow> bool" where
  "is_fuzzable_need_mut_tag s i = (i \<in> fuzzable_mut_tag s)"

definition insert_function_mut_tag :: "ApiSequence \<Rightarrow> nat \<Rightarrow> ApiSequence" where
  "insert_function_mut_tag s i = s\<lparr>function_mut_tag := insert i (function_mut_tag s)\<rparr>"

definition is_function_need_mut_tag :: "ApiSequence \<Rightarrow> nat \<Rightarrow> bool" where
  "is_function_need_mut_tag s i = (i \<in> function_mut_tag s)"

definition set_unsafe :: "ApiSequence \<Rightarrow> ApiSequence" where
  "set_unsafe s = s\<lparr>seq_unsafe := True\<rparr>"

definition add_trait :: "ApiSequence \<Rightarrow> string \<Rightarrow> ApiSequence" where
  "add_trait s t = s\<lparr>using_traits := using_traits s @ [t]\<rparr>"

section \<open>Lengths of the fuzzed values\<close>

definition is_fuzzables_fixed_length :: "ApiSequence \<Rightarrow> bool" where
  "is_fuzzables_fixed_length s = list_all is_fixed_length (fuzzable_params s)"

definition fuzzables_min_length :: "ApiSequence \<Rightarrow> nat" where
  "fuzzables_min_length s = fold (\<lambda>p n. n + min_length p) (fuzzable_params s) 0"

definition contains_multi_dynamic_length_fuzzable :: "ApiSequence \<Rightarrow> bool" where
  "contains_multi_dynamic_length_fuzzable s = list_ex is_multiple_dynamic_length (fuzzable_params s)"

definition fuzzable_fixed_part_length :: "ApiSequence \<Rightarrow> nat" where
  "fuzzable_fixed_part_length s = fold (\<lambda>p n. n + fixed_part_length p) (fuzzable_params s) 0"

definition seq_dynamic_length_param_number :: "ApiSequence \<Rightarrow> nat" where
  "seq_dynamic_length_param_number s =
     fold (\<lambda>p n. n + dynamic_length_param_number p) (fuzzable_params s) 0"

section \<open>Merging\<close>

definition shift_param ::
  "nat \<Rightarrow> nat \<Rightarrow> ParamType \<times> nat \<times> CallType \<Rightarrow> ParamType \<times> nat \<times> CallType" where
  "shift_param first_func first_fuzzable p = (case p of (pt, i, ct) \<Rightarrow>
     (pt, (case pt of FuzzableParam \<Rightarrow> i + first_fuzzable | FunctionReturn \<Rightarrow> i + first_func), ct))"

definition shift_call :: "nat \<Rightarrow> nat \<Rightarrow> ApiCall \<Rightarrow> ApiCall" where
  "shift_call first_func first_fuzzable call =
     \<lparr>func = func call, params = map (shift_param first_func first_fuzzable) (params call)\<rparr>"

definition merge_another_sequence :: "ApiSequence \<Rightarrow> ApiSequence \<Rightarrow> ApiSequence" where
  "merge_another_sequence s t =
     (let nf = length (seq_functions s); nz = length (fuzzable_params s)
      in s\<lparr>seq_functions := seq_functions s @ map (shift_call nf nz) (seq_functions t),
           fuzzable_params := fuzzable_params s @ fuzzable_params t,
           using_traits := using_traits s @ using_traits t,
           seq_unsafe := (if seq_unsafe t then seq_unsafe t else seq_unsafe s),
           moved := moved s \<union> (\<lambda>i. i + nf) ` moved t,
           fuzzable_mut_tag := fuzzable_mut_tag s \<union> (\<lambda>i. i + nz) ` fuzzable_mut_tag t,
           function_mut_tag := function_mut_tag s \<union> (\<lambda>i. i + nf) ` function_mut_tag t\<rparr>)"

definition merge_sequences :: "ApiSequence list \<Rightarrow> ApiSequence" where
  "merge_sequences ss =
     (if length ss \<le> 0 then ApiSequence_new
      else fold (\<lambda>t basic. merge_another_sequence basic t) (tl ss) (hd ss))"

section \<open>Dead code\<close>

text \<open>One iteration of the inner loop: the used result is not dead. The index panics out of range.\<close>

definition mark_used :: "ParamType \<times> nat \<times> CallType \<Rightarrow> bool list \<Rightarrow> bool list run" where
  "mark_used p dead = (case p of (pt, i, _) \<Rightarrow>
     (case pt of FunctionReturn \<Rightarrow> update_m dead i False | FuzzableParam \<Rightarrow> Some dead))"

definition dead_code :: "ApiSequence \<Rightarrow> bool list run" where
  "dead_code s =
     fold_m (\<lambda>call dead. fold_m mark_used (params call) dead) (seq_functions s)
       (replicate (seq_len s) True)"

definition contains_dead_code_except_last_one :: "ApiSequence \<Rightarrow> bool run" where
  "contains_dead_code_except_last_one s =
     (if seq_len s \<le> 1 then Some False
      else do { dead \<leftarrow> dead_code s; Some (list_ex id (take (seq_len s - 1) dead)) })"

section \<open>Reverse sequences\<close>

record ReverseApiSequence =
  r_functions :: "ApiCall list"
  r_fuzzable_params :: "FuzzableType list"
  r_using_traits :: "string list"
  r_unsafe :: bool
  r_moved :: "nat set"
  r_fuzzable_mut_tag :: "nat set"
  r_function_mut_tag :: "nat set"
  r_covered_dependencies :: "nat set"

definition ReverseApiSequence_new :: ReverseApiSequence where
  "ReverseApiSequence_new = \<lparr>r_functions = [], r_fuzzable_params = [], r_using_traits = [],
     r_unsafe = False, r_moved = {}, r_fuzzable_mut_tag = {}, r_function_mut_tag = {},
     r_covered_dependencies = {}\<rparr>"

text \<open>\<open>api_call_num - x - 1\<close>: the subtraction panics when \<open>x\<close> is not a position.\<close>

definition flip_index :: "nat \<Rightarrow> nat \<Rightarrow> nat run" where
  "flip_index n x = do { d \<leftarrow> sub_m n x; sub_m d 1 }"

definition flip_param ::
  "nat \<Rightarrow> ParamType \<times> nat \<times> CallType \<Rightarrow> (ParamType \<times> nat \<times> CallType) run" where
  "flip_param n p = (case p of (pt, x, ct) \<Rightarrow>
     if pt = FunctionReturn then do { i \<leftarrow> flip_index n x; Some (pt, i, ct) } else Some p)"

definition flip_call :: "nat \<Rightarrow> ApiCall \<Rightarrow> ApiCall run" where
  "flip_call n call = do { ps \<leftarrow> map_m (flip_param n) (params call); Some (call\<lparr>params := ps\<rparr>) }"

text \<open>The function marks are filled from \<open>_fuzzable_mut_tag\<close>, as the source does. The subtraction may
  panic for each of them, in the order of the hash set, so that it panics when one is out of range.\<close>

definition generate_api_sequence :: "ReverseApiSequence \<Rightarrow> ApiSequence run" where
  "generate_api_sequence r =
     (let n = length (r_functions r) in
      do { fs \<leftarrow> map_m (flip_call n) (rev (r_functions r));
           if \<exists>x \<in> r_fuzzable_mut_tag r. flip_index n x = None then None
           else Some (ApiSequence_new\<lparr>seq_functions := fs,
             fuzzable_params := r_fuzzable_params r,
             using_traits := r_using_traits r,
             seq_unsafe := r_unsafe r,
             moved := r_moved r,
             fuzzable_mut_tag := r_fuzzable_mut_tag r,
             function_mut_tag := (\<lambda>x. n - x - 1) ` r_fuzzable_mut_tag r,
             covered_dependencies := r_covered_dependencies r\<rparr>) })"

definition combine :: "ReverseApiSequence \<Rightarrow> ReverseApiSequence \<Rightarrow> ReverseApiSequence" where
  "combine s t =
     (let nf = length (r_functions s); nz = length (r_fuzzable_params s)
      in s\<lparr>r_functions := r_functions s @ map (shift_call nf nz) (r_functions t),
           r_fuzzable_params := r_fuzzable_params s @ r_fuzzable_params t,
           r_unsafe := (r_unsafe s \<or> r_unsafe t),
           r_using_traits := r_using_traits s @ r_using_traits t,
           r_moved := r_moved s \<union> (\<lambda>i. i + nf) ` r_moved t,
           r_fuzzable_mut_tag := r_fuzzable_mut_tag s \<union> (\<lambda>i. i + nz) ` r_fuzzable_mut_tag t,
           r_function_mut_tag := r_function_mut_tag s \<union> (\<lambda>i. i + nf) ` r_function_mut_tag t\<rparr>)"

definition add_fn_reverse :: "ReverseApiSequence \<Rightarrow> ApiCall \<Rightarrow> ReverseApiSequence" where
  "add_fn_reverse r call = r\<lparr>r_functions := r_functions r @ [call]\<rparr>"

definition r_insert_fuzzable_mut_tag :: "ReverseApiSequence \<Rightarrow> nat \<Rightarrow> ReverseApiSequence" where
  "r_insert_fuzzable_mut_tag r i = r\<lparr>r_fuzzable_mut_tag := insert i (r_fuzzable_mut_tag r)\<rparr>"

definition r_insert_function_mut_tag :: "ReverseApiSequence \<Rightarrow> nat \<Rightarrow> ReverseApiSequence" where
  "r_insert_function_mut_tag r i = r\<lparr>r_function_mut_tag := insert i (r_function_mut_tag r)\<rparr>"

definition r_add_dependency :: "ReverseApiSequence \<Rightarrow> nat \<Rightarrow> ReverseApiSequence" where
  "r_add_dependency r d = r\<lparr>r_covered_dependencies := insert d (r_covered_dependencies r)\<rparr>"

definition r_set_unsafe :: "ReverseApiSequence \<Rightarrow> ReverseApiSequence" where
  "r_set_unsafe r = r\<lparr>r_unsafe := True\<rparr>"

section \<open>Well-formed sequences\<close>

text \<open>A parameter of a call with \<open>n\<close> earlier calls and \<open>z\<close> fuzzed values.\<close>

definition param_wf :: "nat \<Rightarrow> nat \<Rightarrow> ParamType \<times> nat \<times> CallType \<Rightarrow> bool" where
  "param_wf n z p = (case p of (pt, i, _) \<Rightarrow>
     (case pt of FunctionReturn \<Rightarrow> i < n | FuzzableParam \<Rightarrow> i < z))"

fun calls_wf :: "nat \<Rightarrow> nat \<Rightarrow> ApiCall list \<Rightarrow> bool" where
  "calls_wf n z [] = True"
| "calls_wf n z (call # calls) = (list_all (param_wf n z) (params call) \<and> calls_wf (Suc n) z calls)"

text \<open>The results that borrow from an earlier result, by the position of the latter.\<close>

definition careful_wf :: "nat \<Rightarrow> (nat \<rightharpoonup> nat list) \<Rightarrow> bool" where
  "careful_wf n m \<longleftrightarrow> (\<forall>k v. m k = Some v \<longrightarrow> k < n \<and> (\<forall>x \<in> set v. x < n))"

definition seq_wf :: "ApiSequence \<Rightarrow> bool" where
  "seq_wf s \<longleftrightarrow> calls_wf 0 (length (fuzzable_params s)) (seq_functions s)
     \<and> moved s \<subseteq> {..<seq_len s}
     \<and> fuzzable_mut_tag s \<subseteq> {..<length (fuzzable_params s)}
     \<and> function_mut_tag s \<subseteq> {..<seq_len s}
     \<and> careful_wf (seq_len s) (careful_pairs s)"

lemma calls_wf_append [simp]:
  "calls_wf n z (xs @ ys) \<longleftrightarrow> calls_wf n z xs \<and> calls_wf (n + length xs) z ys"
  by (induction xs arbitrary: n) auto

lemma calls_wf_nth:
  "calls_wf n z calls \<longleftrightarrow> (\<forall>i < length calls. list_all (param_wf (n + i) z) (params (calls ! i)))"
  by (induction calls arbitrary: n) (auto simp: All_less_Suc2)

lemma param_wf_mono: "param_wf n z p \<Longrightarrow> n \<le> n' \<Longrightarrow> z \<le> z' \<Longrightarrow> param_wf n' z' p"
  by (auto simp: param_wf_def split: ParamType.splits)

lemma calls_wf_mono: "calls_wf n z calls \<Longrightarrow> z \<le> z' \<Longrightarrow> calls_wf n z' calls"
  by (induction calls arbitrary: n) (auto simp: list_all_iff intro: param_wf_mono)

lemma param_wf_shift:
  "param_wf n z p \<Longrightarrow> param_wf (n + nf) (z + nz) (shift_param nf nz p)"
  by (auto simp: param_wf_def shift_param_def split: ParamType.splits)

lemma params_shift_call [simp]:
  "params (shift_call nf nz call) = map (shift_param nf nz) (params call)"
  "func (shift_call nf nz call) = func call"
  by (simp_all add: shift_call_def)

lemma calls_wf_shift:
  "calls_wf n z calls \<Longrightarrow> calls_wf (n + nf) (z + nz) (map (shift_call nf nz) calls)"
proof (induction calls arbitrary: n)
  case (Cons call calls)
  then have "calls_wf (Suc n + nf) (z + nz) (map (shift_call nf nz) calls)" by (metis calls_wf.simps(2))
  with Cons.prems show ?case by (auto simp: list_all_iff param_wf_shift)
qed simp

lemma seq_wf_new [simp]: "seq_wf ApiSequence_new"
  by (simp add: seq_wf_def ApiSequence_new_def seq_len_def careful_wf_def)

lemma careful_wf_mono: "careful_wf n m \<Longrightarrow> n \<le> n' \<Longrightarrow> careful_wf n' m"
  by (fastforce simp: careful_wf_def)

lemma shift_param_0 [simp]: "shift_param 0 0 p = p"
  by (cases p) (auto simp: shift_param_def split: ParamType.splits)

lemma shift_call_0 [simp]: "shift_call 0 0 call = call"
  by (simp add: shift_call_def map_idI)

lemma shift_call_shift [simp]:
  "shift_call a b (shift_call a' b' call) = shift_call (a' + a) (b' + b) call"
  by (auto simp: shift_call_def shift_param_def split: ParamType.splits)

lemma image_shift [simp]: "(\<lambda>i. i + a) ` (\<lambda>i. i + b) ` A = (\<lambda>i. i + (b + a)) ` (A :: nat set)"
  by (auto simp: image_iff add.assoc)

lemma merge_calls_wf:
  assumes "calls_wf 0 z xs" and "calls_wf 0 z' ys"
  shows "calls_wf 0 (z + z') (xs @ map (shift_call (length xs) z) ys)"
  using calls_wf_mono [OF assms(1), of "z + z'"] calls_wf_shift [OF assms(2), of "length xs" z]
  by (simp add: add.commute)

section \<open>The interface of merging\<close>

text \<open>What the clients of merging use: the number of calls adds up, merging is associative, an empty
  sequence at the end changes nothing, and the invariant is kept.\<close>

locale sequence_merge =
  fixes empty :: 's and merge :: "'s \<Rightarrow> 's \<Rightarrow> 's" and wf :: "'s \<Rightarrow> bool" and size_of :: "'s \<Rightarrow> nat"
  assumes wf_empty: "wf empty"
    and wf_merge: "wf s \<Longrightarrow> wf t \<Longrightarrow> wf (merge s t)"
    and merge_assoc: "merge (merge s t) u = merge s (merge t u)"
    and merge_empty: "merge s empty = s"
    and size_merge: "size_of (merge s t) = size_of s + size_of t"
begin

lemma wf_merge_all: "wf s \<Longrightarrow> list_all wf ts \<Longrightarrow> wf (fold (\<lambda>t b. merge b t) ts s)"
  by (induction ts arbitrary: s) (auto simp: wf_merge)

lemma merge_all_split:
  "fold (\<lambda>t b. merge b t) ts (merge s u) = merge s (fold (\<lambda>t b. merge b t) ts u)"
  by (induction ts arbitrary: u) (auto simp: merge_assoc)

lemma size_merge_all:
  "size_of (fold (\<lambda>t b. merge b t) ts s) = size_of s + sum_list (map size_of ts)"
  by (induction ts arbitrary: s) (auto simp: size_merge)

end

interpretation fwd: sequence_merge ApiSequence_new merge_another_sequence seq_wf seq_len
proof
  fix s t u :: ApiSequence
  show "seq_wf ApiSequence_new" by simp
  show "seq_wf (merge_another_sequence s t)" if "seq_wf s" "seq_wf t"
    using that merge_calls_wf [of "length (fuzzable_params s)" "seq_functions s"
        "length (fuzzable_params t)" "seq_functions t"]
    by (auto simp: seq_wf_def merge_another_sequence_def seq_len_def Let_def intro: careful_wf_mono)
  show "merge_another_sequence (merge_another_sequence s t) u
      = merge_another_sequence s (merge_another_sequence t u)"
    by (auto simp: merge_another_sequence_def Let_def image_Un comp_def add_ac Un_assoc)
  show "merge_another_sequence s ApiSequence_new = s"
    by (simp add: merge_another_sequence_def ApiSequence_new_def)
  show "seq_len (merge_another_sequence s t) = seq_len s + seq_len t"
    by (simp add: merge_another_sequence_def seq_len_def Let_def)
qed

text \<open>The reverse sequences: a parameter names a call further back in the list.\<close>

definition r_calls_wf :: "nat \<Rightarrow> ApiCall list \<Rightarrow> bool" where
  "r_calls_wf z calls = (\<forall>i < length calls. \<forall>(pt, x, _) \<in> set (params (calls ! i)).
     (case pt of FunctionReturn \<Rightarrow> i < x \<and> x < length calls | FuzzableParam \<Rightarrow> x < z))"

definition r_wf :: "ReverseApiSequence \<Rightarrow> bool" where
  "r_wf r \<longleftrightarrow> r_calls_wf (length (r_fuzzable_params r)) (r_functions r)
     \<and> r_fuzzable_mut_tag r \<subseteq> {..<length (r_fuzzable_params r)}
     \<and> r_function_mut_tag r \<subseteq> {..<length (r_functions r)}"

lemma r_calls_wf_merge:
  assumes "r_calls_wf z xs" and "r_calls_wf z' ys"
  shows "r_calls_wf (z + z') (xs @ map (shift_call (length xs) z) ys)"
  unfolding r_calls_wf_def
proof (intro allI impI)
  fix i assume i: "i < length (xs @ map (shift_call (length xs) z) ys)"
  show "\<forall>(pt, x, _) \<in> set (params ((xs @ map (shift_call (length xs) z) ys) ! i)).
     (case pt of FunctionReturn \<Rightarrow> i < x \<and> x < length (xs @ map (shift_call (length xs) z) ys)
               | FuzzableParam \<Rightarrow> x < z + z')"
  proof (cases "i < length xs")
    case True
    with assms(1) show ?thesis
      by (fastforce simp: r_calls_wf_def nth_append split: ParamType.splits)
  next
    case False
    define j where "j = i - length xs"
    with i False have j: "i = length xs + j" "j < length ys" by simp_all
    have shift: "case shift_param (length xs) z p of (pt, x, _) \<Rightarrow>
        (case pt of FunctionReturn \<Rightarrow> i < x \<and> x < length (xs @ map (shift_call (length xs) z) ys)
                  | FuzzableParam \<Rightarrow> x < z + z')"
      if "case p of (pt, x, _) \<Rightarrow>
        (case pt of FunctionReturn \<Rightarrow> j < x \<and> x < length ys | FuzzableParam \<Rightarrow> x < z')" for p
      using that j(1) by (cases p) (auto simp: shift_param_def split: ParamType.splits)
    have "\<forall>p \<in> set (params (ys ! j)). case p of (pt, x, _) \<Rightarrow>
        (case pt of FunctionReturn \<Rightarrow> j < x \<and> x < length ys | FuzzableParam \<Rightarrow> x < z')"
      using assms(2) j(2) by (simp add: r_calls_wf_def)
    with shift j show ?thesis by (simp add: nth_append)
  qed
qed

interpretation rev_seq: sequence_merge ReverseApiSequence_new combine r_wf "\<lambda>r. length (r_functions r)"
proof
  fix s t u :: ReverseApiSequence
  show "r_wf ReverseApiSequence_new"
    by (simp add: r_wf_def ReverseApiSequence_new_def r_calls_wf_def)
  show "r_wf (combine s t)" if "r_wf s" "r_wf t"
    using that r_calls_wf_merge [of "length (r_fuzzable_params s)" "r_functions s"
        "length (r_fuzzable_params t)" "r_functions t"]
    by (auto simp: r_wf_def combine_def Let_def)
  show "combine (combine s t) u = combine s (combine t u)"
    by (auto simp: combine_def Let_def image_Un comp_def add_ac Un_assoc)
  show "combine s ReverseApiSequence_new = s"
    by (simp add: combine_def ReverseApiSequence_new_def)
  show "length (r_functions (combine s t)) = length (r_functions s) + length (r_functions t)"
    by (simp add: combine_def Let_def)
qed

section \<open>Dead code\<close>

definition uses_result :: "nat \<Rightarrow> ApiCall \<Rightarrow> bool" where
  "uses_result j call = list_ex (\<lambda>(pt, i, _). pt = FunctionReturn \<and> i = j) (params call)"

lemma mark_used_simps [simp]:
  "mark_used (FunctionReturn, i, ct) dead = update_m dead i False"
  "mark_used (FuzzableParam, i, ct) dead = Some dead"
  by (simp_all add: mark_used_def)

lemma mark_used_fold:
  assumes "list_all (param_wf (length dead) z) ps"
  shows "\<exists>dead'. fold_m mark_used ps dead = Some dead' \<and> length dead' = length dead \<and>
    (\<forall>j < length dead. dead' ! j = (dead ! j \<and> \<not> list_ex (\<lambda>(pt, i, _). pt = FunctionReturn \<and> i = j) ps))"
  using assms
proof (induction ps arbitrary: dead)
  case (Cons p ps)
  obtain pt i ct where p: "p = (pt, i, ct)" by (cases p)
  show ?case
  proof (cases pt)
    case FunctionReturn
    with Cons.prems p have i: "i < length dead" by (simp add: param_wf_def)
    from Cons.prems have "list_all (param_wf (length (dead[i := False])) z) ps" by simp
    from Cons.IH [OF this] obtain d where "fold_m mark_used ps (dead[i := False]) = Some d"
      "length d = length dead"
      "\<forall>j < length dead. d ! j = (dead[i := False] ! j \<and>
         \<not> list_ex (\<lambda>(pt, i, _). pt = FunctionReturn \<and> i = j) ps)" by auto
    with i p FunctionReturn show ?thesis by (auto simp: nth_list_update)
  next
    case FuzzableParam
    with Cons p show ?thesis by auto
  qed
qed simp

lemma dead_code_fold:
  assumes "calls_wf n z calls" and "n + length calls \<le> length dead"
  shows "\<exists>dead'. fold_m (\<lambda>call dead. fold_m mark_used (params call) dead) calls dead = Some dead'
    \<and> length dead' = length dead
    \<and> (\<forall>j < length dead. dead' ! j = (dead ! j \<and> \<not> list_ex (uses_result j) calls))"
  using assms
proof (induction calls arbitrary: n dead)
  case (Cons call calls)
  then have "list_all (param_wf (length dead) z) (params call)"
    by (auto simp: list_all_iff intro: param_wf_mono)
  from mark_used_fold [OF this] obtain d where d: "fold_m mark_used (params call) dead = Some d"
      "length d = length dead" "\<forall>j < length dead. d ! j = (dead ! j \<and> \<not> uses_result j call)"
    by (auto simp: uses_result_def)
  with Cons.IH [of "Suc n" d] Cons.prems show ?case by auto
qed simp

lemma dead_code_flags:
  assumes "seq_wf s"
  shows "\<exists>dead. dead_code s = Some dead \<and> length dead = seq_len s \<and>
    (\<forall>j < seq_len s. dead ! j = (\<not> list_ex (uses_result j) (seq_functions s)))"
  using dead_code_fold [of 0 "length (fuzzable_params s)" "seq_functions s" "replicate (seq_len s) True"]
    assms
  by (auto simp: dead_code_def seq_wf_def seq_len_def)

text \<open>C33. On a well-formed sequence \<open>_dead_code\<close> returns, and the flag of a call says that no call
  takes its result.\<close>

theorem dead_code_correct:
  assumes "seq_wf s"
  shows "\<exists>dead. dead_code s = Some dead \<and> length dead = seq_len s \<and>
    (\<forall>j < seq_len s. dead ! j = (\<not> list_ex (uses_result j) (seq_functions s)))"
  using assms by (rule dead_code_flags)

definition two_calls :: ApiSequence where
  "two_calls = ApiSequence_new\<lparr>
     seq_functions := [\<lparr>func = (BareFunction, 4), params = [(FuzzableParam, 0, CT_DirectCall)]\<rparr>,
                       \<lparr>func = (BareFunction, 7),
                        params = [(FunctionReturn, 0, CT_BorrowedRef CT_DirectCall),
                                  (FuzzableParam, 1, CT_DirectCall)]\<rparr>],
     fuzzable_params := [FT_Primitive P_U32, FT_RefStr]\<rparr>"

lemma two_calls_wf: "seq_wf two_calls"
  by (simp add: two_calls_def seq_wf_def ApiSequence_new_def param_wf_def seq_len_def careful_wf_def)

lemma dead_code_correct_witness:
  "\<exists>dead. dead_code two_calls = Some dead \<and> length dead = seq_len two_calls \<and>
    (\<forall>j < seq_len two_calls. dead ! j = (\<not> list_ex (uses_result j) (seq_functions two_calls)))"
  by (rule dead_code_correct [OF two_calls_wf])

section \<open>Merging many sequences\<close>

text \<open>The calls and the fuzzed values that come before those of the sequence at position \<open>i\<close>.\<close>

definition call_offset :: "ApiSequence list \<Rightarrow> nat \<Rightarrow> nat" where
  "call_offset ss i = sum_list (map seq_len (take i ss))"

definition fuzz_offset :: "ApiSequence list \<Rightarrow> nat \<Rightarrow> nat" where
  "fuzz_offset ss i = sum_list (map (\<lambda>s. length (fuzzable_params s)) (take i ss))"

lemma offset_prefix [simp]:
  "i \<le> length ss \<Longrightarrow> call_offset (ss @ ts) i = call_offset ss i"
  "i \<le> length ss \<Longrightarrow> fuzz_offset (ss @ ts) i = fuzz_offset ss i"
  by (simp_all add: call_offset_def fuzz_offset_def)

lemma call_offset_less:
  assumes "i < length ss" and "a < seq_len (ss ! i)"
  shows "call_offset ss i + a < sum_list (map seq_len ss)"
proof -
  have "sum_list (map seq_len ss)
      = call_offset ss i + seq_len (ss ! i) + sum_list (map seq_len (drop (Suc i) ss))"
    using arg_cong [OF id_take_nth_drop [OF assms(1)], of "\<lambda>xs. sum_list (map seq_len xs)"]
    by (simp add: call_offset_def)
  with assms(2) show ?thesis by simp
qed

lemma merge_sequences_len: "seq_len (merge_sequences ss) = sum_list (map seq_len ss)"
  by (cases ss) (simp_all add: merge_sequences_def fwd.size_merge_all,
      simp add: seq_len_def ApiSequence_new_def)

lemma merge_sequences_split:
  "ss \<noteq> [] \<Longrightarrow> ts \<noteq> [] \<Longrightarrow>
   merge_sequences (ss @ ts) = merge_another_sequence (merge_sequences ss) (merge_sequences ts)"
  by (cases ss; cases ts) (simp_all add: merge_sequences_def fwd.merge_all_split)

lemma merge_sequences_single [simp]: "merge_sequences [s] = s"
  by (simp add: merge_sequences_def)

lemma merge_sequences_fuzzables:
  "fuzzable_params (merge_sequences ss) = concat (map fuzzable_params ss)"
proof (induction ss rule: rev_induct)
  case Nil then show ?case by (simp add: merge_sequences_def ApiSequence_new_def)
next
  case (snoc t ss) then show ?case
    by (cases "ss = []") (simp_all add: merge_sequences_split merge_another_sequence_def Let_def)
qed

lemma offset_total:
  "call_offset ss (length ss) = length (seq_functions (merge_sequences ss))"
  "fuzz_offset ss (length ss) = length (fuzzable_params (merge_sequences ss))"
  using merge_sequences_len [of ss]
  by (simp_all add: call_offset_def fuzz_offset_def merge_sequences_fuzzables length_concat comp_def
      seq_len_def)

text \<open>The call at position \<open>a\<close> of the sequence at position \<open>i\<close> is found after the calls of the
  sequences before it, shifted by what they hold.\<close>

lemma merge_sequences_nth:
  assumes "i < length ss" and "a < seq_len (ss ! i)"
  shows "seq_functions (merge_sequences ss) ! (call_offset ss i + a)
    = shift_call (call_offset ss i) (fuzz_offset ss i) (seq_functions (ss ! i) ! a)"
  using assms
proof (induction ss arbitrary: i rule: rev_induct)
  case (snoc t ss)
  show ?case
  proof (cases "ss = []")
    case True
    with snoc.prems show ?thesis by (simp add: call_offset_def fuzz_offset_def)
  next
    case ne: False
    have fs: "seq_functions (merge_sequences (ss @ [t])) = seq_functions (merge_sequences ss)
        @ map (shift_call (call_offset ss (length ss)) (fuzz_offset ss (length ss))) (seq_functions t)"
      using ne by (simp add: merge_sequences_split merge_another_sequence_def Let_def offset_total)
    show ?thesis
    proof (cases "i < length ss")
      case True
      with snoc.prems have a: "a < seq_len (ss ! i)" by (simp add: nth_append)
      with True call_offset_less [OF True a] snoc.IH [OF True a] merge_sequences_len [of ss]
      show ?thesis by (simp add: fs nth_append seq_len_def)
    next
      case False
      with snoc.prems have "i = length ss" "a < length (seq_functions t)"
        by (auto simp: seq_len_def nth_append less_Suc_eq)
      then show ?thesis by (simp add: fs nth_append offset_total)
    qed
  qed
qed simp

text \<open>Every mark of a sequence is shifted in the same way.\<close>

lemma merge_sequences_union:
  assumes new: "f ApiSequence_new = {}" "g ApiSequence_new = 0"
    and step: "\<And>s t. f (merge_another_sequence s t) = f s \<union> (+) (g s) ` f t"
    and off: "\<And>ss. off ss (length ss) = g (merge_sequences ss)"
    and prefix: "\<And>ss t i. i \<le> length ss \<Longrightarrow> off (ss @ [t]) i = off ss i"
  shows "f (merge_sequences ss) = (\<Union>i < length ss. (+) (off ss i) ` f (ss ! i) :: nat set)"
proof (induction ss rule: rev_induct)
  case Nil
  then show ?case by (simp add: merge_sequences_def new)
next
  case (snoc t ss)
  have "off [] 0 = 0" using off [of "[]"] by (simp add: merge_sequences_def new)
  with snoc show ?case
    using merge_sequences_split [of ss "[t]"]
    by (cases "ss = []") (auto simp: lessThan_Suc nth_append step off [symmetric] prefix prefix [of 0 "[]", simplified])
qed

lemma merge_sequences_marks:
  "moved (merge_sequences ss) = (\<Union>i < length ss. (+) (call_offset ss i) ` moved (ss ! i))"
  "function_mut_tag (merge_sequences ss)
     = (\<Union>i < length ss. (+) (call_offset ss i) ` function_mut_tag (ss ! i))"
  "fuzzable_mut_tag (merge_sequences ss)
     = (\<Union>i < length ss. (+) (fuzz_offset ss i) ` fuzzable_mut_tag (ss ! i))"
  by (rule merge_sequences_union [where g = "\<lambda>s. length (seq_functions s)"]
        merge_sequences_union [where g = "\<lambda>s. length (fuzzable_params s)"];
      simp add: ApiSequence_new_def merge_another_sequence_def Let_def offset_total add.commute)+

text \<open>The same call when the results are counted from \<open>nf\<close> on and the fuzzed values from \<open>nz\<close> on.\<close>

definition renumbered :: "nat \<Rightarrow> nat \<Rightarrow> ApiCall \<Rightarrow> ApiCall \<Rightarrow> bool" where
  "renumbered nf nz c c' \<longleftrightarrow> func c' = func c \<and>
     list_all2 (\<lambda>(pt, k, ct) (pt', k', ct'). pt' = pt \<and> ct' = ct \<and>
        (pt = FunctionReturn \<longrightarrow> k' = nf + k) \<and> (pt = FuzzableParam \<longrightarrow> k' = nz + k))
       (params c) (params c')"

lemma renumbered_shift_call: "renumbered nf nz c (shift_call nf nz c)"
  by (auto simp: renumbered_def list_all2_map2 list.rel_refl shift_param_def split: ParamType.splits
      intro!: list.rel_refl)

text \<open>C28. Merging any number of well-formed sequences gives a well-formed one with all their calls and
  fuzzed values in order. The call at position \<open>a\<close> of the sequence at position \<open>i\<close> calls the same
  function with as many arguments; an argument that is the result of call \<open>k\<close> of its sequence
  is now the result of call \<open>k\<close> counted from the first call of that sequence, one that is the
  fuzzed value \<open>k\<close> is that value counted from the first one of that sequence, and its call type is
  kept. The marks for moved results and for mutable results and values are shifted in the same way,
  and how the merges are grouped makes no difference.\<close>

theorem merge_sequences_correct:
  assumes "list_all seq_wf ss"
  shows "seq_wf (merge_sequences ss) \<and> seq_len (merge_sequences ss) = sum_list (map seq_len ss) \<and>
    fuzzable_params (merge_sequences ss) = concat (map fuzzable_params ss) \<and>
    (\<forall>i < length ss. \<forall>a < seq_len (ss ! i).
       renumbered (call_offset ss i) (fuzz_offset ss i) (seq_functions (ss ! i) ! a)
         (seq_functions (merge_sequences ss) ! (call_offset ss i + a))) \<and>
    moved (merge_sequences ss) = (\<Union>i < length ss. (+) (call_offset ss i) ` moved (ss ! i)) \<and>
    function_mut_tag (merge_sequences ss)
      = (\<Union>i < length ss. (+) (call_offset ss i) ` function_mut_tag (ss ! i)) \<and>
    fuzzable_mut_tag (merge_sequences ss)
      = (\<Union>i < length ss. (+) (fuzz_offset ss i) ` fuzzable_mut_tag (ss ! i)) \<and>
    (ss \<noteq> [] \<and> ts \<noteq> [] \<longrightarrow>
     merge_sequences (ss @ ts) = merge_another_sequence (merge_sequences ss) (merge_sequences ts))"
proof (intro conjI allI impI)
  show "seq_wf (merge_sequences ss)"
    using assms by (cases ss) (simp_all add: merge_sequences_def fwd.wf_merge_all)
qed (simp_all only: merge_sequences_len merge_sequences_fuzzables merge_sequences_nth
    renumbered_shift_call merge_sequences_marks merge_sequences_split simp_thms)

lemma merge_sequences_correct_witness:
  "seq_wf (merge_sequences [two_calls, two_calls]) \<and>
   params (seq_functions (merge_sequences [two_calls, two_calls]) ! 3)
     = [(FunctionReturn, 2, CT_BorrowedRef CT_DirectCall), (FuzzableParam, 3, CT_DirectCall)] \<and>
   merge_sequences [two_calls, two_calls, two_calls]
     = merge_another_sequence (merge_sequences [two_calls, two_calls]) two_calls"
proof -
  let ?ss = "[two_calls, two_calls]"
  have wf: "list_all seq_wf ?ss" using two_calls_wf by simp
  note ok = merge_sequences_correct [OF wf, of "[two_calls]"]
  have len: "seq_len two_calls = 2" by (simp add: two_calls_def seq_len_def)
  have off: "call_offset ?ss 1 + 1 = 3" "call_offset ?ss 1 = 2" "fuzz_offset ?ss 1 = 2"
    by (simp_all add: call_offset_def fuzz_offset_def two_calls_def seq_len_def)
  have all: "\<forall>i < length ?ss. \<forall>a < seq_len (?ss ! i).
       renumbered (call_offset ?ss i) (fuzz_offset ?ss i) (seq_functions (?ss ! i) ! a)
         (seq_functions (merge_sequences ?ss) ! (call_offset ?ss i + a))"
    by (rule ok [THEN conjunct2, THEN conjunct2, THEN conjunct2, THEN conjunct1])
  have "renumbered (call_offset ?ss 1) (fuzz_offset ?ss 1) (seq_functions (?ss ! 1) ! 1)
         (seq_functions (merge_sequences ?ss) ! (call_offset ?ss 1 + 1))"
    by (rule all [rule_format]) (simp_all add: len)
  then have "renumbered 2 2 (seq_functions two_calls ! 1) (seq_functions (merge_sequences ?ss) ! 3)"
    unfolding off by simp
  then have "params (seq_functions (merge_sequences ?ss) ! 3)
     = [(FunctionReturn, 2, CT_BorrowedRef CT_DirectCall), (FuzzableParam, 3, CT_DirectCall)]"
    by (auto simp: renumbered_def two_calls_def list_all2_Cons1)
  with ok show ?thesis by simp
qed

section \<open>Turning a reverse sequence around\<close>

lemma flip_index_in: "x < n \<Longrightarrow> flip_index n x = Some (n - x - 1)"
  by (simp add: flip_index_def)

lemma flip_param_wf:
  assumes "case p of (pt, x, _) \<Rightarrow> (case pt of FunctionReturn \<Rightarrow> i < x \<and> x < n | FuzzableParam \<Rightarrow> x < z)"
  shows "\<exists>q. flip_param n p = Some q \<and> param_wf (n - i - 1) z q"
proof -
  obtain pt x ct where p: "p = (pt, x, ct)" by (cases p)
  with assms show ?thesis
    by (cases pt) (auto simp: flip_param_def flip_index_in param_wf_def)
qed

lemma map_m_list_all:
  assumes "\<And>x. x \<in> set xs \<Longrightarrow> \<exists>y. f x = Some y \<and> P y"
  shows "\<exists>ys. map_m f xs = Some ys \<and> list_all P ys"
  using assms by (induction xs) fastforce+

lemma flip_call_wf:
  assumes "r_calls_wf z calls" and "i < length calls"
  shows "\<exists>call'. flip_call (length calls) (calls ! i) = Some call' \<and>
    func call' = func (calls ! i) \<and> list_all (param_wf (length calls - i - 1) z) (params call')"
proof -
  have "\<exists>ps. map_m (flip_param (length calls)) (params (calls ! i)) = Some ps \<and>
      list_all (param_wf (length calls - i - 1) z) ps"
    using assms by (intro map_m_list_all flip_param_wf) (auto simp: r_calls_wf_def)
  then show ?thesis by (auto simp: flip_call_def)
qed

text \<open>The same call when the call at position \<open>k\<close> of \<open>n\<close> calls is counted from the other end.\<close>

definition reversed_call :: "nat \<Rightarrow> ApiCall \<Rightarrow> ApiCall \<Rightarrow> bool" where
  "reversed_call n c c' \<longleftrightarrow> func c' = func c \<and>
     list_all2 (\<lambda>(pt, k, ct) (pt', k', ct'). pt' = pt \<and> ct' = ct \<and>
        (pt = FunctionReturn \<longrightarrow> k' + k + 1 = n) \<and> (pt = FuzzableParam \<longrightarrow> k' = k))
       (params c) (params c')"

lemma sub_m_Some: "sub_m a b = Some d \<longleftrightarrow> b + d = a"
  by (auto simp: sub_m_def)

lemma flip_index_Some: "flip_index n x = Some i \<longleftrightarrow> i + x + 1 = n"
  by (auto simp: flip_index_def bind_eq_Some_conv sub_m_Some)

lemma flip_call_reversed:
  assumes "flip_call n c = Some c'"
  shows "reversed_call n c c'"
proof -
  obtain ps where ps: "map_m (flip_param n) (params c) = Some ps" and c': "c' = c\<lparr>params := ps\<rparr>"
    using assms by (auto simp: flip_call_def bind_eq_Some_conv)
  have "case (p, q) of ((pt, k, ct), (pt', k', ct')) \<Rightarrow> pt' = pt \<and> ct' = ct \<and>
      (pt = FunctionReturn \<longrightarrow> k' + k + 1 = n) \<and> (pt = FuzzableParam \<longrightarrow> k' = k)"
    if "flip_param n p = Some q" for p q
    using that by (auto simp: flip_param_def flip_index_Some bind_eq_Some_conv split: if_splits)
  with ps map_m_length [OF ps] map_m_nth [OF ps] show ?thesis
    by (auto simp: reversed_call_def c' list_all2_conv_all_nth split_beta)
qed

lemma flip_calls_wf:
  assumes "r_calls_wf z calls"
  shows "\<exists>fs. map_m (flip_call (length calls)) (rev calls) = Some fs \<and> calls_wf 0 z fs
    \<and> length fs = length calls
    \<and> (\<forall>a < length calls. reversed_call (length calls) (calls ! a) (fs ! (length calls - 1 - a)))"
proof -
  have "\<exists>fs. map_m (flip_call (length calls)) (rev calls) = Some fs"
    using flip_call_wf [OF assms] map_m_no_panic [of "rev calls" "flip_call (length calls)"]
    by (force simp: in_set_conv_nth)
  then obtain fs where fs: "map_m (flip_call (length calls)) (rev calls) = Some fs" by blast
  then have len: "length fs = length calls" by (auto dest: map_m_length)
  have "list_all (param_wf i z) (params (fs ! i))" if "i < length calls" for i
    using flip_call_wf [OF assms, of "length calls - Suc i"] map_m_nth [OF fs, of i] that
    by (auto simp: rev_nth)
  with len have "calls_wf 0 z fs" by (simp add: calls_wf_nth)
  moreover have "reversed_call (length calls) (calls ! a) (fs ! (length calls - 1 - a))"
    if "a < length calls" for a
    using flip_call_reversed map_m_nth [OF fs, of "length calls - 1 - a"] that by (simp add: rev_nth)
  ultimately show ?thesis using fs len by blast
qed

text \<open>C34. Turning a well-formed reverse sequence of \<open>n\<close> calls around gives the calls in the opposite
  order: the call at position \<open>a\<close> is at position \<open>n - 1 - a\<close>, with the same function and the
  same number of arguments. An argument that is the result of the call at position \<open>k\<close> is now the
  result of the call at \<open>n - 1 - k\<close>, which is the same call and comes earlier; one that is a fuzzed
  value is unchanged, and every call type is kept. The condition on the marks is
  the one the source needs: each position marked as a mutable fuzzed value must also be a position
  of a call, since the marks of the results are computed from those of the values.\<close>

theorem generate_api_sequence_correct:
  assumes "r_wf r" and "r_fuzzable_mut_tag r \<subseteq> {..<length (r_functions r)}"
  shows "\<exists>s. generate_api_sequence r = Some s \<and>
    calls_wf 0 (length (fuzzable_params s)) (seq_functions s) \<and>
    seq_len s = length (r_functions r) \<and>
    (\<forall>a < seq_len s. reversed_call (seq_len s) (r_functions r ! a)
       (seq_functions s ! (seq_len s - 1 - a))) \<and>
    fuzzable_params s = r_fuzzable_params r \<and> moved s = r_moved r \<and>
    fuzzable_mut_tag s = r_fuzzable_mut_tag r \<and>
    function_mut_tag s = (\<lambda>k. seq_len s - 1 - k) ` r_fuzzable_mut_tag r"
proof -
  obtain fs where "map_m (flip_call (length (r_functions r))) (rev (r_functions r)) = Some fs"
      "calls_wf 0 (length (r_fuzzable_params r)) fs" "length fs = length (r_functions r)"
      "\<forall>a < length (r_functions r). reversed_call (length (r_functions r)) (r_functions r ! a)
         (fs ! (length (r_functions r) - 1 - a))"
    using flip_calls_wf [of "length (r_fuzzable_params r)" "r_functions r"] assms(1) r_wf_def
    by blast
  moreover have "\<not> (\<exists>x \<in> r_fuzzable_mut_tag r. flip_index (length (r_functions r)) x = None)"
    using assms(2) by (auto simp: flip_index_in)
  ultimately show ?thesis
    by (simp add: generate_api_sequence_def Let_def if_not_P seq_len_def diff_commute del: not_None_eq bex_simps)
qed

definition reverse_calls :: ReverseApiSequence where
  "reverse_calls = ReverseApiSequence_new\<lparr>
     r_functions := [\<lparr>func = (BareFunction, 7), params = [(FunctionReturn, 1, CT_DirectCall)]\<rparr>,
                     \<lparr>func = (BareFunction, 4),
                      params = [(FuzzableParam, 0, CT_MutBorrowedRef CT_DirectCall)]\<rparr>],
     r_fuzzable_params := [FT_Primitive P_U32], r_fuzzable_mut_tag := {0}\<rparr>"

lemma generate_api_sequence_correct_witness:
  "\<exists>s. generate_api_sequence reverse_calls = Some s \<and>
    map func (seq_functions s) = [(BareFunction, 4), (BareFunction, 7)] \<and>
    map params (seq_functions s) = [[(FuzzableParam, 0, CT_MutBorrowedRef CT_DirectCall)],
                                    [(FunctionReturn, 0, CT_DirectCall)]]"
proof -
  have wf: "r_wf reverse_calls"
    and tag: "r_fuzzable_mut_tag reverse_calls \<subseteq> {..<length (r_functions reverse_calls)}"
    by (auto simp: reverse_calls_def r_wf_def r_calls_wf_def ReverseApiSequence_new_def less_Suc_eq
        split: ParamType.splits)
  obtain s where s: "generate_api_sequence reverse_calls = Some s"
      "seq_len s = length (r_functions reverse_calls)"
      "\<forall>a < seq_len s. reversed_call (seq_len s) (r_functions reverse_calls ! a)
         (seq_functions s ! (seq_len s - 1 - a))"
    using generate_api_sequence_correct [OF wf tag] by blast
  have fs: "r_functions reverse_calls = [\<lparr>func = (BareFunction, 7), params = [(FunctionReturn, 1, CT_DirectCall)]\<rparr>,
      \<lparr>func = (BareFunction, 4), params = [(FuzzableParam, 0, CT_MutBorrowedRef CT_DirectCall)]\<rparr>]"
    by (simp add: reverse_calls_def)
  then have "seq_len s = 2" using s(2) by simp
  then obtain c d where cd: "seq_functions s = [c, d]"
    by (auto simp: seq_len_def length_Suc_conv numeral_2_eq_2)
  have "reversed_call 2 (r_functions reverse_calls ! 0) d" "reversed_call 2 (r_functions reverse_calls ! 1) c"
    using s(3) \<open>seq_len s = 2\<close> by (auto simp: cd All_less_Suc numeral_2_eq_2)
  then show ?thesis using s(1) by (auto simp: cd fs reversed_call_def list_all2_Cons1)
qed

text \<open>The marks of the results are taken from those of the fuzzed values: one call with two
  mutable fuzzed parameters is enough to make \<open>_generate_api_sequence\<close> panic, and a mark on a
  result is never carried over.\<close>

theorem generate_api_sequence_tags:
  "generate_api_sequence (r_insert_fuzzable_mut_tag (r_insert_fuzzable_mut_tag
     (add_fn_reverse (ReverseApiSequence_new\<lparr>r_fuzzable_params := [FT_Primitive P_U8, FT_Primitive P_U8]\<rparr>)
       \<lparr>func = (BareFunction, f),
        params = [(FuzzableParam, 0, CT_MutBorrowedRef CT_DirectCall),
                  (FuzzableParam, 1, CT_MutBorrowedRef CT_DirectCall)]\<rparr>) 0) 1) = None \<and>
   (generate_api_sequence r = Some s \<longrightarrow> r_fuzzable_mut_tag r = {} \<longrightarrow> function_mut_tag s = {})"
  by (auto simp: generate_api_sequence_def r_insert_fuzzable_mut_tag_def add_fn_reverse_def
      ReverseApiSequence_new_def flip_call_def flip_param_def flip_index_def sub_m_def
      bind_eq_Some_conv)

lemma generate_api_sequence_tags_witness:
  "\<exists>s. generate_api_sequence (r_insert_function_mut_tag (add_fn_reverse ReverseApiSequence_new
      (ApiCall_new 3)) 0) = Some s \<and> function_mut_tag s = {}"
proof -
  let ?r = "r_insert_function_mut_tag (add_fn_reverse ReverseApiSequence_new (ApiCall_new 3)) 0"
  have "generate_api_sequence ?r \<noteq> None" and "r_fuzzable_mut_tag ?r = {}"
    by (simp_all add: generate_api_sequence_def r_insert_function_mut_tag_def add_fn_reverse_def
        ReverseApiSequence_new_def flip_call_def ApiCall_new_def)
  then show ?thesis using generate_api_sequence_tags [of 0 ?r] by blast
qed

end
