(* ===== verification/Api_Graph.thy ===== *)
theory Api_Graph
  imports Api_Function Api_Sequence
begin

text \<open>
  \<open>api_graph.rs\<close>, first part: the graph of the crate's public functions, how it is filled and
  filtered, the dependency edges between functions, and \<open>is_fun_satisfied\<close>, which appends a call
  to a sequence when all its parameters can be provided without using a moved value or breaking
  the borrow rules it tracks.

  A result \<open>'a option run\<close> is the \<open>Option\<close> the source returns inside the possibility of a panic.
\<close>

record ApiDependency =
  output_fun :: "ApiType \<times> nat"
  input_fun :: "ApiType \<times> nat"
  input_param_index :: nat
  dep_call_type :: CallType

record ApiGraph =
  crate_name :: string
  api_functions :: "ApiFunction list"
  api_functions_visited :: "bool list"
  api_dependencies :: "ApiDependency list"
  api_sequences :: "ApiSequence list"
  full_name_map :: FullNameMap
  mod_visibility :: ModVisibity
  functions_with_unsupported_fuzzable_types :: "string set"
  graph_cache :: Cache

definition ApiGraph_new :: "string \<Rightarrow> Cache \<Rightarrow> ApiGraph" where
  "ApiGraph_new crate c = \<lparr>crate_name = crate, api_functions = [], api_functions_visited = [],
     api_dependencies = [], api_sequences = [], full_name_map = FullNameMap_new,
     mod_visibility = ModVisibity_new crate, functions_with_unsupported_fuzzable_types = {},
     graph_cache = c\<rparr>"

section \<open>Filling the graph\<close>

definition with_i32_substitutions :: "ApiFunction \<Rightarrow> ApiFunction" where
  "with_i32_substitutions f = f\<lparr>generic_substitutions :=
     fold (\<lambda>p \<sigma>. if gp_is_type p then \<sigma>(gp_name p \<mapsto> T_Primitive P_I32) else \<sigma>)
       (generics f) (generic_substitutions f)\<rparr>"

definition add_api_function :: "ApiGraph \<Rightarrow> ApiFunction \<Rightarrow> ApiGraph run" where
  "add_api_function g f =
     do { b \<leftarrow> contains_unsupported_fuzzable_type (graph_cache g) (full_name_map g) f;
          Some (if b
            then g\<lparr>functions_with_unsupported_fuzzable_types :=
                    insert (full_name f) (functions_with_unsupported_fuzzable_types g)\<rparr>
            else g\<lparr>api_functions := api_functions g @ [with_i32_substitutions f]\<rparr>) }"

definition add_mod_visibility :: "ApiGraph \<Rightarrow> string \<Rightarrow> Visibility \<Rightarrow> ApiGraph" where
  "add_mod_visibility g n vis = g\<lparr>mod_visibility := add_one_mod (mod_visibility g) n vis\<rparr>"

definition filter_functions_defined_on_prelude_type :: "ApiGraph \<Rightarrow> ApiGraph" where
  "filter_functions_defined_on_prelude_type g =
     (let prelude_types = get_all_preluded_type
      in if length prelude_types \<le> 0 then g
         else g\<lparr>api_functions :=
           filter (is_not_defined_on_prelude_type prelude_types) (api_functions g)\<rparr>)"

text \<open>The body of the loop over the invisible modules; the two literal suffixes hide a function as
  soon as there is an invisible module at all.\<close>

definition hidden_by :: "ApiFunction \<Rightarrow> string \<Rightarrow> bool" where
  "hidden_by f m =
     (starts_with (full_name f) m
      \<or> ends_with (full_name f) ''lossy_normalization''
      \<or> ends_with (full_name f) '':TokenizerBuilder::new''
      \<or> (case trait_full_path f of Some t \<Rightarrow> starts_with t m | None \<Rightarrow> False))"

definition filter_api_functions_by_mod_visibility :: "ApiGraph \<Rightarrow> ApiGraph run" where
  "filter_api_functions_by_mod_visibility g =
     (if mv_inner (mod_visibility g) = [] then None
      else do { ms \<leftarrow> get_invisible_mods (mod_visibility g);
                Some (g\<lparr>api_functions :=
                  filter (\<lambda>f. \<not> list_ex (hidden_by f) ms \<and> visibility f = Public)
                    (api_functions g)\<rparr>) })"

definition excluded_names :: "string list" where
  "excluded_names = [''from_static'', ''with_capacity'', ''TimeDelta'', ''from_raw_parts_mut'',
     ''xi_core_lib::core::XiCore::inner'', ''WidthBatchReq::request'', ''path_segments_mut'',
     ''with_user_event'', ''keyboard'', ''scancode'']"

definition filter_functions :: "ApiGraph \<Rightarrow> bool \<Rightarrow> ApiGraph run" where
  "filter_functions g support_generic =
     do { g' \<leftarrow> filter_api_functions_by_mod_visibility (filter_functions_defined_on_prelude_type g);
          Some (if support_generic then g'
                else g'\<lparr>api_functions :=
                  filter (\<lambda>f. \<not> is_generic_function f \<and>
                              list_all (\<lambda>n. \<not> str_contains (full_name f) n) excluded_names)
                    (api_functions g')\<rparr>) }"

definition set_full_name_map :: "ApiGraph \<Rightarrow> FullNameMap \<Rightarrow> ApiGraph" where
  "set_full_name_map g m = g\<lparr>full_name_map := m\<rparr>"

section \<open>Dependencies\<close>

text \<open>A type is skipped in the non-generic mode when it is generic and not an \<open>Option\<close> or \<open>Result\<close>.\<close>

definition skip_generic :: "ApiGraph \<Rightarrow> Type \<Rightarrow> bool run" where
  "skip_generic g t =
     do { special \<leftarrow> prelude_type_need_special_dealing (graph_cache g) (full_name_map g) t;
          Some (\<not> special \<and> is_generic_type t) }"

text \<open>The innermost loop body: parameter \<open>k\<close> of type \<open>inp\<close> of function \<open>j\<close> against the output of
  function \<open>i\<close>. The output type is part of the state, since the generic mode keeps it substituted
  for the following parameters.\<close>

definition dependency_of_param ::
  "ApiGraph \<Rightarrow> bool \<Rightarrow> nat \<Rightarrow> ApiFunction \<Rightarrow> nat \<Rightarrow> ApiFunction \<Rightarrow> nat \<times> Type \<Rightarrow>
   Type \<times> ApiDependency list \<Rightarrow> (Type \<times> ApiDependency list) run" where
  "dependency_of_param g support_generic i first j second kinp st =
     (case (kinp, st) of ((k, inp), (out, deps)) \<Rightarrow>
      let compare = (\<lambda>out inp.
            do { ct \<leftarrow> same_type (graph_cache g) (full_name_map g) True out inp;
                 Some (out, if ct = CT_NotCompatible then deps
                   else deps @ [\<lparr>output_fun = (BareFunction, i), input_fun = (BareFunction, j),
                                  input_param_index = k, dep_call_type = ct\<rparr>]) })
      in if support_generic then
           (case substitute_type (generic_substitutions first) out of
              None \<Rightarrow> Some (out, deps)
            | Some out' \<Rightarrow>
                (case substitute_type (generic_substitutions second) inp of
                   None \<Rightarrow> Some (out', deps)
                 | Some inp' \<Rightarrow> compare out' inp'))
         else
           do { so \<leftarrow> skip_generic g out;
                if so then Some (out, deps)
                else do { si \<leftarrow> skip_generic g inp;
                          if si then Some (out, deps) else compare out inp } })"

definition dependencies_to ::
  "ApiGraph \<Rightarrow> bool \<Rightarrow> nat \<Rightarrow> ApiFunction \<Rightarrow> nat \<times> ApiFunction \<Rightarrow>
   Type \<times> ApiDependency list \<Rightarrow> (Type \<times> ApiDependency list) run" where
  "dependencies_to g support_generic i first jsecond st =
     (case jsecond of (j, second) \<Rightarrow>
      do { start \<leftarrow> is_start_function (graph_cache g) (full_name_map g) support_generic second;
           if start then Some st
           else fold_m (dependency_of_param g support_generic i first j second)
                  (enumerate 0 (inputs second)) st })"

definition dependencies_from ::
  "ApiGraph \<Rightarrow> bool \<Rightarrow> nat \<times> ApiFunction \<Rightarrow> ApiDependency list \<Rightarrow> ApiDependency list run" where
  "dependencies_from g support_generic ifirst deps =
     (case ifirst of (i, first) \<Rightarrow>
      do { ended \<leftarrow> is_end_function (graph_cache g) (full_name_map g) support_generic first;
           if ended then Some deps
           else case output_type first of
             None \<Rightarrow> Some deps
           | Some t \<Rightarrow>
               do { special \<leftarrow> prelude_type_need_special_dealing (graph_cache g) (full_name_map g) t;
                    out \<leftarrow> (if special then
                              do { p \<leftarrow> from_type (graph_cache g) (full_name_map g) t;
                                   Some (get_final_type p) }
                            else Some t);
                    (_, deps') \<leftarrow> fold_m (dependencies_to g support_generic i first)
                      (enumerate 0 (api_functions g)) (out, deps);
                    Some deps' } })"

definition find_all_dependencies :: "ApiGraph \<Rightarrow> bool \<Rightarrow> ApiGraph run" where
  "find_all_dependencies g support_generic =
     do { deps \<leftarrow> fold_m (dependencies_from g support_generic) (enumerate 0 (api_functions g)) [];
          Some (g\<lparr>api_dependencies := deps\<rparr>) }"

definition check_dependency ::
  "ApiGraph \<Rightarrow> ApiType \<Rightarrow> nat \<Rightarrow> ApiType \<Rightarrow> nat \<Rightarrow> nat \<Rightarrow> nat option" where
  "check_dependency g ot oi it ii k =
     find_index (\<lambda>d. \<lparr>output_fun = (ot, oi), input_fun = (it, ii), input_param_index = k,
                      dep_call_type = dep_call_type d\<rparr> = d) (api_dependencies g)"

section \<open>Visited functions\<close>

definition reset_visited :: "ApiGraph \<Rightarrow> ApiGraph" where
  "reset_visited g = g\<lparr>api_functions_visited := replicate (length (api_functions g)) False\<rparr>"

definition visited_nodes_num :: "ApiGraph \<Rightarrow> nat" where
  "visited_nodes_num g = length (filter id (api_functions_visited g))"

definition check_all_visited :: "ApiGraph \<Rightarrow> bool" where
  "check_all_visited g =
     (fold (\<lambda>v n. if v then n + 1 else n) (api_functions_visited g) 0
      = length (api_functions_visited g))"

definition is_sequence_ended :: "ApiGraph \<Rightarrow> ApiSequence \<Rightarrow> bool \<Rightarrow> bool run" where
  "is_sequence_ended g s support_generic =
     (if seq_functions s = [] then Some False
      else case func (last (seq_functions s)) of
        (BareFunction, i) \<Rightarrow>
          do { f \<leftarrow> index_m (api_functions g) i;
               is_end_function (graph_cache g) (full_name_map g) support_generic f }
      | (GenericFunction, _) \<Rightarrow> None)"

section \<open>Appending a call\<close>

text \<open>The variables of \<open>is_fun_satisfied\<close> that its loops change.\<close>

record SatState =
  new_sequence :: ApiSequence
  api_call :: ApiCall
  moved_indexes :: "nat set"
  multi_mut :: "nat set"
  immutable_borrow :: "nat set"

text \<open>A fuzzable parameter; the inner \<open>None\<close> is the \<open>return None\<close> of the source.\<close>

definition satisfy_fuzzable ::
  "ApiGraph \<Rightarrow> ApiFunction \<Rightarrow> Type \<Rightarrow> SatState \<Rightarrow> SatState option run" where
  "satisfy_fuzzable g f ty st =
     do { fct \<leftarrow> fuzzable_call_type (graph_cache g) (full_name_map g)
                  (Some (generic_substitutions f)) ty;
          let s = new_sequence st;
          let i = length (fuzzable_params s);
          let (ft, ct) = generate_fuzzable_type_and_call_type fct;
          Some (if ft = FT_NoFuzzable then None
            else
              let s1 = (if need_mut_tag ct then insert_fuzzable_mut_tag s i else s);
                  s2 = s1\<lparr>fuzzable_params := fuzzable_params s1 @ [ft]\<rparr>
              in Some (st\<lparr>new_sequence := s2,
                         api_call := add_param (api_call st) FuzzableParam i ct\<rparr>)) }"

text \<open>The results that borrow from result \<open>k\<close> are unusable once \<open>k\<close> is moved or mutably borrowed.\<close>

definition invalidate_borrowers :: "SatState \<Rightarrow> nat \<Rightarrow> nat set" where
  "invalidate_borrowers st k =
     (case careful_pairs (new_sequence st) k of
        None \<Rightarrow> moved_indexes st
      | Some movables \<Rightarrow> moved_indexes st \<union> set movables)"

definition record_borrower :: "ApiSequence \<Rightarrow> nat \<Rightarrow> ApiSequence" where
  "record_borrower s k =
     s\<lparr>careful_pairs := (careful_pairs s)(k \<mapsto>
         (case careful_pairs s k of Some v \<Rightarrow> v @ [seq_len s] | None \<Rightarrow> [seq_len s]))\<rparr>"

text \<open>When the new call returns a shared reference and borrows a result that is none, the new result
  keeps that one borrowed.\<close>

definition note_borrower ::
  "ApiGraph \<Rightarrow> nat \<Rightarrow> nat \<Rightarrow> nat \<Rightarrow> ApiSequence \<Rightarrow> ApiSequence run" where
  "note_borrower g fi k index s =
     do { f \<leftarrow> index_m (api_functions g) fi;
          case output_type f of
            None \<Rightarrow> Some s
          | Some out \<Rightarrow>
              if is_immutable_borrow_type out then
                do { producer \<leftarrow> index_m (api_functions g) index;
                     pout \<leftarrow> output_type producer;
                     Some (if \<not> is_immutable_borrow_type pout then record_borrower s k else s) }
              else Some s }"

text \<open>The three checks on how the parameter uses result \<open>k\<close> of a call of function \<open>index\<close>. \<open>None\<close>
  inside is the \<open>dependency_flag = false; continue\<close> of the source.\<close>

definition borrow_check ::
  "ApiGraph \<Rightarrow> nat \<Rightarrow> Type \<Rightarrow> CallType \<Rightarrow> nat \<Rightarrow> nat \<Rightarrow> SatState \<Rightarrow> SatState option run" where
  "borrow_check g fi ty ct k index st =
     (if move_condition ty ct then
        Some (if k \<in> multi_mut st \<or> k \<in> immutable_borrow st then None
              else Some (st\<lparr>moved_indexes := insert k (invalidate_borrowers st k)\<rparr>))
      else if is_mutable_borrow_occurs ty ct then
        Some (if k \<in> multi_mut st \<or> k \<in> immutable_borrow st then None
              else Some (st\<lparr>moved_indexes := invalidate_borrowers st k,
                            multi_mut := insert k (multi_mut st)\<rparr>))
      else if is_immutable_borrow_occurs ty ct then
        (if k \<in> multi_mut st then Some None
         else
           do { s' \<leftarrow> note_borrower g fi k index (new_sequence st);
                Some (Some (st\<lparr>new_sequence := s',
                               immutable_borrow := insert k (immutable_borrow st)\<rparr>)) })
      else Some (Some st))"

text \<open>The tail of the loop body: marks, and the parameter itself.\<close>

definition use_result :: "CallType \<Rightarrow> nat \<Rightarrow> SatState \<Rightarrow> SatState" where
  "use_result ct k st =
     (let s = new_sequence st;
          s1 = (if need_mut_tag ct then insert_function_mut_tag s k else s);
          s2 = (if is_unsafe (unsafe_call_type ct) then set_unsafe s1 else s1)
      in st\<lparr>new_sequence := s2, api_call := add_param (api_call st) FunctionReturn k ct\<rparr>)"

text \<open>The loop \<open>for function_index in 0..functions_in_sequence_len\<close> over the positions still to try. The inner \<open>None\<close> is a loop that ends without a dependency.\<close>

fun satisfy_search ::
  "ApiGraph \<Rightarrow> nat \<Rightarrow> nat \<Rightarrow> Type \<Rightarrow> nat list \<Rightarrow> SatState \<Rightarrow> SatState option run" where
  "satisfy_search g fi i ty [] st = Some None"
| "satisfy_search g fi i ty (k # ks) st =
     (if k \<in> moved_indexes st then satisfy_search g fi i ty ks st
      else
        do { found \<leftarrow> index_m (seq_functions (new_sequence st)) k;
             let (api_type, index) = func found;
             case check_dependency g api_type index BareFunction fi i of
               None \<Rightarrow> satisfy_search g fi i ty ks st
             | Some d \<Rightarrow>
                 do { dep \<leftarrow> index_m (api_dependencies g) d;
                      let ct = dep_call_type dep;
                      let st1 = st\<lparr>new_sequence := add_dependency (new_sequence st) d\<rparr>;
                      r \<leftarrow> borrow_check g fi ty ct k index st1;
                      case r of
                        None \<Rightarrow> satisfy_search g fi i ty ks st1
                      | Some st2 \<Rightarrow> Some (Some (use_result ct k st2)) } })"

definition satisfy_param ::
  "ApiGraph \<Rightarrow> nat \<Rightarrow> ApiFunction \<Rightarrow> nat \<Rightarrow> nat \<times> Type \<Rightarrow> SatState \<Rightarrow> SatState option run" where
  "satisfy_param g fi f n ity st = (case ity of (i, ty) \<Rightarrow>
     let ty' = (case substitute_type (generic_substitutions f) ty of Some t \<Rightarrow> t | None \<Rightarrow> ty) in
     do { b \<leftarrow> is_fuzzable_type (graph_cache g) (full_name_map g) (Some (generic_substitutions f)) ty';
          if b then satisfy_fuzzable g f ty' st
          else satisfy_search g fi i ty' [0..<n] st })"

text \<open>The loop over the parameters, which stops at the first one that cannot be provided.\<close>

fun satisfy_params ::
  "ApiGraph \<Rightarrow> nat \<Rightarrow> ApiFunction \<Rightarrow> nat \<Rightarrow> (nat \<times> Type) list \<Rightarrow> SatState \<Rightarrow> SatState option run" where
  "satisfy_params g fi f n [] st = Some (Some st)"
| "satisfy_params g fi f n (p # ps) st =
     do { r \<leftarrow> satisfy_param g fi f n p st;
          case r of None \<Rightarrow> Some None | Some st' \<Rightarrow> satisfy_params g fi f n ps st' }"

definition is_fun_satisfied :: "ApiGraph \<Rightarrow> ApiType \<Rightarrow> nat \<Rightarrow> ApiSequence \<Rightarrow> ApiSequence option run" where
  "is_fun_satisfied g ftype fi s =
     (case ftype of
        GenericFunction \<Rightarrow> Some None
      | BareFunction \<Rightarrow>
          do { f \<leftarrow> index_m (api_functions g) fi;
               let s1 = (if is_unsafe (unsafe_tag f) then set_unsafe s else s);
               let s2 = (case trait_full_path f of Some t \<Rightarrow> add_trait s1 t | None \<Rightarrow> s1);
               if inputs f = [] then Some (Some (add_fn s2 (ApiCall_new fi)))
               else
                 do { r \<leftarrow> satisfy_params g fi f (length (seq_functions s)) (enumerate 0 (inputs f))
                        \<lparr>new_sequence = s2, api_call = ApiCall_new fi, moved_indexes = moved s2,
                         multi_mut = {}, immutable_borrow = {}\<rparr>;
                      Some (case r of
                        None \<Rightarrow> None
                      | Some st \<Rightarrow>
                          let s3 = (add_fn (new_sequence st) (api_call st))\<lparr>moved := moved_indexes st\<rparr>
                          in if contains_multi_dynamic_length_fuzzable s3 then None else Some s3) } })"

end
