(* ===== verification/Graph_Safety.thy ===== *)
theory Graph_Safety
  imports Api_Graph
begin

text \<open>
  What \<open>is_fun_satisfied\<close> guarantees. The specification is stated on the list of calls: every
  parameter of a call is provided, every result it takes comes from an earlier call along an edge
  of the graph, a result that a call moves is not used by a later call, and within one call the
  tracked uses of a result are compatible. \<open>seq_safe\<close> puts these together and is kept by
  \<open>is_fun_satisfied\<close> and by merging.
\<close>

section \<open>Specification\<close>

text \<open>The type against which a parameter is checked.\<close>

definition actual_type :: "ApiFunction \<Rightarrow> nat \<Rightarrow> Type" where
  "actual_type f i = (case substitute_type (generic_substitutions f) (inputs f ! i) of
     Some t \<Rightarrow> t | None \<Rightarrow> inputs f ! i)"

definition edge :: "ApiGraph \<Rightarrow> ApiType \<times> nat \<Rightarrow> ApiType \<times> nat \<Rightarrow> nat \<Rightarrow> CallType \<Rightarrow> bool" where
  "edge g out inp i ct \<longleftrightarrow> \<lparr>output_fun = out, input_fun = inp, input_param_index = i,
     dep_call_type = ct\<rparr> \<in> set (api_dependencies g)"

datatype use_kind = Moves | Mutably_borrows | Shares | Untracked

definition kind_of :: "Type \<Rightarrow> CallType \<Rightarrow> use_kind" where
  "kind_of ty ct = (if move_condition ty ct then Moves
     else if is_mutable_borrow_occurs ty ct then Mutably_borrows
     else if is_immutable_borrow_occurs ty ct then Shares else Untracked)"

text \<open>An earlier and a later use of one result in the same call.\<close>

fun compatible_uses :: "use_kind \<Rightarrow> use_kind \<Rightarrow> bool" where
  "compatible_uses Moves _ = False"
| "compatible_uses Mutably_borrows u = (u = Untracked)"
| "compatible_uses Shares u = (u = Shares \<or> u = Untracked)"
| "compatible_uses Untracked _ = True"

text \<open>Parameter \<open>i\<close> of a call takes result \<open>k\<close> by \<open>ct\<close>.\<close>

definition takes :: "ApiCall \<Rightarrow> nat \<Rightarrow> nat \<Rightarrow> CallType \<Rightarrow> bool" where
  "takes call i k ct \<longleftrightarrow> i < length (params call) \<and> params call ! i = (FunctionReturn, k, ct)"

definition call_fun :: "ApiGraph \<Rightarrow> ApiCall \<Rightarrow> ApiFunction" where
  "call_fun g call = api_functions g ! snd (func call)"

definition call_kind :: "ApiGraph \<Rightarrow> ApiCall \<Rightarrow> nat \<Rightarrow> CallType \<Rightarrow> use_kind" where
  "call_kind g call i ct = kind_of (actual_type (call_fun g call) i) ct"

text \<open>One call after the calls \<open>calls\<close>: all its parameters are there, the results it takes exist and
  have an edge to it, and its uses of one result are compatible.\<close>

definition call_ok :: "ApiGraph \<Rightarrow> ApiCall list \<Rightarrow> ApiCall \<Rightarrow> bool" where
  "call_ok g calls call \<longleftrightarrow>
     fst (func call) = BareFunction \<and> snd (func call) < length (api_functions g) \<and>
     length (params call) = length (inputs (call_fun g call)) \<and>
     (\<forall>i k ct. takes call i k ct \<longrightarrow> k < length calls \<and> edge g (func (calls ! k)) (func call) i ct) \<and>
     (\<forall>i j k ct ct'. i < j \<longrightarrow> takes call i k ct \<longrightarrow> takes call j k ct' \<longrightarrow>
        compatible_uses (call_kind g call i ct) (call_kind g call j ct'))"

definition moves_result :: "ApiGraph \<Rightarrow> ApiCall \<Rightarrow> nat \<Rightarrow> bool" where
  "moves_result g call k \<longleftrightarrow> (\<exists>i ct. takes call i k ct \<and> call_kind g call i ct = Moves)"

definition calls_ok :: "ApiGraph \<Rightarrow> ApiCall list \<Rightarrow> bool" where
  "calls_ok g calls \<longleftrightarrow> (\<forall>b < length calls. call_ok g (take b calls) (calls ! b))"

definition no_use_after_move :: "ApiGraph \<Rightarrow> ApiCall list \<Rightarrow> bool" where
  "no_use_after_move g calls \<longleftrightarrow> (\<forall>a b k. a < b \<longrightarrow> b < length calls \<longrightarrow>
     moves_result g (calls ! a) k \<longrightarrow> \<not> uses_result k (calls ! b))"

definition moves_recorded :: "ApiGraph \<Rightarrow> ApiCall list \<Rightarrow> nat set \<Rightarrow> bool" where
  "moves_recorded g calls m \<longleftrightarrow> (\<forall>a < length calls. \<forall>k. moves_result g (calls ! a) k \<longrightarrow> k \<in> m)"

definition seq_safe :: "ApiGraph \<Rightarrow> ApiSequence \<Rightarrow> bool" where
  "seq_safe g s \<longleftrightarrow> seq_wf s \<and> calls_ok g (seq_functions s) \<and> no_use_after_move g (seq_functions s)
     \<and> moves_recorded g (seq_functions s) (moved s)"

section \<open>Uses\<close>

lemma uses_result_takes: "uses_result k call \<longleftrightarrow> (\<exists>i ct. takes call i k ct)"
  by (fastforce simp: uses_result_def takes_def list_ex_iff in_set_conv_nth)

lemma takes_lt: "takes call i k ct \<Longrightarrow> i < length (params call)"
  by (simp add: takes_def)

lemma takes_add_param:
  "takes (add_param call pt k' ct') i k ct \<longleftrightarrow>
     takes call i k ct \<or> (i = length (params call) \<and> pt = FunctionReturn \<and> k = k' \<and> ct = ct')"
  by (auto simp: takes_def add_param_def nth_append)

lemma func_add_param [simp]: "func (add_param call pt k ct) = func call"
  by (simp add: add_param_def)

lemma length_add_param [simp]:
  "length (params (add_param call pt k ct)) = Suc (length (params call))"
  by (simp add: add_param_def)

lemma call_kind_add_param [simp]:
  "call_kind g (add_param call pt k ct) = call_kind g call"
  by (simp add: call_kind_def call_fun_def fun_eq_iff)

lemma check_dependency_edge:
  assumes "check_dependency g ot oi it ii k = Some d"
  shows "d < length (api_dependencies g)"
    and "edge g (ot, oi) (it, ii) k (dep_call_type (api_dependencies g ! d))"
  using find_index_Some [OF assms [unfolded check_dependency_def]]
  by (auto simp: edge_def)

section \<open>The invariant of the parameter loop\<close>

text \<open>After the parameters before \<open>j\<close> of a call of function \<open>fi\<close> appended to the sequence \<open>s\<close>.\<close>

definition sat_shape :: "nat \<Rightarrow> ApiSequence \<Rightarrow> nat \<Rightarrow> SatState \<Rightarrow> bool" where
  "sat_shape fi s j st \<longleftrightarrow>
     seq_functions (new_sequence st) = seq_functions s \<and>
     func (api_call st) = (BareFunction, fi) \<and> length (params (api_call st)) = j \<and>
     moved s \<subseteq> moved_indexes st"

definition sat_range :: "ApiSequence \<Rightarrow> SatState \<Rightarrow> bool" where
  "sat_range s st \<longleftrightarrow>
     length (fuzzable_params s) \<le> length (fuzzable_params (new_sequence st)) \<and>
     list_all (param_wf (seq_len s) (length (fuzzable_params (new_sequence st)))) (params (api_call st)) \<and>
     fuzzable_mut_tag (new_sequence st) \<subseteq> {..<length (fuzzable_params (new_sequence st))} \<and>
     function_mut_tag (new_sequence st) \<subseteq> {..<seq_len s} \<and>
     moved_indexes st \<subseteq> {..seq_len s} \<and>
     careful_wf (Suc (seq_len s)) (careful_pairs (new_sequence st))"

definition sat_uses :: "ApiGraph \<Rightarrow> ApiSequence \<Rightarrow> SatState \<Rightarrow> bool" where
  "sat_uses g s st \<longleftrightarrow>
     (\<forall>i k ct. takes (api_call st) i k ct \<longrightarrow>
        k < seq_len s \<and> k \<notin> moved s \<and>
        edge g (func (seq_functions s ! k)) (func (api_call st)) i ct \<and>
        (call_kind g (api_call st) i ct = Moves \<longrightarrow> k \<in> moved_indexes st) \<and>
        (call_kind g (api_call st) i ct = Mutably_borrows \<longrightarrow> k \<in> multi_mut st) \<and>
        (call_kind g (api_call st) i ct = Shares \<longrightarrow> k \<in> immutable_borrow st)) \<and>
     (\<forall>i j k ct ct'. i < j \<longrightarrow> takes (api_call st) i k ct \<longrightarrow> takes (api_call st) j k ct' \<longrightarrow>
        compatible_uses (call_kind g (api_call st) i ct) (call_kind g (api_call st) j ct'))"

definition sat_inv :: "ApiGraph \<Rightarrow> nat \<Rightarrow> ApiSequence \<Rightarrow> nat \<Rightarrow> SatState \<Rightarrow> bool" where
  "sat_inv g fi s j st \<longleftrightarrow> sat_shape fi s j st \<and> sat_range s st \<and> sat_uses g s st"

lemmas sat_defs = sat_shape_def sat_range_def sat_uses_def

lemma sequence_ops_fields [simp]:
  "seq_functions (add_dependency s d) = seq_functions s"
  "fuzzable_params (add_dependency s d) = fuzzable_params s"
  "fuzzable_mut_tag (add_dependency s d) = fuzzable_mut_tag s"
  "function_mut_tag (add_dependency s d) = function_mut_tag s"
  "careful_pairs (add_dependency s d) = careful_pairs s"
  "seq_functions (insert_function_mut_tag s k) = seq_functions s"
  "fuzzable_params (insert_function_mut_tag s k) = fuzzable_params s"
  "fuzzable_mut_tag (insert_function_mut_tag s k) = fuzzable_mut_tag s"
  "function_mut_tag (insert_function_mut_tag s k) = insert k (function_mut_tag s)"
  "careful_pairs (insert_function_mut_tag s k) = careful_pairs s"
  "seq_functions (insert_fuzzable_mut_tag s k) = seq_functions s"
  "fuzzable_params (insert_fuzzable_mut_tag s k) = fuzzable_params s"
  "fuzzable_mut_tag (insert_fuzzable_mut_tag s k) = insert k (fuzzable_mut_tag s)"
  "function_mut_tag (insert_fuzzable_mut_tag s k) = function_mut_tag s"
  "careful_pairs (insert_fuzzable_mut_tag s k) = careful_pairs s"
  "seq_functions (set_unsafe s) = seq_functions s"
  "fuzzable_params (set_unsafe s) = fuzzable_params s"
  "fuzzable_mut_tag (set_unsafe s) = fuzzable_mut_tag s"
  "function_mut_tag (set_unsafe s) = function_mut_tag s"
  "careful_pairs (set_unsafe s) = careful_pairs s" "moved (set_unsafe s) = moved s"
  "seq_functions (add_trait s t) = seq_functions s"
  "fuzzable_params (add_trait s t) = fuzzable_params s"
  "fuzzable_mut_tag (add_trait s t) = fuzzable_mut_tag s"
  "function_mut_tag (add_trait s t) = function_mut_tag s"
  "careful_pairs (add_trait s t) = careful_pairs s" "moved (add_trait s t) = moved s"
  by (simp_all add: add_dependency_def insert_function_mut_tag_def insert_fuzzable_mut_tag_def
      set_unsafe_def add_trait_def)

lemma add_dependency_inv:
  "sat_inv g fi s j st \<Longrightarrow> sat_inv g fi s j (st\<lparr>new_sequence := add_dependency (new_sequence st) d\<rparr>)"
  by (auto simp: sat_inv_def sat_defs)

lemma satisfy_fuzzable_cases:
  assumes "satisfy_fuzzable g f ty st = Some (Some st')"
  obtains fct ft ct where "fuzzable_call_type (graph_cache g) (full_name_map g)
      (Some (generic_substitutions f)) ty = Some fct"
    and "generate_fuzzable_type_and_call_type fct = (ft, ct)" and "ft \<noteq> FT_NoFuzzable"
    and "st' = st\<lparr>
      new_sequence := (if need_mut_tag ct
          then insert_fuzzable_mut_tag (new_sequence st) (length (fuzzable_params (new_sequence st)))
          else new_sequence st)\<lparr>fuzzable_params := fuzzable_params (new_sequence st) @ [ft]\<rparr>,
      api_call := add_param (api_call st) FuzzableParam (length (fuzzable_params (new_sequence st))) ct\<rparr>"
proof -
  from assms obtain fct where fct: "fuzzable_call_type (graph_cache g) (full_name_map g)
      (Some (generic_substitutions f)) ty = Some fct"
    by (auto simp: satisfy_fuzzable_def bind_eq_Some_conv)
  obtain ft ct where gen: "generate_fuzzable_type_and_call_type fct = (ft, ct)" by (rule prod.exhaust)
  show ?thesis
    using assms fct gen by (intro that [OF fct gen]) (auto simp: satisfy_fuzzable_def Let_def split: if_splits)
qed

lemma satisfy_fuzzable_inv:
  assumes "sat_inv g fi s j st" and "satisfy_fuzzable g f ty st = Some (Some st')"
  shows "sat_inv g fi s (Suc j) st'"
  using assms(2)
proof (cases rule: satisfy_fuzzable_cases)
  case (1 fct ft ct)
  note st' = 1(4)
  have "sat_shape fi s (Suc j) st'" using assms(1) by (auto simp: sat_inv_def sat_shape_def st')
  moreover have "sat_uses g s st'" using assms(1)
    by (auto simp: sat_inv_def sat_uses_def st' takes_add_param)
  moreover have "sat_range s st'" using assms(1)
    by (fastforce simp: sat_inv_def sat_range_def st' add_param_def list_all_iff param_wf_def
        split: ParamType.splits)
  ultimately show ?thesis by (simp add: sat_inv_def)
qed

section \<open>Taking a result\<close>

lemma note_borrower_cases:
  "note_borrower g fi k index s = Some s' \<Longrightarrow> s' = s \<or> s' = record_borrower s k"
  by (auto simp: note_borrower_def bind_eq_Some_conv split: option.splits if_splits)

lemma borrow_check_cases:
  assumes "borrow_check g fi ty ct k index st = Some (Some st')"
  obtains (moves) "kind_of ty ct = Moves" "k \<notin> multi_mut st" "k \<notin> immutable_borrow st"
      "st' = st\<lparr>moved_indexes := insert k (invalidate_borrowers st k)\<rparr>"
  | (mutably) "kind_of ty ct = Mutably_borrows" "k \<notin> multi_mut st" "k \<notin> immutable_borrow st"
      "st' = st\<lparr>moved_indexes := invalidate_borrowers st k, multi_mut := insert k (multi_mut st)\<rparr>"
  | (shares) s' where "kind_of ty ct = Shares" "k \<notin> multi_mut st"
      "s' = new_sequence st \<or> s' = record_borrower (new_sequence st) k"
      "st' = st\<lparr>new_sequence := s', immutable_borrow := insert k (immutable_borrow st)\<rparr>"
  | (untracked) "kind_of ty ct = Untracked" "st' = st"
proof (cases "kind_of ty ct")
  case Moves
  then have "move_condition ty ct" by (auto simp: kind_of_def split: if_splits)
  with assms have "k \<notin> multi_mut st" "k \<notin> immutable_borrow st"
      "st' = st\<lparr>moved_indexes := insert k (invalidate_borrowers st k)\<rparr>"
    by (auto simp: borrow_check_def split: if_splits)
  with Moves show ?thesis by (rule moves)
next
  case Mutably_borrows
  then have "\<not> move_condition ty ct" "is_mutable_borrow_occurs ty ct"
    by (auto simp: kind_of_def split: if_splits)
  with assms have "k \<notin> multi_mut st" "k \<notin> immutable_borrow st"
      "st' = st\<lparr>moved_indexes := invalidate_borrowers st k, multi_mut := insert k (multi_mut st)\<rparr>"
    by (auto simp: borrow_check_def split: if_splits)
  with Mutably_borrows show ?thesis by (rule mutably)
next
  case Shares
  then have "\<not> move_condition ty ct" "\<not> is_mutable_borrow_occurs ty ct" "is_immutable_borrow_occurs ty ct"
    by (auto simp: kind_of_def split: if_splits)
  with assms obtain s' where "k \<notin> multi_mut st"
      "note_borrower g fi k index (new_sequence st) = Some s'"
      "st' = st\<lparr>new_sequence := s', immutable_borrow := insert k (immutable_borrow st)\<rparr>"
    by (auto simp: borrow_check_def bind_eq_Some_conv split: if_splits)
  with Shares show ?thesis by (intro shares [of s'] note_borrower_cases)
next
  case Untracked
  then have "\<not> move_condition ty ct" "\<not> is_mutable_borrow_occurs ty ct"
      "\<not> is_immutable_borrow_occurs ty ct"
    by (auto simp: kind_of_def split: if_splits)
  with assms have "st' = st" by (simp add: borrow_check_def)
  with Untracked show ?thesis by (rule untracked)
qed

lemma invalidate_range:
  assumes "sat_range s st"
  shows "invalidate_borrowers st k \<subseteq> {..seq_len s}" and "moved_indexes st \<subseteq> invalidate_borrowers st k"
  using assms
  by (auto simp: sat_range_def invalidate_borrowers_def careful_wf_def less_Suc_eq_le split: option.splits)

lemma record_borrower_fields [simp]:
  "seq_functions (record_borrower s k) = seq_functions s"
  "fuzzable_params (record_borrower s k) = fuzzable_params s"
  "fuzzable_mut_tag (record_borrower s k) = fuzzable_mut_tag s"
  "function_mut_tag (record_borrower s k) = function_mut_tag s"
  by (simp_all add: record_borrower_def)

lemma record_borrower_careful:
  assumes "careful_wf (Suc n) (careful_pairs s)" and "k < n" and "seq_len s = n"
  shows "careful_wf (Suc n) (careful_pairs (record_borrower s k))"
proof -
  have "\<forall>x \<in> set v. x < Suc n" if "careful_pairs s k = Some v" for v
    using assms(1) that by (simp add: careful_wf_def)
  with assms show ?thesis
    by (auto simp: record_borrower_def careful_wf_def split: option.splits)
qed

text \<open>A checked use leaves the invariant true and keeps what the earlier uses rely on.\<close>

lemma borrow_check_inv:
  assumes inv: "sat_inv g fi s j st" and k: "k < seq_len s"
    and chk: "borrow_check g fi ty ct k index st = Some (Some st')"
  shows "sat_inv g fi s j st' \<and> api_call st' = api_call st"
proof -
  have range: "invalidate_borrowers st k \<subseteq> {..seq_len s}" "moved_indexes st \<subseteq> invalidate_borrowers st k"
    using inv invalidate_range [of s st k] by (simp_all add: sat_inv_def)
  from chk show ?thesis
  proof (cases rule: borrow_check_cases)
  case moves
  then show ?thesis
    using inv range subsetD [OF range(2)] k by (auto simp: sat_inv_def sat_defs)
next
  case mutably
  then show ?thesis
    using inv range subsetD [OF range(2)] by (auto simp: sat_inv_def sat_defs)
next
  case (shares s')
  have "seq_len (new_sequence st) = seq_len s"
    using inv by (simp add: sat_inv_def sat_shape_def seq_len_def)
  then have "careful_wf (Suc (seq_len s)) (careful_pairs s')"
    using shares(3) inv record_borrower_careful k by (auto simp: sat_inv_def sat_range_def)
  moreover have "seq_functions s' = seq_functions (new_sequence st)"
    "fuzzable_params s' = fuzzable_params (new_sequence st)"
    "fuzzable_mut_tag s' = fuzzable_mut_tag (new_sequence st)"
    "function_mut_tag s' = function_mut_tag (new_sequence st)" using shares(3) by auto
  ultimately show ?thesis
    using inv shares(4) by (auto simp: sat_inv_def sat_defs)
next
  case untracked
  with inv show ?thesis by simp
  qed
qed

lemma borrow_check_marks:
  assumes "borrow_check g fi ty ct k index st = Some (Some st')"
  shows "kind_of ty ct = Moves \<Longrightarrow> k \<in> moved_indexes st'"
    and "kind_of ty ct = Mutably_borrows \<Longrightarrow> k \<in> multi_mut st'"
    and "kind_of ty ct = Shares \<Longrightarrow> k \<in> immutable_borrow st'"
  using assms by (cases rule: borrow_check_cases; simp)+

lemma borrow_check_compatible:
  assumes chk: "borrow_check g fi ty ct k index st = Some (Some st')"
    and uses: "sat_uses g s st" and "k \<notin> moved_indexes st" and "takes (api_call st) i k ct'"
  shows "compatible_uses (call_kind g (api_call st) i ct') (kind_of ty ct)"
proof -
  from uses assms(4)
  have m: "call_kind g (api_call st) i ct' = Moves \<longrightarrow> k \<in> moved_indexes st"
    "call_kind g (api_call st) i ct' = Mutably_borrows \<longrightarrow> k \<in> multi_mut st"
    "call_kind g (api_call st) i ct' = Shares \<longrightarrow> k \<in> immutable_borrow st"
    by (auto simp: sat_uses_def)
  from chk show ?thesis
    by (cases rule: borrow_check_cases; cases "call_kind g (api_call st) i ct'")
      (use m assms(3) in auto)
qed

lemma use_result_inv:
  assumes inv: "sat_inv g fi s j st" and k: "k < seq_len s" "k \<notin> moved s"
    and e: "edge g (func (seq_functions s ! k)) (BareFunction, fi) j ct"
    and marks: "call_kind g (api_call st) j ct = Moves \<Longrightarrow> k \<in> moved_indexes st"
      "call_kind g (api_call st) j ct = Mutably_borrows \<Longrightarrow> k \<in> multi_mut st"
      "call_kind g (api_call st) j ct = Shares \<Longrightarrow> k \<in> immutable_borrow st"
    and comp: "\<And>i ct'. takes (api_call st) i k ct' \<Longrightarrow>
      compatible_uses (call_kind g (api_call st) i ct') (call_kind g (api_call st) j ct)"
  shows "sat_inv g fi s (Suc j) (use_result ct k st)"
proof -
  define s' where "s' = new_sequence (use_result ct k st)"
  have fields: "seq_functions s' = seq_functions (new_sequence st)"
    "fuzzable_params s' = fuzzable_params (new_sequence st)"
    "fuzzable_mut_tag s' = fuzzable_mut_tag (new_sequence st)"
    "function_mut_tag s' \<subseteq> insert k (function_mut_tag (new_sequence st))"
    "careful_pairs s' = careful_pairs (new_sequence st)"
    by (auto simp: s'_def use_result_def Let_def)
  have st': "use_result ct k st = st\<lparr>new_sequence := s',
      api_call := add_param (api_call st) FunctionReturn k ct\<rparr>"
    by (simp add: s'_def use_result_def Let_def)
  have len: "length (params (api_call st)) = j" using inv by (simp add: sat_inv_def sat_shape_def)
  have "sat_shape fi s (Suc j) (use_result ct k st)"
    using inv fields by (simp add: sat_inv_def sat_shape_def st')
  moreover have "sat_range s (use_result ct k st)"
    using inv fields k by (auto simp: sat_inv_def sat_range_def st' add_param_def param_wf_def)
  moreover have "sat_uses g s (use_result ct k st)"
    unfolding sat_uses_def st'
  proof (simp, intro conjI allI impI)
    fix i k' ct'
    assume t: "takes (add_param (api_call st) FunctionReturn k ct) i k' ct'"
    then consider "takes (api_call st) i k' ct'" | "i = j" "k' = k" "ct' = ct"
      using len by (auto simp: takes_add_param)
    note c = this
    show "k' < seq_len s" using c inv k by cases (auto simp: sat_inv_def sat_uses_def)
    show "k' \<notin> moved s" using c inv k by cases (auto simp: sat_inv_def sat_uses_def)
    show "edge g (func (seq_functions s ! k')) (func (api_call st)) i ct'"
      using c inv e by cases (auto simp: sat_inv_def sat_defs)
    show "k' \<in> moved_indexes st" if "call_kind g (api_call st) i ct' = Moves"
      using c inv marks that by cases (auto simp: sat_inv_def sat_uses_def)
    show "k' \<in> multi_mut st" if "call_kind g (api_call st) i ct' = Mutably_borrows"
      using c inv marks that by cases (auto simp: sat_inv_def sat_uses_def)
    show "k' \<in> immutable_borrow st" if "call_kind g (api_call st) i ct' = Shares"
      using c inv marks that by cases (auto simp: sat_inv_def sat_uses_def)
  next
    fix i i' k' ct' ct''
    assume "i < i'" "takes (add_param (api_call st) FunctionReturn k ct) i k' ct'"
      "takes (add_param (api_call st) FunctionReturn k ct) i' k' ct''"
    then show "compatible_uses (call_kind g (api_call st) i ct') (call_kind g (api_call st) i' ct'')"
      using inv comp len by (auto simp: sat_inv_def sat_uses_def takes_add_param dest: takes_lt)
  qed
  ultimately show ?thesis by (simp add: sat_inv_def)
qed

section \<open>The loops\<close>

text \<open>A result that has passed the borrow check and is used as parameter \<open>i\<close>.\<close>

lemma satisfy_use_inv:
  assumes inv: "sat_inv g fi s i st" and k: "k < seq_len s" and "k \<notin> moved_indexes st" and "k \<notin> moved s"
    and fn: "func (api_call st) = (BareFunction, fi)" and ty: "ty = actual_type (api_functions g ! fi) i"
    and edge: "edge g (func (seq_functions s ! k)) (BareFunction, fi) i ct"
    and chk: "borrow_check g fi ty ct k index st = Some (Some st2)"
  shows "sat_inv g fi s (Suc i) (use_result ct k st2)"
proof -
  have inv2: "sat_inv g fi s i st2" "api_call st2 = api_call st"
    using borrow_check_inv [OF inv k chk] by simp_all
  have kind: "call_kind g (api_call st2) i ct = kind_of ty ct"
    using inv2(2) fn ty by (simp add: call_kind_def call_fun_def)
  show ?thesis
  proof (rule use_result_inv [OF inv2(1) k assms(4) edge])
    show "compatible_uses (call_kind g (api_call st2) i' ct') (call_kind g (api_call st2) i ct)"
      if "takes (api_call st2) i' k ct'" for i' ct'
      using borrow_check_compatible [OF chk, of s i' ct'] inv assms(3) that kind inv2(2)
      by (simp add: sat_inv_def)
  qed (use borrow_check_marks [OF chk] kind in auto)
qed

lemma satisfy_search_inv:
  assumes "satisfy_search g fi i ty ks st = Some (Some st')"
    and "sat_inv g fi s i st" and "set ks \<subseteq> {..<seq_len s}"
    and "fi < length (api_functions g)" and "ty = actual_type (api_functions g ! fi) i"
  shows "sat_inv g fi s (Suc i) st'"
  using assms
proof (induction ks arbitrary: st)
  case (Cons k ks)
  let ?call = "seq_functions s ! k"
  have same: "seq_functions (new_sequence st) = seq_functions s" and fn: "func (api_call st) = (BareFunction, fi)"
    and km: "k \<notin> moved_indexes st \<Longrightarrow> k \<notin> moved s"
    using Cons.prems(2) by (auto simp: sat_inv_def sat_shape_def)
  have k: "k < seq_len s" using Cons.prems(3) by simp
  obtain t index where f: "func ?call = (t, index)" by (rule prod.exhaust)
  consider "k \<in> moved_indexes st" | "k \<notin> moved_indexes st" "check_dependency g t index BareFunction fi i = None"
    | d where "k \<notin> moved_indexes st" "check_dependency g t index BareFunction fi i = Some d" by blast
  then show ?case
  proof cases
    case 1
    with Cons show ?thesis by simp
  next
    case 2
    with Cons f same k show ?thesis by (simp add: seq_len_def)
  next
    case (3 d)
    note e = check_dependency_edge [OF 3(2)]
    define ct where "ct = dep_call_type (api_dependencies g ! d)"
    define st1 where "st1 = st\<lparr>new_sequence := add_dependency (new_sequence st) d\<rparr>"
    have inv1: "sat_inv g fi s i st1" unfolding st1_def by (rule add_dependency_inv [OF Cons.prems(2)])
    have step: "do { r \<leftarrow> borrow_check g fi ty ct k index st1;
        case r of None \<Rightarrow> satisfy_search g fi i ty ks st1
                | Some st2 \<Rightarrow> Some (Some (use_result ct k st2)) } = Some (Some st')"
      using Cons.prems(1) 3 f same k e(1) unfolding ct_def st1_def by (simp add: seq_len_def Let_def)
    then obtain r where r: "borrow_check g fi ty ct k index st1 = Some r" by (auto simp: bind_eq_Some_conv)
    show ?thesis
    proof (cases r)
      case None
      with step r Cons.IH [OF _ inv1] Cons.prems show ?thesis by simp
    next
      case (Some st2)
      have "sat_inv g fi s (Suc i) (use_result ct k st2)"
        using 3(1) km fn Cons.prems(5) e(2) f r Some
        by (intro satisfy_use_inv [OF inv1 k]) (simp_all add: st1_def ct_def)
      with step r Some show ?thesis by simp
    qed
  qed
qed simp

lemma satisfy_param_inv:
  assumes "satisfy_param g fi f (seq_len s) (i, inputs f ! i) st = Some (Some st')"
    and "sat_inv g fi s i st" and "fi < length (api_functions g)" and "f = api_functions g ! fi"
  shows "sat_inv g fi s (Suc i) st'"
proof -
  have ty: "(case substitute_type (generic_substitutions f) (inputs f ! i) of
      None \<Rightarrow> inputs f ! i | Some t \<Rightarrow> t) = actual_type f i" by (simp add: actual_type_def)
  from assms(1) obtain b where "is_fuzzable_type (graph_cache g) (full_name_map g)
      (Some (generic_substitutions f)) (actual_type f i) = Some b"
    by (auto simp: satisfy_param_def ty Let_def bind_eq_Some_conv)
  with assms(1) have run: "(if b then satisfy_fuzzable g f (actual_type f i) st
        else satisfy_search g fi i (actual_type f i) [0..<seq_len s] st) = Some (Some st')"
    by (cases b) (simp_all add: satisfy_param_def ty Let_def)
  show ?thesis
  proof (cases b)
    case True
    with run satisfy_fuzzable_inv [OF assms(2)] show ?thesis by simp
  next
    case False
    with run have "satisfy_search g fi i (actual_type f i) [0..<seq_len s] st = Some (Some st')" by simp
    then show ?thesis
      by (rule satisfy_search_inv [OF _ assms(2) _ assms(3)]) (auto simp: assms(4))
  qed
qed

lemma satisfy_params_inv:
  assumes "satisfy_params g fi f (seq_len s) (enumerate i (drop i (inputs f))) st = Some (Some st')"
    and "sat_inv g fi s i st" and "fi < length (api_functions g)" and "f = api_functions g ! fi"
    and "i \<le> length (inputs f)"
  shows "sat_inv g fi s (length (inputs f)) st'"
  using assms
proof (induction "length (inputs f) - i" arbitrary: i st)
  case 0
  then show ?case by simp
next
  case (Suc n)
  then have i: "i < length (inputs f)" by simp
  then have "enumerate i (drop i (inputs f)) =
      (i, inputs f ! i) # enumerate (Suc i) (drop (Suc i) (inputs f))"
    by (simp add: Cons_nth_drop_Suc [symmetric])
  with Suc.prems(1) obtain st1 where s1: "satisfy_param g fi f (seq_len s) (i, inputs f ! i) st = Some (Some st1)"
      "satisfy_params g fi f (seq_len s) (enumerate (Suc i) (drop (Suc i) (inputs f))) st1 = Some (Some st')"
    by (auto simp: bind_eq_Some_conv split: option.splits)
  from satisfy_param_inv [OF s1(1) Suc.prems(2-4)] have "sat_inv g fi s (Suc i) st1" .
  with Suc.hyps(1) [of "Suc i" st1] Suc.hyps(2) s1(2) Suc.prems i show ?case by simp
qed

section \<open>Appending keeps a sequence safe\<close>

lemma calls_ok_snoc: "calls_ok g (calls @ [call]) \<longleftrightarrow> calls_ok g calls \<and> call_ok g calls call"
  by (auto simp: calls_ok_def nth_append less_Suc_eq)

lemma no_use_after_move_snoc:
  "no_use_after_move g (calls @ [call]) \<longleftrightarrow> no_use_after_move g calls \<and>
     (\<forall>a < length calls. \<forall>k. moves_result g (calls ! a) k \<longrightarrow> \<not> uses_result k call)"
  by (auto simp: no_use_after_move_def nth_append less_Suc_eq)

lemma moves_recorded_snoc:
  "moves_recorded g (calls @ [call]) m \<longleftrightarrow>
     moves_recorded g calls m \<and> (\<forall>k. moves_result g call k \<longrightarrow> k \<in> m)"
  by (auto simp: moves_recorded_def nth_append less_Suc_eq)

lemma moves_recorded_mono: "moves_recorded g calls m \<Longrightarrow> m \<subseteq> m' \<Longrightarrow> moves_recorded g calls m'"
  by (auto simp: moves_recorded_def)

text \<open>From the invariant at the end of the parameter loop to the sequence with the call.\<close>

lemma sat_inv_seq_safe:
  assumes safe: "seq_safe g s" and inv: "sat_inv g fi s (length (inputs (api_functions g ! fi))) st"
    and fi: "fi < length (api_functions g)"
  shows "seq_safe g ((add_fn (new_sequence st) (api_call st))\<lparr>moved := moved_indexes st\<rparr>)"
proof -
  let ?calls = "seq_functions s" and ?call = "api_call st"
  have shape: "seq_functions (new_sequence st) = ?calls" "func ?call = (BareFunction, fi)"
      "length (params ?call) = length (inputs (api_functions g ! fi))" "moved s \<subseteq> moved_indexes st"
    and range: "sat_range s st" and uses: "sat_uses g s st"
    using inv by (simp_all add: sat_inv_def sat_shape_def)
  have "call_ok g ?calls ?call"
    using uses shape fi by (auto simp: call_ok_def sat_uses_def call_fun_def seq_len_def)
  moreover have "\<not> uses_result k ?call" if "moves_result g (?calls ! a) k" "a < length ?calls" for a k
  proof -
    from that safe have "k \<in> moved s" by (auto simp: seq_safe_def moves_recorded_def)
    with uses show ?thesis unfolding sat_uses_def uses_result_takes by blast
  qed
  moreover have "k \<in> moved_indexes st" if "moves_result g ?call k" for k
    using that uses by (auto simp: moves_result_def sat_uses_def)
  moreover have "calls_wf 0 (length (fuzzable_params (new_sequence st))) ?calls"
    using safe range by (auto simp: seq_safe_def seq_wf_def sat_range_def intro: calls_wf_mono)
  moreover have "moves_recorded g ?calls (moved_indexes st)"
    using safe shape(4) by (auto simp: seq_safe_def intro: moves_recorded_mono)
  ultimately show ?thesis
    using safe shape range
    by (auto simp: seq_safe_def seq_wf_def add_fn_def seq_len_def calls_ok_snoc
        no_use_after_move_snoc moves_recorded_snoc sat_range_def lessThan_Suc_atMost)
qed

lemma is_fun_satisfied_cases:
  assumes "is_fun_satisfied g t fi s = Some (Some s')"
  obtains f s2 where "t = BareFunction" "fi < length (api_functions g)" "f = api_functions g ! fi"
      "seq_functions s2 = seq_functions s" "fuzzable_params s2 = fuzzable_params s"
      "fuzzable_mut_tag s2 = fuzzable_mut_tag s" "function_mut_tag s2 = function_mut_tag s"
      "careful_pairs s2 = careful_pairs s" "moved s2 = moved s"
      "inputs f = [] \<and> s' = add_fn s2 (ApiCall_new fi) \<or>
       (\<exists>st. inputs f \<noteq> [] \<and> satisfy_params g fi f (length (seq_functions s)) (enumerate 0 (inputs f))
          \<lparr>new_sequence = s2, api_call = ApiCall_new fi, moved_indexes = moved s2, multi_mut = {},
           immutable_borrow = {}\<rparr> = Some (Some st) \<and>
         s' = (add_fn (new_sequence st) (api_call st))\<lparr>moved := moved_indexes st\<rparr> \<and>
         \<not> contains_multi_dynamic_length_fuzzable s')"
proof -
  have t: "t = BareFunction" using assms by (cases t) (auto simp: is_fun_satisfied_def)
  have fi: "fi < length (api_functions g)"
    using assms t by (auto simp: is_fun_satisfied_def bind_eq_Some_conv)
  let ?f = "api_functions g ! fi"
  let ?s1 = "if is_unsafe (unsafe_tag ?f) then set_unsafe s else s"
  let ?s2 = "case trait_full_path ?f of Some tr \<Rightarrow> add_trait ?s1 tr | None \<Rightarrow> ?s1"
  have fields: "seq_functions ?s2 = seq_functions s" "fuzzable_params ?s2 = fuzzable_params s"
    "fuzzable_mut_tag ?s2 = fuzzable_mut_tag s" "function_mut_tag ?s2 = function_mut_tag s"
    "careful_pairs ?s2 = careful_pairs s" "moved ?s2 = moved s"
    by (simp_all split: option.splits)
  show ?thesis
  proof (rule that [OF t fi refl fields])
    show "inputs ?f = [] \<and> s' = add_fn ?s2 (ApiCall_new fi) \<or>
       (\<exists>st. inputs ?f \<noteq> [] \<and> satisfy_params g fi ?f (length (seq_functions s)) (enumerate 0 (inputs ?f))
          \<lparr>new_sequence = ?s2, api_call = ApiCall_new fi, moved_indexes = moved ?s2, multi_mut = {},
           immutable_borrow = {}\<rparr> = Some (Some st) \<and>
         s' = (add_fn (new_sequence st) (api_call st))\<lparr>moved := moved_indexes st\<rparr> \<and>
         \<not> contains_multi_dynamic_length_fuzzable s')"
    proof (cases "inputs ?f = []")
      case True
      with assms t fi show ?thesis by (simp add: is_fun_satisfied_def Let_def)
    next
      case False
      with assms t fi show ?thesis
        by (auto simp: is_fun_satisfied_def Let_def bind_eq_Some_conv split: option.splits if_splits)
    qed
  qed
qed

lemma sat_inv_start:
  assumes "seq_safe g s"
    and "seq_functions s2 = seq_functions s" "fuzzable_params s2 = fuzzable_params s"
      "fuzzable_mut_tag s2 = fuzzable_mut_tag s" "function_mut_tag s2 = function_mut_tag s"
      "careful_pairs s2 = careful_pairs s" "moved s2 = moved s"
  shows "sat_inv g fi s 0 \<lparr>new_sequence = s2, api_call = ApiCall_new fi, moved_indexes = moved s2,
    multi_mut = {}, immutable_borrow = {}\<rparr>"
  using assms
  by (auto simp: sat_inv_def sat_defs ApiCall_new_def takes_def seq_safe_def seq_wf_def
      intro: careful_wf_mono)

lemma is_fun_satisfied_safe:
  assumes "seq_safe g s" and "is_fun_satisfied g t fi s = Some (Some s')"
  shows "seq_safe g s'"
  using assms(2)
proof (cases rule: is_fun_satisfied_cases)
  case (1 f s2)
  define st0 where "st0 = \<lparr>new_sequence = s2, api_call = ApiCall_new fi, moved_indexes = moved s2,
    multi_mut = {}, immutable_borrow = {}\<rparr>"
  have inv0: "sat_inv g fi s 0 st0"
    unfolding st0_def using assms(1) 1 by (intro sat_inv_start)
  show ?thesis
  proof (cases "inputs f = []")
    case True
    then have "seq_safe g ((add_fn (new_sequence st0) (api_call st0))\<lparr>moved := moved_indexes st0\<rparr>)"
      using inv0 1(2,3) by (intro sat_inv_seq_safe [OF assms(1)]) auto
    moreover have "(add_fn s2 c)\<lparr>moved := moved s2\<rparr> = add_fn s2 c" for c by (simp add: add_fn_def)
    ultimately show ?thesis using True 1(10) by (simp add: st0_def)
  next
    case False
    with 1(10) obtain st where st: "satisfy_params g fi f (seq_len s) (enumerate 0 (drop 0 (inputs f))) st0 = Some (Some st)"
        "s' = (add_fn (new_sequence st) (api_call st))\<lparr>moved := moved_indexes st\<rparr>"
      by (auto simp: st0_def seq_len_def)
    have "sat_inv g fi s (length (inputs f)) st"
      by (rule satisfy_params_inv [OF st(1) inv0 1(2,3)]) simp
    with sat_inv_seq_safe [OF assms(1) _ 1(2)] st(2) 1(3) show ?thesis by simp
  qed
qed

section \<open>Merging keeps sequences safe\<close>

lemma takes_shift:
  "takes (shift_call nf nz call) i k ct \<longleftrightarrow> (\<exists>k'. takes call i k' ct \<and> k = k' + nf)"
proof (cases "i < length (params call)")
  case True
  obtain pt x c where "params call ! i = (pt, x, c)" by (rule prod_cases3)
  with True show ?thesis by (cases pt) (auto simp: takes_def shift_param_def)
qed (simp add: takes_def)

lemma call_kind_shift [simp]: "call_kind g (shift_call nf nz call) = call_kind g call"
  by (simp add: call_kind_def call_fun_def fun_eq_iff)

lemma call_ok_shift:
  assumes "call_ok g (take b ys) call" and "b \<le> length ys"
  shows "call_ok g (xs @ map (shift_call (length xs) nz) (take b ys)) (shift_call (length xs) nz call)"
proof -
  have "k < b \<and> edge g (func (ys ! k)) (func call) i ct" if "takes call i k ct" for i k ct
    using assms that unfolding call_ok_def by (metis length_take min.absorb2 nth_take)
  with assms show ?thesis by (auto simp: call_ok_def takes_shift call_fun_def nth_append)
qed

lemma calls_ok_merge:
  assumes "calls_ok g xs" and "calls_ok g ys"
  shows "calls_ok g (xs @ map (shift_call (length xs) nz) ys)"
  unfolding calls_ok_def
proof (intro allI impI)
  fix b assume b: "b < length (xs @ map (shift_call (length xs) nz) ys)"
  show "call_ok g (take b (xs @ map (shift_call (length xs) nz) ys))
      ((xs @ map (shift_call (length xs) nz) ys) ! b)"
  proof (cases "b < length xs")
    case True
    with assms(1) show ?thesis by (simp add: calls_ok_def nth_append)
  next
    case False
    with b assms(2) call_ok_shift [of g "b - length xs" ys "ys ! (b - length xs)" xs nz]
    show ?thesis by (simp add: calls_ok_def nth_append take_map)
  qed
qed

lemma moves_result_shift:
  "moves_result g (shift_call nf nz call) k \<longleftrightarrow> (\<exists>k'. moves_result g call k' \<and> k = k' + nf)"
  by (auto simp: moves_result_def takes_shift)

lemma uses_result_shift:
  "uses_result k (shift_call nf nz call) \<longleftrightarrow> (\<exists>k'. uses_result k' call \<and> k = k' + nf)"
  by (auto simp: uses_result_takes takes_shift)

lemma moves_result_earlier:
  "calls_ok g calls \<Longrightarrow> a < length calls \<Longrightarrow> moves_result g (calls ! a) k \<Longrightarrow> k < a"
  by (fastforce simp: calls_ok_def call_ok_def moves_result_def)

lemma no_use_after_move_merge:
  assumes "calls_ok g xs" and "no_use_after_move g xs" and "no_use_after_move g ys"
  shows "no_use_after_move g (xs @ map (shift_call (length xs) nz) ys)"
  unfolding no_use_after_move_def
proof (intro allI impI)
  fix a b k
  let ?zs = "xs @ map (shift_call (length xs) nz) ys"
  assume ab: "a < b" "b < length ?zs" "moves_result g (?zs ! a) k"
  consider "b < length xs" | "a < length xs" "length xs \<le> b" | "length xs \<le> a" by linarith
  then show "\<not> uses_result k (?zs ! b)"
  proof cases
    case 1
    with ab assms(2) show ?thesis by (auto simp: no_use_after_move_def nth_append)
  next
    case 2
    with ab moves_result_earlier [OF assms(1), of a k] show ?thesis
      by (auto simp: nth_append uses_result_shift)
  next
    case 3
    with ab assms(3) [unfolded no_use_after_move_def, rule_format, of "a - length xs" "b - length xs"]
    show ?thesis by (auto simp: nth_append uses_result_shift moves_result_shift)
  qed
qed

lemma moves_recorded_merge:
  assumes "moves_recorded g xs m" and "moves_recorded g ys m'"
  shows "moves_recorded g (xs @ map (shift_call (length xs) nz) ys) (m \<union> (\<lambda>i. i + length xs) ` m')"
  unfolding moves_recorded_def
proof (intro allI impI)
  fix a k
  assume a: "a < length (xs @ map (shift_call (length xs) nz) ys)"
    "moves_result g ((xs @ map (shift_call (length xs) nz) ys) ! a) k"
  show "k \<in> m \<union> (\<lambda>i. i + length xs) ` m'"
  proof (cases "a < length xs")
    case True
    with a assms(1) show ?thesis by (auto simp: moves_recorded_def nth_append)
  next
    case False
    with a obtain k' where "moves_result g (ys ! (a - length xs)) k'" "k = k' + length xs"
      by (auto simp: nth_append moves_result_shift)
    with a False assms(2) [unfolded moves_recorded_def, rule_format, of "a - length xs" k']
    show ?thesis by simp
  qed
qed

lemma merge_safe:
  assumes "seq_safe g s" and "seq_safe g t"
  shows "seq_safe g (merge_another_sequence s t)"
  using assms fwd.wf_merge [of s t] calls_ok_merge no_use_after_move_merge moves_recorded_merge
  by (simp add: seq_safe_def merge_another_sequence_def Let_def)

lemma empty_safe [simp]: "seq_safe g ApiSequence_new"
  using seq_wf_new
  by (simp add: seq_safe_def calls_ok_def no_use_after_move_def moves_recorded_def)
    (simp add: ApiSequence_new_def)

end
