(* ===== verification/Graph_Dependencies.thy ===== *)
theory Graph_Dependencies
  imports Graph_Safety Call_Typing
begin

text \<open>
  The edges of the dependency graph. \<open>expected_edge\<close> says when there should be one, without the
  loops of \<open>find_all_dependencies\<close>; the theorems show that the loops (in the mode without generics
  that the generator uses) collect exactly these, that they return on resolved signatures, and
  that an edge is a well-typed way to pass the result of one function to another.
\<close>

section \<open>Collecting loops\<close>

lemma fold_m_collect:
  assumes "\<And>x acc. x \<in> set xs \<Longrightarrow> f x (c, acc) = map_option (\<lambda>ys. (c, acc @ ys)) (h x)"
  shows "fold_m f xs (c, acc) = map_option (\<lambda>yss. (c, acc @ concat yss)) (map_m h xs)"
  using assms
proof (induction xs arbitrary: acc)
  case (Cons x xs)
  then show ?case
    by (cases "h x") (auto simp: option.map_comp comp_def split: bind_splits)
qed simp

lemma fold_m_collect_acc:
  assumes "\<And>x acc. x \<in> set xs \<Longrightarrow> f x acc = map_option (\<lambda>ys. acc @ ys) (h x)"
  shows "fold_m f xs acc = map_option (\<lambda>yss. acc @ concat yss) (map_m h xs)"
  using assms
proof (induction xs arbitrary: acc)
  case (Cons x xs)
  then show ?case
    by (cases "h x") (auto simp: option.map_comp comp_def split: bind_splits)
qed simp

lemma map_m_concat:
  "map_m h xs = Some yss \<Longrightarrow> y \<in> set (concat yss) \<longleftrightarrow> (\<exists>x \<in> set xs. \<exists>ys. h x = Some ys \<and> y \<in> set ys)"
  by (induction xs arbitrary: yss) (auto simp: bind_eq_Some_conv)

lemma map_m_defined: "map_m h xs = Some yss \<Longrightarrow> x \<in> set xs \<Longrightarrow> \<exists>ys. h x = Some ys"
  by (induction xs arbitrary: yss) (auto simp: bind_eq_Some_conv)

text \<open>A loop over a vector with its indices: the results of all positions, when each is described.\<close>

lemma map_m_enumerate:
  assumes "map_m h (enumerate 0 xs) = Some yss"
    and "\<And>k ys. k < length xs \<Longrightarrow> h (k, xs ! k) = Some ys \<Longrightarrow> y \<in> set ys \<longleftrightarrow> P k"
  shows "y \<in> set (concat yss) \<longleftrightarrow> (\<exists>k < length xs. P k)"
proof -
  have def: "\<exists>ys. h (k, xs ! k) = Some ys" if "k < length xs" for k
    using map_m_defined [OF assms(1), of "(k, xs ! k)"] that by (simp add: in_set_enumerate_eq)
  have "y \<in> set (concat yss) \<longleftrightarrow> (\<exists>k < length xs. \<exists>ys. h (k, xs ! k) = Some ys \<and> y \<in> set ys)"
    using map_m_concat [OF assms(1), of y] by (auto simp: in_set_enumerate_eq)
  with def assms(2) show ?thesis by blast
qed

lemma map_m_enumerate_no_panic:
  assumes "\<And>k. k < length xs \<Longrightarrow> h (k, xs ! k) \<noteq> None"
  shows "map_m h (enumerate 0 xs) \<noteq> None"
  using assms by (intro map_m_no_panic) (fastforce simp: in_set_enumerate_eq)

section \<open>The edges a loop collects\<close>

definition param_edges ::
  "ApiGraph \<Rightarrow> nat \<Rightarrow> Type \<Rightarrow> nat \<Rightarrow> nat \<times> Type \<Rightarrow> ApiDependency list run" where
  "param_edges g i out j kinp = (case kinp of (k, inp) \<Rightarrow>
     do { so \<leftarrow> skip_generic g out;
          if so then Some []
          else do { si \<leftarrow> skip_generic g inp;
                    if si then Some []
                    else do { ct \<leftarrow> same_type (graph_cache g) (full_name_map g) True out inp;
                              Some (if ct = CT_NotCompatible then []
                                else [\<lparr>output_fun = (BareFunction, i), input_fun = (BareFunction, j),
                                      input_param_index = k, dep_call_type = ct\<rparr>]) } } })"

definition edges_to ::
  "ApiGraph \<Rightarrow> nat \<Rightarrow> Type \<Rightarrow> nat \<times> ApiFunction \<Rightarrow> ApiDependency list run" where
  "edges_to g i out jsecond = (case jsecond of (j, second) \<Rightarrow>
     do { start \<leftarrow> is_start_function (graph_cache g) (full_name_map g) False second;
          if start then Some []
          else map_option concat (map_m (param_edges g i out j) (enumerate 0 (inputs second))) })"

text \<open>The output type with an outer \<open>Option\<close> or \<open>Result\<close> stripped.\<close>

definition stripped_output :: "ApiGraph \<Rightarrow> Type \<Rightarrow> Type run" where
  "stripped_output g t =
     do { special \<leftarrow> prelude_type_need_special_dealing (graph_cache g) (full_name_map g) t;
          if special then
            do { p \<leftarrow> from_type (graph_cache g) (full_name_map g) t; Some (get_final_type p) }
          else Some t }"

definition edges_from :: "ApiGraph \<Rightarrow> nat \<times> ApiFunction \<Rightarrow> ApiDependency list run" where
  "edges_from g ifirst = (case ifirst of (i, first) \<Rightarrow>
     do { ended \<leftarrow> is_end_function (graph_cache g) (full_name_map g) False first;
          if ended then Some []
          else case output_type first of
            None \<Rightarrow> Some []
          | Some t \<Rightarrow>
              do { out \<leftarrow> stripped_output g t;
                   map_option concat (map_m (edges_to g i out) (enumerate 0 (api_functions g))) } })"

lemma dependency_of_param_collect:
  "dependency_of_param g False i first j second kinp (out, deps)
     = map_option (\<lambda>ys. (out, deps @ ys)) (param_edges g i out j kinp)"
  by (cases kinp) (simp add: dependency_of_param_def param_edges_def Let_def split: bind_splits)

lemma dependencies_to_collect:
  "dependencies_to g False i first jsecond (out, deps)
     = map_option (\<lambda>ys. (out, deps @ ys)) (edges_to g i out jsecond)"
  using fold_m_collect [of _ _ _ "param_edges g i out (fst jsecond)", OF dependency_of_param_collect]
  by (cases jsecond)
    (auto simp: dependencies_to_def edges_to_def option.map_comp comp_def split: bind_splits)

lemma dependencies_from_collect:
  "dependencies_from g False ifirst deps = map_option (\<lambda>ys. deps @ ys) (edges_from g ifirst)"
proof -
  obtain i first where [simp]: "ifirst = (i, first)" by (cases ifirst)
  have strip: "do { special \<leftarrow> prelude_type_need_special_dealing (graph_cache g) (full_name_map g) t;
          out \<leftarrow> (if special then do { p \<leftarrow> from_type (graph_cache g) (full_name_map g) t; Some (get_final_type p) }
                  else Some t); k out } = do { out \<leftarrow> stripped_output g t; k out }" for t k
    by (simp add: stripped_output_def split: bind_splits)
  show ?thesis
    using fold_m_collect [of _ _ _ "edges_to g i _", OF dependencies_to_collect]
    by (auto simp: dependencies_from_def edges_from_def strip option.map_comp comp_def
        split: bind_splits option.splits)
qed

lemma find_all_dependencies_collect:
  "find_all_dependencies g False =
     map_option (\<lambda>yss. g\<lparr>api_dependencies := concat yss\<rparr>) (map_m (edges_from g) (enumerate 0 (api_functions g)))"
  using fold_m_collect_acc [of _ _ "edges_from g", OF dependencies_from_collect]
  by (auto simp: find_all_dependencies_def split: bind_splits)

section \<open>Which edges there are\<close>

definition expected_edge :: "ApiGraph \<Rightarrow> nat \<Rightarrow> nat \<Rightarrow> nat \<Rightarrow> CallType \<Rightarrow> bool" where
  "expected_edge g i j k ct \<longleftrightarrow>
     i < length (api_functions g) \<and> j < length (api_functions g) \<and>
     k < length (inputs (api_functions g ! j)) \<and> ct \<noteq> CT_NotCompatible \<and>
     is_end_function (graph_cache g) (full_name_map g) False (api_functions g ! i) = Some False \<and>
     is_start_function (graph_cache g) (full_name_map g) False (api_functions g ! j) = Some False \<and>
     (\<exists>t out. output_type (api_functions g ! i) = Some t \<and> stripped_output g t = Some out \<and>
        skip_generic g out = Some False \<and> skip_generic g (inputs (api_functions g ! j) ! k) = Some False \<and>
        same_type (graph_cache g) (full_name_map g) True out (inputs (api_functions g ! j) ! k) = Some ct)"

lemma param_edges_iff:
  "param_edges g i out j (k, inp) = Some ys \<Longrightarrow> d \<in> set ys \<longleftrightarrow>
     (\<exists>ct. skip_generic g out = Some False \<and> skip_generic g inp = Some False \<and>
       same_type (graph_cache g) (full_name_map g) True out inp = Some ct \<and> ct \<noteq> CT_NotCompatible \<and>
       d = \<lparr>output_fun = (BareFunction, i), input_fun = (BareFunction, j), input_param_index = k,
            dep_call_type = ct\<rparr>)"
  by (auto simp: param_edges_def bind_eq_Some_conv split: if_splits)

lemma edges_to_iff:
  assumes "edges_to g i out (j, second) = Some ys"
  shows "d \<in> set ys \<longleftrightarrow>
     is_start_function (graph_cache g) (full_name_map g) False second = Some False \<and>
     (\<exists>k ct. k < length (inputs second) \<and> skip_generic g out = Some False \<and>
       skip_generic g (inputs second ! k) = Some False \<and>
       same_type (graph_cache g) (full_name_map g) True out (inputs second ! k) = Some ct \<and>
       ct \<noteq> CT_NotCompatible \<and>
       d = \<lparr>output_fun = (BareFunction, i), input_fun = (BareFunction, j), input_param_index = k,
            dep_call_type = ct\<rparr>)"
proof (cases "is_start_function (graph_cache g) (full_name_map g) False second = Some False")
  case True
  with assms obtain yss where yss: "map_m (param_edges g i out j) (enumerate 0 (inputs second)) = Some yss"
      "ys = concat yss" by (auto simp: edges_to_def)
  have "d \<in> set ys \<longleftrightarrow> (\<exists>k < length (inputs second). \<exists>ct. skip_generic g out = Some False \<and>
       skip_generic g (inputs second ! k) = Some False \<and>
       same_type (graph_cache g) (full_name_map g) True out (inputs second ! k) = Some ct \<and>
       ct \<noteq> CT_NotCompatible \<and>
       d = \<lparr>output_fun = (BareFunction, i), input_fun = (BareFunction, j), input_param_index = k,
            dep_call_type = ct\<rparr>)"
    unfolding yss(2) by (rule map_m_enumerate [OF yss(1)]) (rule param_edges_iff)
  with True show ?thesis by blast
next
  case False
  with assms show ?thesis by (auto simp: edges_to_def bind_eq_Some_conv split: if_splits)
qed

lemma edges_from_iff:
  assumes "edges_from g (i, first) = Some ys"
  shows "d \<in> set ys \<longleftrightarrow>
     is_end_function (graph_cache g) (full_name_map g) False first = Some False \<and>
     (\<exists>t out. output_type first = Some t \<and> stripped_output g t = Some out \<and>
       (\<exists>j < length (api_functions g).
         is_start_function (graph_cache g) (full_name_map g) False (api_functions g ! j) = Some False \<and>
         (\<exists>k ct. k < length (inputs (api_functions g ! j)) \<and> skip_generic g out = Some False \<and>
           skip_generic g (inputs (api_functions g ! j) ! k) = Some False \<and>
           same_type (graph_cache g) (full_name_map g) True out (inputs (api_functions g ! j) ! k) = Some ct \<and>
           ct \<noteq> CT_NotCompatible \<and>
           d = \<lparr>output_fun = (BareFunction, i), input_fun = (BareFunction, j), input_param_index = k,
                dep_call_type = ct\<rparr>)))"
proof (cases "is_end_function (graph_cache g) (full_name_map g) False first = Some False")
  case ended: True
  show ?thesis
  proof (cases "output_type first")
    case None
    with ended assms show ?thesis by (simp add: edges_from_def)
  next
    case (Some t)
    with ended assms obtain out yss where out: "stripped_output g t = Some out"
      and yss: "map_m (edges_to g i out) (enumerate 0 (api_functions g)) = Some yss" "ys = concat yss"
      by (auto simp: edges_from_def bind_eq_Some_conv)
    have "d \<in> set ys \<longleftrightarrow> (\<exists>j < length (api_functions g).
         is_start_function (graph_cache g) (full_name_map g) False (api_functions g ! j) = Some False \<and>
         (\<exists>k ct. k < length (inputs (api_functions g ! j)) \<and> skip_generic g out = Some False \<and>
           skip_generic g (inputs (api_functions g ! j) ! k) = Some False \<and>
           same_type (graph_cache g) (full_name_map g) True out (inputs (api_functions g ! j) ! k) = Some ct \<and>
           ct \<noteq> CT_NotCompatible \<and>
           d = \<lparr>output_fun = (BareFunction, i), input_fun = (BareFunction, j), input_param_index = k,
                dep_call_type = ct\<rparr>))"
      unfolding yss(2) by (rule map_m_enumerate [OF yss(1)]) (rule edges_to_iff)
    with ended Some out show ?thesis by simp
  qed
next
  case False
  with assms show ?thesis by (auto simp: edges_from_def bind_eq_Some_conv split: if_splits)
qed

lemma find_all_dependencies_edges:
  assumes "find_all_dependencies g False = Some g'"
  shows "d \<in> set (api_dependencies g') \<longleftrightarrow> (\<exists>i j k ct. expected_edge g i j k ct \<and>
    d = \<lparr>output_fun = (BareFunction, i), input_fun = (BareFunction, j), input_param_index = k,
         dep_call_type = ct\<rparr>)"
proof -
  from assms obtain yss where yss: "map_m (edges_from g) (enumerate 0 (api_functions g)) = Some yss"
      "api_dependencies g' = concat yss"
    by (auto simp: find_all_dependencies_collect)
  show ?thesis unfolding yss(2)
    by (subst map_m_enumerate [OF yss(1) edges_from_iff]) (auto simp: expected_edge_def)
qed

section \<open>No panic on resolved signatures\<close>

definition resolved_graph :: "ApiGraph \<Rightarrow> bool" where
  "resolved_graph g = list_all resolved_function (api_functions g)"

lemma resolved_graph_nth:
  assumes "resolved_graph g" and "i < length (api_functions g)"
  shows "resolved_function (api_functions g ! i)"
  using assms by (simp add: resolved_graph_def list_all_length)

lemma resolved_input: "resolved_function f \<Longrightarrow> k < length (inputs f) \<Longrightarrow> resolved (inputs f ! k)"
  by (simp add: resolved_function_def list_all_length)

lemma skip_generic_no_panic [no_panic]: "resolved t \<Longrightarrow> skip_generic g t \<noteq> None"
  using need_special_dealing_no_panic [of t "graph_cache g" "full_name_map g"]
  by (auto simp: skip_generic_def)

lemma stripped_output_resolved:
  assumes "resolved t"
  shows "\<exists>out. stripped_output g t = Some out \<and> resolved out"
proof -
  obtain b where b: "prelude_type_need_special_dealing (graph_cache g) (full_name_map g) t = Some b"
    using need_special_dealing_no_panic [OF assms] by blast
  then obtain p where "from_type (graph_cache g) (full_name_map g) t = Some p"
    by (auto simp: need_special_dealing_from_type)
  with b from_type_resolved [OF this assms] assms show ?thesis
    by (cases b) (auto simp: stripped_output_def)
qed

lemma param_edges_no_panic:
  assumes "resolved out" and "resolved inp"
  shows "param_edges g i out j (k, inp) \<noteq> None"
  using skip_generic_no_panic [OF assms(1), of g] skip_generic_no_panic [OF assms(2), of g]
    same_type_hard_no_panic [OF assms, of "graph_cache g" "full_name_map g"]
  by (auto simp: param_edges_def same_type_def)

lemma edges_to_no_panic:
  assumes "resolved out" and "resolved_function second"
  shows "edges_to g i out (j, second) \<noteq> None"
proof -
  have "map_m (param_edges g i out j) (enumerate 0 (inputs second)) \<noteq> None"
    using assms by (intro map_m_enumerate_no_panic param_edges_no_panic resolved_input)
  with is_start_function_no_panic [OF assms(2), of "graph_cache g" "full_name_map g" False]
  show ?thesis by (auto simp: edges_to_def)
qed

lemma edges_from_no_panic:
  assumes "resolved_graph g" and "resolved_function first"
  shows "edges_from g (i, first) \<noteq> None"
proof (cases "output_type first")
  case None
  with is_end_function_no_panic [OF assms(2), of "graph_cache g" "full_name_map g" False]
  show ?thesis by (auto simp: edges_from_def)
next
  case (Some t)
  with assms(2) stripped_output_resolved [of t g] obtain out
    where out: "stripped_output g t = Some out" "resolved out" by (auto simp: resolved_function_def)
  have "map_m (edges_to g i out) (enumerate 0 (api_functions g)) \<noteq> None"
    by (intro map_m_enumerate_no_panic edges_to_no_panic out(2) resolved_graph_nth [OF assms(1)])
  with Some out is_end_function_no_panic [OF assms(2), of "graph_cache g" "full_name_map g" False]
  show ?thesis by (auto simp: edges_from_def)
qed

lemma find_all_dependencies_returns:
  assumes "resolved_graph g"
  shows "find_all_dependencies g False \<noteq> None"
proof -
  have "map_m (edges_from g) (enumerate 0 (api_functions g)) \<noteq> None"
    by (intro map_m_enumerate_no_panic edges_from_no_panic assms resolved_graph_nth [OF assms])
  then show ?thesis by (auto simp: find_all_dependencies_collect)
qed

section \<open>The properties of the dependency graph\<close>

text \<open>C11. \<open>find_all_dependencies\<close> returns on resolved signatures, changes only the list of
  dependencies, and there is an edge exactly when the function on the left is no end function, the
  one on the right no start function, and \<open>_same_type\<close> accepts the (unwrapped) result for the
  parameter.\<close>

theorem find_all_dependencies_exact:
  assumes "resolved_graph g"
  shows "\<exists>g'. find_all_dependencies g False = Some g' \<and>
    g' = g\<lparr>api_dependencies := api_dependencies g'\<rparr> \<and>
    (\<forall>d. d \<in> set (api_dependencies g') \<longleftrightarrow> (\<exists>i j k ct. expected_edge g i j k ct \<and>
       d = \<lparr>output_fun = (BareFunction, i), input_fun = (BareFunction, j), input_param_index = k,
            dep_call_type = ct\<rparr>))"
proof -
  obtain g' where g': "find_all_dependencies g False = Some g'"
    using find_all_dependencies_returns [OF assms] by blast
  then have "g' = g\<lparr>api_dependencies := api_dependencies g'\<rparr>"
    by (auto simp: find_all_dependencies_collect)
  with g' find_all_dependencies_edges [OF g'] show ?thesis by blast
qed

text \<open>A crate with a constructor, a method that borrows its result and one that consumes it.\<close>

definition widget :: Type where
  "widget = T_Path (MkPath (Res_Def ''Struct'' (0, 9)) [MkPathSegment ''Widget'' (AngleBracketed [] [])])"

definition api :: "string \<Rightarrow> Type list \<Rightarrow> Type option \<Rightarrow> ApiFunction" where
  "api n ins out = \<lparr>full_name = n, generics = [], generic_substitutions = Map.empty, inputs = ins,
     output_type = out, trait_full_path = None, unsafe_tag = Normal, visibility = Public\<rparr>"

definition crate_graph :: ApiGraph where
  "crate_graph = (ApiGraph_new ''krate'' empty_cache)\<lparr>api_functions :=
     [api ''krate::new'' [T_Primitive P_U32] (Some widget),
      api ''krate::len'' [T_BorrowedRef None Not widget] (Some (T_Primitive P_Usize)),
      api ''krate::eat'' [widget] None], full_name_map := core_names\<rparr>"

lemma crate_graph_resolved: "resolved_graph crate_graph"
  by (simp add: resolved_graph_def crate_graph_def api_def resolved_function_def widget_def)

lemma find_all_dependencies_exact_witness:
  "\<exists>g'. find_all_dependencies crate_graph False = Some g' \<and>
    g' = crate_graph\<lparr>api_dependencies := api_dependencies g'\<rparr> \<and>
    (\<forall>d. d \<in> set (api_dependencies g') \<longleftrightarrow> (\<exists>i j k ct. expected_edge crate_graph i j k ct \<and>
       d = \<lparr>output_fun = (BareFunction, i), input_fun = (BareFunction, j), input_param_index = k,
            dep_call_type = ct\<rparr>))"
  by (rule find_all_dependencies_exact [OF crate_graph_resolved])

lemma dependency_typed:
  assumes "find_all_dependencies g False = Some g'" and "d \<in> set (api_dependencies g')"
    and "printable (dep_call_type d)"
  shows "\<exists>i j t out. output_fun d = (BareFunction, i) \<and> input_fun d = (BareFunction, j) \<and>
    output_type (api_functions g ! i) = Some t \<and> stripped_output g t = Some out \<and>
    arg_has_type (graph_cache g) (full_name_map g) out (dep_call_type d)
      (inputs (api_functions g ! j) ! input_param_index d)"
proof -
  from find_all_dependencies_edges [OF assms(1), of d] assms(2) obtain i j k ct
    where e: "expected_edge g i j k ct" and d: "d = \<lparr>output_fun = (BareFunction, i),
        input_fun = (BareFunction, j), input_param_index = k, dep_call_type = ct\<rparr>" by blast
  from e obtain t out where t: "output_type (api_functions g ! i) = Some t" "stripped_output g t = Some out"
      "same_type (graph_cache g) (full_name_map g) True out (inputs (api_functions g ! j) ! k) = Some ct"
      "ct \<noteq> CT_NotCompatible"
    by (auto simp: expected_edge_def)
  have "arg_has_type (graph_cache g) (full_name_map g) out ct (inputs (api_functions g ! j) ! k)"
    using t(3,4) assms(3) d same_type_sound [of "graph_cache g" "full_name_map g" out _ ct]
    by (simp add: same_type_def)
  with t d show ?thesis by auto
qed

text \<open>An edge is a well-typed use: when the call type of an edge prints its layers in order, the
  expression around a variable holding the unwrapped result of the first function has the type of
  the parameter of the second.\<close>

theorem dependency_well_typed:
  assumes "find_all_dependencies g False = Some g'" and "d \<in> set (api_dependencies g')"
    and "printable (dep_call_type d)"
  shows "\<exists>i j t out. output_fun d = (BareFunction, i) \<and> input_fun d = (BareFunction, j) \<and>
    output_type (api_functions g ! i) = Some t \<and> stripped_output g t = Some out \<and>
    arg_has_type (graph_cache g) (full_name_map g) out (dep_call_type d)
      (inputs (api_functions g ! j) ! input_param_index d)"
  by (rule dependency_typed [OF assms])

lemma crate_types [simp]:
  "from_type empty_cache core_names widget = Some (NotPrelude widget)"
  "prelude_type_need_special_dealing empty_cache core_names widget = Some False"
  by (simp_all add: widget_def concrete_types)

lemma widget_special [simp]:
  "skip_generic crate_graph widget = Some False"
  "skip_generic crate_graph (T_BorrowedRef None Not widget) = Some False"
proof -
  have cm: "graph_cache crate_graph = empty_cache" "full_name_map crate_graph = core_names"
    by (simp_all add: crate_graph_def ApiGraph_new_def)
  have "\<not> is_generic_type widget" by (simp add: widget_def)
  then show "skip_generic crate_graph widget = Some False"
    "skip_generic crate_graph (T_BorrowedRef None Not widget) = Some False"
    by (simp_all add: skip_generic_def cm prelude_type_need_special_dealing_def from_type_not_path)
qed

lemma widget_same [simp]:
  "same_type empty_cache core_names True widget widget = Some CT_DirectCall"
  "same_type empty_cache core_names True widget (T_BorrowedRef None Not widget)
     = Some (CT_BorrowedRef CT_DirectCall)"
  by (simp_all add: same_type_def same_type_hard_mode.simps borrowed_ref_in_same_type.simps)

definition crate_graph_edges :: ApiGraph where
  "crate_graph_edges = crate_graph\<lparr>api_dependencies :=
     [\<lparr>output_fun = (BareFunction, 0), input_fun = (BareFunction, 1), input_param_index = 0,
       dep_call_type = CT_BorrowedRef CT_DirectCall\<rparr>,
      \<lparr>output_fun = (BareFunction, 0), input_fun = (BareFunction, 2), input_param_index = 0,
       dep_call_type = CT_DirectCall\<rparr>]\<rparr>"

lemma crate_graph_dependencies: "find_all_dependencies crate_graph False = Some crate_graph_edges"
proof -
  have fs: "api_functions crate_graph = [api ''krate::new'' [T_Primitive P_U32] (Some widget),
      api ''krate::len'' [T_BorrowedRef None Not widget] (Some (T_Primitive P_Usize)),
      api ''krate::eat'' [widget] None]"
    and cm: "graph_cache crate_graph = empty_cache" "full_name_map crate_graph = core_names"
    by (simp_all add: crate_graph_def ApiGraph_new_def)
  have ends: "is_end_type empty_cache core_names False widget = Some False"
    by (simp add: widget_def)
      (simp add: widget_def [symmetric])
  show ?thesis
    by (simp add: find_all_dependencies_def dependencies_from_def dependencies_to_def
        dependency_of_param_def is_end_function_def is_start_function_def contains_mut_borrow_def
        is_mut_pointer_def ends fs cm api_def Let_def crate_graph_edges_def)
qed

lemma dependency_well_typed_witness:
  "\<exists>i j t out. output_fun (api_dependencies crate_graph_edges ! 0) = (BareFunction, i) \<and>
    input_fun (api_dependencies crate_graph_edges ! 0) = (BareFunction, j) \<and>
    output_type (api_functions crate_graph ! i) = Some t \<and> stripped_output crate_graph t = Some out \<and>
    arg_has_type (graph_cache crate_graph) (full_name_map crate_graph) out
      (dep_call_type (api_dependencies crate_graph_edges ! 0))
      (inputs (api_functions crate_graph ! j) ! input_param_index (api_dependencies crate_graph_edges ! 0))"
  by (rule dependency_well_typed [OF crate_graph_dependencies])
    (simp_all add: crate_graph_edges_def)

end
