(* ===== verification/Graph_Total.thy ===== *)
theory Graph_Total
  imports Graph_Dependencies
begin

text \<open>
  \<open>is_fun_satisfied\<close> always returns: on a graph whose signatures are resolved, whose substitutions
  are the primitive ones \<open>add_api_function\<close> builds and whose edges start at functions with a result,
  none of the \<open>unwrap\<close>s, index operations and \<open>assert!\<close>s is reached with a bad value. The graph
  \<open>find_all_dependencies\<close> leaves is such a graph.
\<close>

section \<open>Substitution keeps types resolved\<close>

definition primitive_map :: "(string \<rightharpoonup> Type) \<Rightarrow> bool" where
  "primitive_map \<sigma> = (\<forall>t \<in> ran \<sigma>. \<exists>p. t = T_Primitive p)"

lemma primitive_map_Some: "primitive_map \<sigma> \<Longrightarrow> \<sigma> s = Some t \<Longrightarrow> \<exists>p. t = T_Primitive p"
  by (auto simp: primitive_map_def ran_def)

text \<open>The arguments of a segment of a resolved path.\<close>

fun resolved_arg :: "GenericArg \<Rightarrow> bool" where
  "resolved_arg (GA_Type t) = resolved t"
| "resolved_arg GA_Infer = False"
| "resolved_arg _ = True"

fun resolved_segment :: "PathSegment \<Rightarrow> bool" where
  "resolved_segment (MkPathSegment n (AngleBracketed args bs)) = list_all resolved_arg args"
| "resolved_segment (MkPathSegment n (Parenthesized ins out)) =
     (list_all resolved ins \<and> (case out of None \<Rightarrow> True | Some t \<Rightarrow> resolved t))"

lemma resolved_arg_case:
  "resolved_arg = (\<lambda>a. case a of GA_Type t \<Rightarrow> resolved t | GA_Infer \<Rightarrow> False | _ \<Rightarrow> True)"
  by (rule ext, rename_tac a, case_tac a) auto

lemma resolved_path_segments:
  "resolved (T_Path (MkPath r segs)) \<longleftrightarrow> opt_def_id r \<noteq> None \<and> list_all resolved_segment segs"
proof -
  have "resolved_segment = (\<lambda>s. case s of MkPathSegment _ ga \<Rightarrow>
        (case ga of
           AngleBracketed args _ \<Rightarrow> list_all (\<lambda>a. case a of GA_Type t \<Rightarrow> resolved t
             | GA_Infer \<Rightarrow> False | _ \<Rightarrow> True) args
         | Parenthesized ins out \<Rightarrow>
             list_all resolved ins \<and> (case out of None \<Rightarrow> True | Some t \<Rightarrow> resolved t)))"
    by (rule ext, rename_tac s, case_tac s rule: resolved_segment.cases)
      (simp_all add: resolved_arg_case)
  then show ?thesis by simp
qed

lemma substituted_arg_resolved:
  assumes "resolved_arg a" and "\<And>t v. a = GA_Type t \<Longrightarrow> substitute_type \<sigma> t = Some v \<Longrightarrow> \<not> i < n \<Longrightarrow> resolved v"
  shows "resolved_arg (case a of GA_Type t \<Rightarrow> if i < n then GA_Type t
    else (case substitute_type \<sigma> t of Some u \<Rightarrow> GA_Type u | None \<Rightarrow> GA_Type t) | _ \<Rightarrow> a)"
  using assms by (cases a) (auto split: option.splits)

lemma substitute_resolved:
  assumes "resolved t" and "primitive_map \<sigma>" and "substitute_type \<sigma> t = Some u"
  shows "resolved u"
  using assms
proof (induction \<sigma> t arbitrary: u rule: substitute_type.induct)
  case (1 \<sigma> r segs)
  note IH = 1(1) and prim = 1(3)
  define F where "F = (\<lambda>s. case s of MkPathSegment n ga \<Rightarrow>
       (case ga of
          AngleBracketed args bindings \<Rightarrow>
            MkPathSegment n (AngleBracketed
              (map (\<lambda>(i, a). case a of
                      GA_Type t \<Rightarrow>
                        if i < length bindings then GA_Type t
                        else (case substitute_type \<sigma> t of Some u \<Rightarrow> GA_Type u | None \<Rightarrow> GA_Type t)
                    | _ \<Rightarrow> a) (enumerate 0 args)) bindings)
        | Parenthesized ins out \<Rightarrow> MkPathSegment n (Parenthesized ins out)))"
  have u: "u = T_Path (MkPath r (map F segs))" using 1(4) by (simp add: F_def)
  have segs: "opt_def_id r \<noteq> None" "list_all resolved_segment segs"
    using 1(2) unfolding resolved_path_segments by simp_all
  have "resolved_segment (F s)" if s: "s \<in> set segs" for s
  proof (cases s rule: resolved_segment.cases)
    case (1 n args bs)
    have args: "list_all resolved_arg args" using segs(2) s 1 by (auto simp: list_all_iff)
    have "resolved_arg (case a of GA_Type t \<Rightarrow> if i < length bs then GA_Type t
          else (case substitute_type \<sigma> t of Some u \<Rightarrow> GA_Type u | None \<Rightarrow> GA_Type t) | _ \<Rightarrow> a)"
      if ia: "(i, a) \<in> set (enumerate 0 args)" for i a
    proof (rule substituted_arg_resolved)
      show "resolved_arg a" using ia args by (auto simp: in_set_enumerate_eq list_all_iff)
      then show "resolved v" if "a = GA_Type t" "substitute_type \<sigma> t = Some v" "\<not> i < length bs" for t v
        using IH [OF s 1 refl ia refl that(1)] that prim by simp
    qed
    then show ?thesis by (auto simp: F_def 1 list_all_iff)
  next
    case (2 n ins out)
    with segs(2) s show ?thesis by (auto simp: F_def list_all_iff)
  qed
  then have "list_all resolved_segment (map F segs)" by (simp add: list_all_iff)
  with segs(1) show ?case unfolding u resolved_path_segments by simp
next
  case (2 \<sigma> s)
  then show ?case by (auto dest: primitive_map_Some split: option.splits)
next
  case (3 \<sigma> ts)
  then obtain us where us: "map_m (substitute_type \<sigma>) ts = Some us" "u = T_Tuple us" by auto
  have "resolved (us ! i)" if "i < length ts" for i
    using 3(1) [of "ts ! i" "us ! i"] 3(2,3) map_m_nth [OF us(1) that] that
    by (simp add: list_all_length)
  with us map_m_length [OF us(1)] show ?case by (simp add: list_all_length)
qed auto

section \<open>Well-formed graphs\<close>

definition graph_wf :: "ApiGraph \<Rightarrow> bool" where
  "graph_wf g \<longleftrightarrow> resolved_graph g \<and>
     list_all (\<lambda>f. primitive_map (generic_substitutions f)) (api_functions g) \<and>
     (\<forall>d \<in> set (api_dependencies g). \<exists>i. output_fun d = (BareFunction, i) \<and>
        i < length (api_functions g) \<and> output_type (api_functions g ! i) \<noteq> None)"

lemma graph_wf_function:
  assumes "graph_wf g" and "fi < length (api_functions g)"
  shows "resolved_function (api_functions g ! fi)"
    and "primitive_map (generic_substitutions (api_functions g ! fi))"
  using assms by (simp_all add: graph_wf_def resolved_graph_def list_all_length)

lemma graph_wf_edge:
  assumes "graph_wf g" and "edge g (t, i) inp k ct"
  shows "t = BareFunction" "i < length (api_functions g)" "output_type (api_functions g ! i) \<noteq> None"
  using assms by (fastforce simp: graph_wf_def edge_def)+

lemma actual_type_resolved:
  assumes "graph_wf g" and "fi < length (api_functions g)" and "i < length (inputs (api_functions g ! fi))"
  shows "resolved (actual_type (api_functions g ! fi) i)"
proof -
  have r: "resolved (inputs (api_functions g ! fi) ! i)"
    using graph_wf_function(1) [OF assms(1,2)] assms(3) by (rule resolved_input)
  with substitute_resolved [OF r graph_wf_function(2) [OF assms(1,2)]] show ?thesis
    by (auto simp: actual_type_def split: option.splits)
qed

text \<open>\<open>add_api_function\<close> builds primitive substitutions, and \<open>find_all_dependencies\<close> edges from
  functions with a result.\<close>

lemma with_i32_primitive:
  "primitive_map (generic_substitutions f) \<Longrightarrow>
   primitive_map (generic_substitutions (with_i32_substitutions f))"
proof -
  have "primitive_map \<sigma> \<Longrightarrow> primitive_map (fold (\<lambda>p \<sigma>. if gp_is_type p then \<sigma>(gp_name p \<mapsto> T_Primitive P_I32)
      else \<sigma>) ps \<sigma>)" for ps \<sigma>
  proof (induction ps arbitrary: \<sigma>)
    case (Cons p ps)
    have "primitive_map (if gp_is_type p then \<sigma>(gp_name p \<mapsto> T_Primitive P_I32) else \<sigma>)"
      using Cons.prems by (auto simp: primitive_map_def ran_def)
    from Cons.IH [OF this] show ?case by simp
  qed simp
  then show "primitive_map (generic_substitutions f) \<Longrightarrow> ?thesis"
    by (simp add: with_i32_substitutions_def)
qed

lemma find_all_dependencies_graph_wf:
  assumes "find_all_dependencies g False = Some g'" and "resolved_graph g"
    and "list_all (\<lambda>f. primitive_map (generic_substitutions f)) (api_functions g)"
  shows "graph_wf g'"
proof -
  have "api_functions g' = api_functions g"
    using assms(1) by (auto simp: find_all_dependencies_collect)
  with assms(2,3) find_all_dependencies_edges [OF assms(1)] show ?thesis
    by (auto simp: graph_wf_def resolved_graph_def expected_edge_def)
qed

section \<open>No panic\<close>

lemma note_borrower_no_panic:
  assumes "fi < length (api_functions g)" and "index < length (api_functions g)"
    and "output_type (api_functions g ! index) \<noteq> None"
  shows "note_borrower g fi k index s \<noteq> None"
  using assms by (auto simp: note_borrower_def split: option.splits)

lemma borrow_check_no_panic:
  assumes "fi < length (api_functions g)" and "index < length (api_functions g)"
    and "output_type (api_functions g ! index) \<noteq> None"
  shows "borrow_check g fi ty ct k index st \<noteq> None"
  using note_borrower_no_panic [OF assms, of k "new_sequence st"] by (auto simp: borrow_check_def)

lemma satisfy_search_no_panic:
  assumes wf: "graph_wf g" and fi: "fi < length (api_functions g)"
  shows "set ks \<subseteq> {..<length (seq_functions (new_sequence st))} \<Longrightarrow> satisfy_search g fi i ty ks st \<noteq> None"
proof (induction ks arbitrary: st)
  case (Cons k ks)
  show ?case
  proof (cases "k \<in> moved_indexes st")
    case True
    with Cons show ?thesis by simp
  next
    case False
    obtain t index where f: "func (seq_functions (new_sequence st) ! k) = (t, index)" by (rule prod.exhaust)
    show ?thesis
    proof (cases "check_dependency g t index BareFunction fi i")
      case None
      with Cons False f show ?thesis by simp
    next
      case (Some d)
      note e = check_dependency_edge [OF Some]
      have "borrow_check g fi ty ct k index st' \<noteq> None" for ct st'
        using graph_wf_edge [OF wf e(2)] by (intro borrow_check_no_panic fi)
      then obtain r where r: "borrow_check g fi ty (dep_call_type (api_dependencies g ! d)) k index
          (st\<lparr>new_sequence := add_dependency (new_sequence st) d\<rparr>) = Some r" by blast
      have "satisfy_search g fi i ty ks (st\<lparr>new_sequence := add_dependency (new_sequence st) d\<rparr>) \<noteq> None"
        using Cons by (intro Cons.IH) simp
      with Cons.prems False f Some e(1) r show ?thesis by (cases r) auto
    qed
  qed
qed simp

lemma satisfy_param_no_panic:
  assumes wf: "graph_wf g" and fi: "fi < length (api_functions g)" and f: "f = api_functions g ! fi"
    and i: "i < length (inputs f)" and "n \<le> length (seq_functions (new_sequence st))"
  shows "satisfy_param g fi f n (i, inputs f ! i) st \<noteq> None"
proof -
  have ty: "(case substitute_type (generic_substitutions f) (inputs f ! i) of
      None \<Rightarrow> inputs f ! i | Some t \<Rightarrow> t) = actual_type f i" by (simp add: actual_type_def)
  have r: "resolved (actual_type f i)" using actual_type_resolved [OF wf fi] i f by simp
  have p: "primitive_subst (Some (generic_substitutions f))"
    using graph_wf_function(2) [OF wf fi] f by (simp add: primitive_subst_def primitive_map_def)
  obtain b where b: "is_fuzzable_type (graph_cache g) (full_name_map g) (Some (generic_substitutions f))
      (actual_type f i) = Some b" using is_fuzzable_type_no_panic [OF r p] by blast
  have "satisfy_fuzzable g f (actual_type f i) st \<noteq> None"
    using fuzzable_call_type_no_panic [OF r p, of "graph_cache g" "full_name_map g"]
    by (auto simp: satisfy_fuzzable_def Let_def split: prod.splits)
  moreover have "satisfy_search g fi i (actual_type f i) [0..<n] st \<noteq> None"
    using assms(5) by (intro satisfy_search_no_panic wf fi) auto
  ultimately show ?thesis using b by (simp add: satisfy_param_def ty Let_def)
qed

lemma satisfy_params_no_panic:
  assumes wf: "graph_wf g" and fi: "fi < length (api_functions g)" and f: "f = api_functions g ! fi"
  shows "sat_inv g fi s i st \<Longrightarrow> i \<le> length (inputs f) \<Longrightarrow>
    satisfy_params g fi f (seq_len s) (enumerate i (drop i (inputs f))) st \<noteq> None"
proof (induction "length (inputs f) - i" arbitrary: i st)
  case (Suc n)
  then have i: "i < length (inputs f)" by simp
  then have en: "enumerate i (drop i (inputs f)) =
      (i, inputs f ! i) # enumerate (Suc i) (drop (Suc i) (inputs f))"
    by (simp add: Cons_nth_drop_Suc [symmetric])
  have "seq_len s \<le> length (seq_functions (new_sequence st))"
    using Suc.prems(1) by (simp add: sat_inv_def sat_shape_def seq_len_def)
  with satisfy_param_no_panic [OF wf fi f i] obtain r
    where r: "satisfy_param g fi f (seq_len s) (i, inputs f ! i) st = Some r" by blast
  show ?case
  proof (cases r)
    case None
    with en r show ?thesis by simp
  next
    case (Some st1)
    with satisfy_param_inv [OF _ Suc.prems(1) fi f] r have "sat_inv g fi s (Suc i) st1" by simp
    with Suc.hyps(1) [of "Suc i" st1] Suc.hyps(2) i
    have "satisfy_params g fi f (seq_len s) (enumerate (Suc i) (drop (Suc i) (inputs f))) st1 \<noteq> None" by simp
    with en r Some show ?thesis by simp
  qed
qed simp

lemma is_fun_satisfied_no_panic:
  assumes wf: "graph_wf g" and fi: "fi < length (api_functions g)" and safe: "seq_safe g s"
  shows "is_fun_satisfied g t fi s \<noteq> None"
proof (cases t)
  case BareFunction
  let ?f = "api_functions g ! fi"
  define s2 where "s2 = (let s1 = (if is_unsafe (unsafe_tag ?f) then set_unsafe s else s) in
    case trait_full_path ?f of Some tr \<Rightarrow> add_trait s1 tr | None \<Rightarrow> s1)"
  define st0 where "st0 = \<lparr>new_sequence = s2, api_call = ApiCall_new fi, moved_indexes = moved s2,
    multi_mut = {}, immutable_borrow = {}\<rparr>"
  have "seq_functions s2 = seq_functions s" "fuzzable_params s2 = fuzzable_params s"
    "fuzzable_mut_tag s2 = fuzzable_mut_tag s" "function_mut_tag s2 = function_mut_tag s"
    "careful_pairs s2 = careful_pairs s" "moved s2 = moved s"
    by (simp_all add: s2_def Let_def split: option.splits)
  then have "sat_inv g fi s 0 st0" unfolding st0_def by (intro sat_inv_start safe)
  from satisfy_params_no_panic [OF wf fi refl this] obtain r
    where "satisfy_params g fi ?f (length (seq_functions s)) (enumerate 0 (inputs ?f)) st0 = Some r"
    by (auto simp: seq_len_def)
  then show ?thesis using BareFunction fi
    by (simp add: is_fun_satisfied_def s2_def st0_def Let_def del: not_None_eq)
qed (simp add: is_fun_satisfied_def)

end
