(* ===== verification/Graph_Search.thy ===== *)
theory Graph_Search
  imports Graph_Total
begin

text \<open>
  \<open>api_graph.rs\<close>, second part: the searches that build sequences by appending calls (\<open>bfs\<close>,
  \<open>_try_deep_bfs\<close>, \<open>random_walk\<close>) and the backward search that merges sequences to reach the
  functions not yet covered (\<open>_try_to_cover_unvisited_nodes\<close>). The state of a search is the vector
  of sequences and the vector of visited flags; the rest of the graph is not changed. The random
  numbers of \<open>random_walk\<close> are a list of numbers, each reduced to the range asked for, and the order
  in which a hash set is visited is the order of a list.

  The locale \<open>sequence_search\<close> is what the searches rely on: appending a call returns, keeps a
  sequence good and adds the function asked for. It is interpreted on \<open>is_fun_satisfied\<close>.
\<close>

type_synonym 's search_state = "'s list \<times> bool list"

section \<open>One extension\<close>

text \<open>\<open>if let Some(new_sequence) = self.is_fun_satisfied(..) { push; visited[i] = true }\<close>; \<open>ext\<close> is
  \<open>is_fun_satisfied\<close> on the graph.\<close>

definition extend_with ::
  "(nat \<Rightarrow> 's \<Rightarrow> 's option run) \<Rightarrow> 's \<Rightarrow> nat \<Rightarrow> 's search_state \<Rightarrow> 's search_state run" where
  "extend_with ext s i st = (case st of (seqs, visited) \<Rightarrow>
     do { r \<leftarrow> ext i s;
          case r of
            None \<Rightarrow> Some (seqs, visited)
          | Some s' \<Rightarrow> do { visited' \<leftarrow> update_m visited i True; Some (seqs @ [s'], visited') } })"

section \<open>Breadth-first search\<close>

definition bfs_try ::
  "(nat \<Rightarrow> 's \<Rightarrow> 's option run) \<Rightarrow> bool \<Rightarrow> 's \<Rightarrow> nat \<Rightarrow> 's search_state \<Rightarrow> 's search_state run" where
  "bfs_try ext fast_mode s i st = (case st of (seqs, visited) \<Rightarrow>
     if fast_mode then do { v \<leftarrow> index_m visited i; if v then Some st else extend_with ext s i st }
     else extend_with ext s i st)"

text \<open>The sequences of one length that are to be extended.\<close>

definition bfs_frontier :: "('s \<Rightarrow> bool run) \<Rightarrow> ('s \<Rightarrow> nat) \<Rightarrow> nat \<Rightarrow> 's list \<Rightarrow> 's list run" where
  "bfs_frontier ended len n seqs =
     map_option concat (map_m (\<lambda>s.
       do { e \<leftarrow> ended s; Some (if e then [] else if len s = n then [s] else []) }) seqs)"

definition bfs_round ::
  "(nat \<Rightarrow> 's \<Rightarrow> 's option run) \<Rightarrow> ('s \<Rightarrow> bool run) \<Rightarrow> ('s \<Rightarrow> nat) \<Rightarrow> nat \<Rightarrow> bool \<Rightarrow> nat \<Rightarrow>
   's search_state \<Rightarrow> 's search_state run" where
  "bfs_round ext ended len nfun fast_mode n st =
     do { tmp \<leftarrow> bfs_frontier ended len n (fst st);
          fold_m (\<lambda>s. fold_m (bfs_try ext fast_mode s) [0..<nfun]) tmp st }"

text \<open>The test that keeps a sequence from being extended.\<close>

definition stop_here :: "ApiGraph \<Rightarrow> bool \<Rightarrow> ApiSequence \<Rightarrow> bool run" where
  "stop_here g stop_at_end s = (if stop_at_end then is_sequence_ended g s False else Some False)"

definition bfs :: "ApiGraph \<Rightarrow> nat \<Rightarrow> bool \<Rightarrow> bool \<Rightarrow> ApiGraph run" where
  "bfs g0 max_len stop_at_end fast_mode =
     (let g = reset_visited g0 in
      if max_len < 1 then Some g
      else
        do { (seqs, visited) \<leftarrow> fold_m (bfs_round (is_fun_satisfied g BareFunction)
                (stop_here g stop_at_end) seq_len (length (api_functions g)) fast_mode) [0..<max_len]
               (api_sequences g @ [ApiSequence_new], api_functions_visited g);
             Some (g\<lparr>api_sequences := seqs, api_functions_visited := visited\<rparr>) })"

section \<open>Random walk\<close>

text \<open>The sequences, the visited flags and \<open>seq_num\<close>, the number of long sequences found.\<close>

type_synonym walk_state = "ApiSequence search_state \<times> nat"

text \<open>The end of the loop body, from the call of \<open>is_fun_satisfied\<close> on; the flag is the \<open>break\<close>.\<close>

definition walk_try ::
  "ApiGraph \<Rightarrow> nat \<Rightarrow> nat \<Rightarrow> ApiSequence \<Rightarrow> nat \<Rightarrow> walk_state \<Rightarrow> (walk_state \<times> bool) run" where
  "walk_try g max_size max_len s i st = (case st of ((seqs, visited), seq_num) \<Rightarrow>
     do { r \<leftarrow> is_fun_satisfied g BareFunction i s;
          case r of
            None \<Rightarrow> Some (st, False)
          | Some s' \<Rightarrow>
              do { visited' \<leftarrow> update_m visited i True;
                   Some (if max_len \<le> seq_len s'
                     then (((seqs @ [s'], visited'), seq_num + 1), max_size < seq_num + 1)
                     else (((seqs @ [s'], visited'), seq_num), False)) } })"

text \<open>The loop may run forever; \<open>choices\<close> are the random numbers still to come, and the flag of the
  result tells whether the loop has ended by its \<open>break\<close> before they ran out.\<close>

function (sequential) random_walk_loop ::
  "ApiGraph \<Rightarrow> nat \<Rightarrow> bool \<Rightarrow> nat \<Rightarrow> nat list \<Rightarrow> walk_state \<Rightarrow> (walk_state \<times> bool) run" where
  "random_walk_loop g max_size stop_at_end max_len (c # choices) st =
     do { s \<leftarrow> index_m (fst (fst st)) (c mod length (fst (fst st)));
          ended \<leftarrow> stop_here g stop_at_end s;
          if ended then random_walk_loop g max_size stop_at_end max_len choices st
          else (case choices of
            [] \<Rightarrow> Some (st, False)
          | c' # choices' \<Rightarrow>
              do { (st', break) \<leftarrow> walk_try g max_size max_len s (c' mod length (api_functions g)) st;
                   if break then Some (st', True)
                   else random_walk_loop g max_size stop_at_end max_len choices' st' }) }"
| "random_walk_loop g max_size stop_at_end max_len [] st = Some (st, False)"
  by pat_completeness auto
termination
  by (relation "measure (\<lambda>(g, max_size, stop, max_len, choices, st). length choices)") auto

definition random_walk :: "ApiGraph \<Rightarrow> nat \<Rightarrow> bool \<Rightarrow> nat \<Rightarrow> nat list \<Rightarrow> (ApiGraph \<times> bool) run" where
  "random_walk g0 max_size stop_at_end max_len choices =
     (let g = reset_visited (g0\<lparr>api_sequences := []\<rparr>) in
      if length (api_functions g) \<le> 0 then Some (g, True)
      else
        do { (((seqs, visited), seq_num), fin) \<leftarrow> random_walk_loop g max_size stop_at_end max_len choices
               (([ApiSequence_new], api_functions_visited g), 0);
             Some (g\<lparr>api_sequences := seqs, api_functions_visited := visited\<rparr>, fin) })"

section \<open>Fudge\<close>

text \<open>The corpus: a field between bars holds the number of occurrences, the last one the functions.
  \<open>parse::<i32>\<close> fails on no digits and on more than 31 bits, and the addition of the counts
  overflows with a panic in a debug build.\<close>

definition digit_value :: "char \<Rightarrow> nat option" where
  "digit_value c = (let n = of_char c in if 48 \<le> n \<and> n \<le> 57 then Some (n - 48) else None)"

definition is_digit :: "char \<Rightarrow> bool" where
  "is_digit c \<longleftrightarrow> digit_value c \<noteq> None"

definition number_value :: "string \<Rightarrow> nat" where
  "number_value s = fold (\<lambda>c n. 10 * n + the (digit_value c)) s 0"

definition i32_m :: "nat \<Rightarrow> nat run" where
  "i32_m n = (if n < 2 ^ 31 then Some n else None)"

definition parse_i32 :: "string \<Rightarrow> nat run" where
  "parse_i32 s = (if s = [] then None else i32_m (number_value s))"

definition parse_corpus_line :: "string \<Rightarrow> (nat \<times> string list) run" where
  "parse_corpus_line line =
     do { let fields = str_split ''|'' line;
          freq \<leftarrow> index_m fields 1;
          parsed_number \<leftarrow> parse_i32 (filter is_digit freq);
          Some (parsed_number, filter (\<lambda>x. length x > 1) (str_split '' '' (last fields))) }"

definition count_function ::
  "nat \<Rightarrow> string \<Rightarrow> (string \<rightharpoonup> nat) \<Rightarrow> (string \<rightharpoonup> nat) run" where
  "count_function n f corpus =
     (case corpus f of
        None \<Rightarrow> Some (corpus(f \<mapsto> n))
      | Some k \<Rightarrow> do { total_count \<leftarrow> i32_m (k + n); Some (corpus(f \<mapsto> total_count)) })"

definition read_corpus :: "string list \<Rightarrow> (string \<rightharpoonup> nat) run" where
  "read_corpus file = fold_m (\<lambda>line corpus.
     do { (n, fs) \<leftarrow> parse_corpus_line line; fold_m (count_function n) fs corpus }) file Map.empty"

text \<open>The loop takes at most ten million steps; a step takes two random numbers.\<close>

fun fudge_loop :: "ApiGraph \<Rightarrow> (nat \<times> nat) list \<Rightarrow> walk_state \<Rightarrow> walk_state run" where
  "fudge_loop g [] st = Some st"
| "fudge_loop g ((c, c') # choices) st =
     do { s \<leftarrow> index_m (fst (fst st)) (c mod length (fst (fst st)));
          (st', break) \<leftarrow> walk_try g 50 4 s (c' mod length (api_functions g)) st;
          if break then Some st' else fudge_loop g choices st' }"

text \<open>\<open>file\<close> is \<open>None\<close> when the file cannot be opened. The corpus is read, and then not looked at.\<close>

definition fudge :: "ApiGraph \<Rightarrow> string list option \<Rightarrow> (nat \<times> nat) list \<Rightarrow> ApiGraph run" where
  "fudge g0 file choices =
     do { content \<leftarrow> file;
          corpus \<leftarrow> read_corpus content;
          let g = reset_visited (g0\<lparr>api_sequences := []\<rparr>);
          if length (api_functions g) \<le> 0 then Some g
          else
            do { ((seqs, visited), seq_num) \<leftarrow> fudge_loop g (take 10000000 choices)
                   (([ApiSequence_new], api_functions_visited g), 0);
                 Some (g\<lparr>api_sequences := seqs, api_functions_visited := visited\<rparr>) } }"

section \<open>Deep breadth-first search\<close>

text \<open>The covered functions and edges are sets; the flag says that the round covered something new.\<close>

record deep_state =
  d_seqs :: "ApiSequence list"
  d_visited :: "bool list"
  d_nodes :: "nat set"
  d_edges :: "nat set"
  d_new :: bool

definition deep_try :: "ApiGraph \<Rightarrow> ApiSequence \<Rightarrow> nat \<Rightarrow> deep_state \<Rightarrow> deep_state run" where
  "deep_try g s i st =
     do { r \<leftarrow> is_fun_satisfied g BareFunction i s;
          case r of
            None \<Rightarrow> Some st
          | Some s' \<Rightarrow>
              do { visited' \<leftarrow> update_m (d_visited st) i True;
                   let nodes = set (get_contained_api_functions s');
                   let edges = covered_dependencies s';
                   Some (st\<lparr>d_seqs := d_seqs st @ [s'], d_visited := visited',
                            d_nodes := d_nodes st \<union> nodes, d_edges := d_edges st \<union> edges,
                            d_new := (d_new st \<or> \<not> nodes \<subseteq> d_nodes st \<or> \<not> edges \<subseteq> d_edges st)\<rparr>) } }"

fun deep_rounds :: "ApiGraph \<Rightarrow> nat \<Rightarrow> nat list \<Rightarrow> deep_state \<Rightarrow> deep_state run" where
  "deep_rounds g max_sequence_number [] st = Some st"
| "deep_rounds g max_sequence_number (n # ns) st =
     (if n > 2 \<and> length (d_seqs st) * length (filter id (d_visited st)) \<ge> max_sequence_number then Some st
      else
        do { tmp \<leftarrow> bfs_frontier (\<lambda>s. is_sequence_ended g s False) seq_len n (d_seqs st);
             st' \<leftarrow> fold_m (\<lambda>s. fold_m (deep_try g s) [0..<length (api_functions g)]) tmp
                     (st\<lparr>d_new := False\<rparr>);
             if \<not> d_new st' then Some st' else deep_rounds g max_sequence_number ns st' })"

definition try_deep_bfs :: "ApiGraph \<Rightarrow> nat \<Rightarrow> ApiGraph run" where
  "try_deep_bfs g0 max_sequence_number =
     (let g = reset_visited (g0\<lparr>api_sequences := []\<rparr>) in
      if length (api_functions g) < 1 then Some g
      else
        do { st \<leftarrow> deep_rounds g max_sequence_number [0..<length (api_functions g)]
               \<lparr>d_seqs = [ApiSequence_new], d_visited = api_functions_visited g, d_nodes = {},
                d_edges = {}, d_new = False\<rparr>;
             Some (g\<lparr>api_sequences := d_seqs st, api_functions_visited := d_visited st\<rparr>) })"

section \<open>Backward search\<close>

definition is_merge_candidate :: "ApiGraph \<Rightarrow> ApiSequence \<Rightarrow> bool run" where
  "is_merge_candidate g s =
     do { dead \<leftarrow> dead_code s;
          ended \<leftarrow> is_sequence_ended g s False;
          Some (if ended then False
            else if seq_len s \<le> 0 then False
            else if seq_len s = 1 then True
            else \<not> list_ex id (take (seq_len s - 1) dead)) }"

definition choose_candidate_sequence_for_merge :: "ApiGraph \<Rightarrow> ApiSequence list \<Rightarrow> nat list run" where
  "choose_candidate_sequence_for_merge g seqs =
     map_option concat (map_m (\<lambda>(i, s).
       do { b \<leftarrow> is_merge_candidate g s; Some (if b then [i] else []) }) (enumerate 0 seqs))"

text \<open>The search for a sequence whose last call provides parameter \<open>i\<close> of function \<open>node\<close>: the first one
  with fuzzable inputs, or else the last one. \<open>tmp\<close> is \<open>tmp_dependent_index\<close> with its flag; the
  source keeps it as an \<open>i32\<close>, which makes no difference below \<open>2 ^ 31\<close> sequences.\<close>

fun find_provider ::
  "ApiGraph \<Rightarrow> ApiSequence list \<Rightarrow> nat \<Rightarrow> nat \<Rightarrow> nat list \<Rightarrow> nat option \<Rightarrow> nat option run" where
  "find_provider g seqs node i [] tmp = Some tmp"
| "find_provider g seqs node i (c # cs) tmp =
     do { s \<leftarrow> index_m seqs c;
          last_index \<leftarrow> last_api_func_index s;
          output_index \<leftarrow> last_index;
          case check_dependency g BareFunction output_index BareFunction node i of
            None \<Rightarrow> find_provider g seqs node i cs tmp
          | Some _ \<Rightarrow> if \<not> has_no_fuzzables s then Some (Some c)
                      else find_provider g seqs node i cs (Some c) }"

text \<open>The loop over the parameters: the providers found, and whether every parameter has one.\<close>

fun find_providers ::
  "ApiGraph \<Rightarrow> ApiSequence list \<Rightarrow> nat list \<Rightarrow> nat \<Rightarrow> (nat \<times> Type) list \<Rightarrow> (nat list \<times> bool) run" where
  "find_providers g seqs cands node [] = Some ([], True)"
| "find_providers g seqs cands node ((i, ty) # ps) =
     do { fuzzable \<leftarrow> is_fuzzable_type (graph_cache g) (full_name_map g) None ty;
          if fuzzable then find_providers g seqs cands node ps
          else
            do { p \<leftarrow> find_provider g seqs node i cands None;
                 (rest, ok) \<leftarrow> find_providers g seqs cands node ps;
                 Some (case p of None \<Rightarrow> (rest, False) | Some c \<Rightarrow> (c # rest, ok)) } }"

definition cover_node ::
  "ApiGraph \<Rightarrow> nat list \<Rightarrow> nat \<Rightarrow> ApiSequence search_state \<times> nat list \<Rightarrow>
   (ApiSequence search_state \<times> nat list) run" where
  "cover_node g cands node acc = (case acc of ((seqs, visited), covered) \<Rightarrow>
     do { f \<leftarrow> index_m (api_functions g) node;
          (deps, ok) \<leftarrow> find_providers g seqs cands node (enumerate 0 (inputs f));
          if ok then
            do { ss \<leftarrow> map_m (index_m seqs) deps;
                 r \<leftarrow> is_fun_satisfied g BareFunction node (merge_sequences ss);
                 case r of
                   None \<Rightarrow> Some acc
                 | Some s' \<Rightarrow>
                     do { visited' \<leftarrow> update_m visited node True;
                          Some ((seqs @ [s'], visited'), covered @ [node]) } }
          else Some acc })"

text \<open>\<open>order\<close> is the order in which the hash set of the functions still to cover is visited.\<close>

fun cover_rounds ::
  "ApiGraph \<Rightarrow> (nat list \<Rightarrow> nat list) \<Rightarrow> nat \<Rightarrow> nat list \<Rightarrow> ApiSequence search_state \<Rightarrow>
   ApiSequence search_state run" where
  "cover_rounds g order 0 unvisited st = Some st"
| "cover_rounds g order (Suc n) unvisited st =
     do { cands \<leftarrow> choose_candidate_sequence_for_merge g (fst st);
          (st', covered) \<leftarrow> fold_m (cover_node g cands) (order unvisited) (st, []);
          if covered = [] then Some st'
          else cover_rounds g order n (filter (\<lambda>x. x \<notin> set covered) unvisited) st' }"

definition try_to_cover_unvisited_nodes :: "ApiGraph \<Rightarrow> (nat list \<Rightarrow> nat list) \<Rightarrow> ApiGraph run" where
  "try_to_cover_unvisited_nodes g order =
     do { unvisited \<leftarrow> map_option concat (map_m (\<lambda>i.
            do { v \<leftarrow> index_m (api_functions_visited g) i; Some (if v then [] else [i]) })
            [0..<length (api_functions g)]);
          (seqs, visited) \<leftarrow> cover_rounds g order (length unvisited) unvisited
            (api_sequences g, api_functions_visited g);
          Some (g\<lparr>api_sequences := seqs, api_functions_visited := visited\<rparr>) }"

end
