(* ===== verification/Search_Safety.thy ===== *)
theory Search_Safety
  imports Graph_Search
begin

text \<open>
  What the searches of \<open>api_graph.rs\<close> give. The locale \<open>sequence_search\<close> is what they rely on:
  appending a call returns, keeps a sequence good and adds the function asked for, and the test for
  the end of a sequence returns. Its lemmas say that a search returns, keeps every sequence good and
  flags as visited only functions that occur, and that breadth-first search finds exactly the
  sequences that can be built. It is interpreted on \<open>is_fun_satisfied\<close>.
\<close>

section \<open>What a search keeps\<close>

text \<open>All sequences are good and a visited function occurs in one of them.\<close>

definition search_inv :: "('s \<Rightarrow> bool) \<Rightarrow> ('s \<Rightarrow> nat list) \<Rightarrow> nat \<Rightarrow> 's search_state \<Rightarrow> bool" where
  "search_inv ok calls n st \<longleftrightarrow> list_all ok (fst st) \<and> length (snd st) = n \<and>
     (\<forall>i < n. snd st ! i \<longrightarrow> (\<exists>s \<in> set (fst st). i \<in> set (calls s)))"

text \<open>The sequences built from those of \<open>S\<close> by appending calls to sequences that are shorter than
  \<open>max_len\<close> and not ended.\<close>

inductive built ::
  "(nat \<Rightarrow> 's \<Rightarrow> 's option run) \<Rightarrow> ('s \<Rightarrow> bool run) \<Rightarrow> ('s \<Rightarrow> nat) \<Rightarrow> nat \<Rightarrow> 's set \<Rightarrow> nat \<Rightarrow> 's \<Rightarrow> bool"
  for ext ended len nfun S max_len where
  start: "s \<in> S \<Longrightarrow> built ext ended len nfun S max_len s"
| append: "built ext ended len nfun S max_len s \<Longrightarrow> len s < max_len \<Longrightarrow> ended s = Some False \<Longrightarrow>
    i < nfun \<Longrightarrow> ext i s = Some (Some s') \<Longrightarrow> built ext ended len nfun S max_len s'"

text \<open>The visited functions, and the property that all functions that occur are visited.\<close>

definition visited_set :: "'s search_state \<Rightarrow> nat set" where
  "visited_set st = {i. i < length (snd st) \<and> snd st ! i}"

definition covers :: "('s \<Rightarrow> nat list) \<Rightarrow> 's search_state \<Rightarrow> bool" where
  "covers calls st \<longleftrightarrow> (\<forall>s \<in> set (fst st). set (calls s) \<subseteq> visited_set st)"

lemma built_mono:
  "built ext ended len nfun S m s \<Longrightarrow> m \<le> m' \<Longrightarrow> built ext ended len nfun S m' s"
  by (induction rule: built.induct) (auto intro: built.intros)

section \<open>The interface of a search\<close>

locale sequence_search =
  fixes ext :: "nat \<Rightarrow> 's \<Rightarrow> 's option run" and ended :: "'s \<Rightarrow> bool run"
    and ok :: "'s \<Rightarrow> bool" and calls :: "'s \<Rightarrow> nat list" and len :: "'s \<Rightarrow> nat" and nfun :: nat
  assumes ext_returns: "ok s \<Longrightarrow> i < nfun \<Longrightarrow> ext i s \<noteq> None"
    and ext_ok: "ok s \<Longrightarrow> ext i s = Some (Some s') \<Longrightarrow> ok s'"
    and ext_calls: "ext i s = Some (Some s') \<Longrightarrow> calls s' = calls s @ [i]"
    and ended_returns: "ok s \<Longrightarrow> ended s \<noteq> None"
    and len_calls: "len s = length (calls s)"
begin

lemma extend_with_cases:
  assumes "ok s" and "i < nfun" and "length visited = nfun"
  obtains "ext i s = Some None" "extend_with ext s i (seqs, visited) = Some (seqs, visited)"
  | s' where "ext i s = Some (Some s')" "ok s'" "calls s' = calls s @ [i]"
      "extend_with ext s i (seqs, visited) = Some (seqs @ [s'], visited[i := True])"
proof -
  obtain r where r: "ext i s = Some r" using ext_returns [OF assms(1,2)] by blast
  show ?thesis
  proof (cases r)
    case None
    with r that(1) show ?thesis by (simp add: extend_with_def)
  next
    case (Some s')
    with r assms that(2) ext_ok [OF assms(1)] ext_calls show ?thesis by (simp add: extend_with_def)
  qed
qed

lemma extend_with_inv:
  assumes "search_inv ok calls nfun st" and "ok s" and "i < nfun"
  shows "\<exists>st'. extend_with ext s i st = Some st' \<and> search_inv ok calls nfun st'"
proof -
  obtain seqs visited where st: "st = (seqs, visited)" by (rule prod.exhaust)
  have "length visited = nfun" using assms(1) st by (simp add: search_inv_def)
  from assms(2,3) this show ?thesis
  proof (cases rule: extend_with_cases [where seqs = seqs])
    case 1
    with assms(1) st show ?thesis by simp
  next
    case (2 s')
    with assms(1) st have "search_inv ok calls nfun (seqs @ [s'], visited[i := True])"
      by (auto simp: search_inv_def nth_list_update)
    with 2(4) st show ?thesis by simp
  qed
qed

lemma bfs_try_inv:
  assumes "search_inv ok calls nfun st" and "ok s" and "i < nfun"
  shows "\<exists>st'. bfs_try ext fast s i st = Some st' \<and> search_inv ok calls nfun st'"
  using extend_with_inv [OF assms] assms
  by (cases st) (simp add: bfs_try_def search_inv_def)

lemma frontier_returns:
  assumes "list_all ok seqs"
  shows "bfs_frontier ended len n seqs = Some (filter (\<lambda>s. ended s = Some False \<and> len s = n) seqs)"
  using assms
proof (induction seqs)
  case (Cons s seqs)
  then obtain e where "ended s = Some e" using ended_returns [of s] by auto
  with Cons show ?case
    by (auto simp: bfs_frontier_def map_option_case split: option.splits)
qed (simp add: bfs_frontier_def)

lemma bfs_round_inv:
  assumes "search_inv ok calls nfun st"
  shows "\<exists>st'. bfs_round ext ended len nfun fast n st = Some st' \<and> search_inv ok calls nfun st'"
proof -
  let ?I = "search_inv ok calls nfun" and ?tmp = "filter (\<lambda>s. ended s = Some False \<and> len s = n) (fst st)"
  have seqs: "list_all ok (fst st)" using assms by (simp add: search_inv_def)
  have "\<exists>st'. fold_m (\<lambda>s. fold_m (bfs_try ext fast s) [0..<nfun]) ?tmp st = Some st' \<and> ?I st'"
  proof (rule fold_m_no_panic [where I = ?I, OF assms], rule fold_m_no_panic)
    show "\<exists>st'. bfs_try ext fast s i t = Some st' \<and> ?I st'"
      if "s \<in> set ?tmp" "i \<in> set [0..<nfun]" "?I t" for s i t
      using that seqs by (intro bfs_try_inv) (auto simp: list_all_iff)
  qed
  then show ?thesis by (simp add: bfs_round_def frontier_returns [OF seqs])
qed

lemma bfs_rounds_inv:
  assumes "search_inv ok calls nfun st"
  shows "\<exists>st'. fold_m (bfs_round ext ended len nfun fast) ns st = Some st' \<and> search_inv ok calls nfun st'"
  using assms by (rule fold_m_no_panic) (rule bfs_round_inv)

text \<open>All functions that occur are visited.\<close>

lemma bfs_try_covers:
  assumes "search_inv ok calls nfun st" and "ok s" and "i < nfun" and "covers calls st"
    and "set (calls s) \<subseteq> visited_set st" and "bfs_try ext fast s i st = Some st'"
  shows "covers calls st' \<and> visited_set st \<subseteq> visited_set st'"
proof -
  obtain seqs visited where st: "st = (seqs, visited)" by (rule prod.exhaust)
  have n: "length visited = nfun" using assms(1) st by (simp add: search_inv_def)
  show ?thesis
  proof (cases "fast \<and> visited ! i")
    case True
    with assms st n show ?thesis by (simp add: bfs_try_def)
  next
    case False
    with assms(6) st n assms(3) have run: "extend_with ext s i (seqs, visited) = Some st'"
      by (auto simp: bfs_try_def split: if_splits)
    from assms(2,3) n show ?thesis
    proof (cases rule: extend_with_cases [where seqs = seqs])
      case 1
      with run st assms(4) show ?thesis by simp
    next
      case (2 s')
      with run have st': "st' = (seqs @ [s'], visited[i := True])" by simp
      have "visited_set st \<subseteq> visited_set st'" "i \<in> visited_set st'"
        using st st' n assms(3) by (auto simp: visited_set_def nth_list_update)
      with assms(4,5) st st' 2(3) show ?thesis by (auto simp: covers_def)
    qed
  qed
qed

lemma bfs_round_covers:
  assumes "search_inv ok calls nfun st" and "covers calls st"
    and "bfs_round ext ended len nfun fast n st = Some st'"
  shows "covers calls st'"
proof -
  let ?tmp = "filter (\<lambda>s. ended s = Some False \<and> len s = n) (fst st)"
  let ?I = "\<lambda>t. search_inv ok calls nfun t \<and> covers calls t \<and> visited_set st \<subseteq> visited_set t"
  have seqs: "list_all ok (fst st)" using assms(1) by (simp add: search_inv_def)
  have step: "?I t'" if "s \<in> set ?tmp" "i < nfun" "?I t" "bfs_try ext fast s i t = Some t'" for s i t t'
  proof -
    have "ok s" "set (calls s) \<subseteq> visited_set st"
      using that(1) seqs assms(2) by (auto simp: list_all_iff covers_def)
    then have "ok s" "set (calls s) \<subseteq> visited_set t" using that(3) by auto
    with bfs_try_inv [of t s i fast] bfs_try_covers [of t s i fast t'] that show ?thesis by auto
  qed
  have run: "fold_m (\<lambda>s. fold_m (bfs_try ext fast s) [0..<nfun]) ?tmp st = Some st'"
    using assms(3) by (simp add: bfs_round_def frontier_returns [OF seqs])
  have "?I st'"
  proof (rule fold_m_invariant [where I = ?I, OF run])
    show "?I t'" if "s \<in> set ?tmp" "?I t" "fold_m (bfs_try ext fast s) [0..<nfun] t = Some t'" for s t t'
      by (rule fold_m_invariant [where I = ?I, OF that(3,2)], rule step [OF that(1)]) simp_all
  qed (use assms in simp)
  then show ?thesis by simp
qed

text \<open>Without the fast mode, the sequences found are those that can be built.\<close>

lemma bfs_round_collects:
  assumes "search_inv ok calls nfun st" and "bfs_round ext ended len nfun False n st = Some st'"
  shows "set (fst st') = set (fst st) \<union> {s'. \<exists>s \<in> set (fst st). \<exists>i < nfun.
    ended s = Some False \<and> len s = n \<and> ext i s = Some (Some s')}"
proof -
  let ?tmp = "filter (\<lambda>s. ended s = Some False \<and> len s = n) (fst st)"
  let ?I = "search_inv ok calls nfun" and ?A = "\<lambda>t :: 's search_state. set (fst t)"
  have seqs: "list_all ok (fst st)" using assms(1) by (simp add: search_inv_def)
  have step: "?I t' \<and> ?A t' = ?A t \<union> {s'. ext i s = Some (Some s')}"
    if "ok s" "i < nfun" "?I t" "bfs_try ext False s i t = Some t'" for s i t t'
  proof -
    obtain xs v where t: "t = (xs, v)" by (rule prod.exhaust)
    have "length v = nfun" using that(3) t by (simp add: search_inv_def)
    from that(1,2) this have "?A t' = ?A t \<union> {s'. ext i s = Some (Some s')}"
      by (cases rule: extend_with_cases [where seqs = xs]) (use that(4) t in \<open>auto simp: bfs_try_def\<close>)
    with bfs_try_inv [OF that(3,1,2), of False] that(4) show ?thesis by auto
  qed
  have inner: "?I t' \<and> ?A t' = ?A t \<union> (\<Union>i \<in> set [0..<nfun]. {s'. ext i s = Some (Some s')})"
    if s: "s \<in> set ?tmp" "?I t" "fold_m (bfs_try ext False s) [0..<nfun] t = Some t'" for s t t'
  proof
    have "ok s" using s(1) seqs by (auto simp: list_all_iff)
    then have step': "?I u' \<and> ?A u' = ?A u \<union> {s'. ext i s = Some (Some s')}"
      if "i \<in> set [0..<nfun]" "?I u" "bfs_try ext False s i u = Some u'" for i u u'
      using that by (intro step) auto
    show "?I t'" by (rule fold_m_invariant [where I = ?I, OF s(3,2)]) (use step' in blast)
    show "?A t' = ?A t \<union> (\<Union>i \<in> set [0..<nfun]. {s'. ext i s = Some (Some s')})"
      by (rule fold_m_collects [where I = ?I, OF s(3,2) step'])
  qed
  have run: "fold_m (\<lambda>s. fold_m (bfs_try ext False s) [0..<nfun]) ?tmp st = Some st'"
    using assms(2) by (simp add: bfs_round_def frontier_returns [OF seqs])
  have "?A st' = ?A st \<union> (\<Union>s \<in> set ?tmp. \<Union>i \<in> set [0..<nfun]. {s'. ext i s = Some (Some s')})"
    by (rule fold_m_collects [where I = ?I, OF run assms(1) inner])
  also have "(\<Union>s \<in> set ?tmp. \<Union>i \<in> set [0..<nfun]. {s'. ext i s = Some (Some s')}) =
      {s'. \<exists>s \<in> set (fst st). \<exists>i < nfun. ended s = Some False \<and> len s = n \<and> ext i s = Some (Some s')}"
    by (simp only: set_filter set_upt atLeastLessThan_iff UN_iff mem_Collect_eq set_eq_iff Bex_def) blast
  finally show ?thesis .
qed

lemma built_Suc:
  "built ext ended len nfun S (Suc k) s' \<longleftrightarrow> built ext ended len nfun S k s' \<or>
     (\<exists>s i. built ext ended len nfun S k s \<and> i < nfun \<and> ended s = Some False \<and> len s = k \<and>
        ext i s = Some (Some s'))" (is "?l s' \<longleftrightarrow> ?r s'")
proof
  assume "?l s'"
  then show "?r s'"
  proof (induction rule: built.induct)
    case (append s i s')
    from append.IH consider "built ext ended len nfun S k s" | "len s = Suc k"
    proof (elim disjE exE conjE)
      fix s0 i assume "len s0 = k" "ext i s0 = Some (Some s)"
      with ext_calls [of i s0 s] have "len s = Suc k" by (simp add: len_calls)
      then show ?thesis by (rule that(2))
    qed (rule that(1))
    then show ?case
    proof cases
      case 1
      with append show ?thesis
        by (cases "len s < k") (auto intro: built.append)
    next
      case 2
      with append show ?thesis by simp
    qed
  qed (simp add: built.start)
next
  assume "?r s'"
  then show "?l s'" using built_mono [of ext ended len nfun S k _ "Suc k"]
    by (auto intro: built.append)
qed

lemma built_0: "built ext ended len nfun S 0 s \<longleftrightarrow> s \<in> S"
  by (auto elim: built.cases intro: built.start)

lemma bfs_rounds_exact:
  assumes "search_inv ok calls nfun st" and "covers calls st"
  shows "\<exists>st'. fold_m (bfs_round ext ended len nfun fast) [0..<k] st = Some st' \<and>
    search_inv ok calls nfun st' \<and> covers calls st' \<and>
    (\<not> fast \<longrightarrow> set (fst st') = {s. built ext ended len nfun (set (fst st)) k s})"
proof (induction k)
  case 0
  with assms show ?case by (simp add: built_0)
next
  case (Suc k)
  then obtain t where t: "fold_m (bfs_round ext ended len nfun fast) [0..<k] st = Some t"
    "search_inv ok calls nfun t" "covers calls t"
    "\<not> fast \<longrightarrow> set (fst t) = {s. built ext ended len nfun (set (fst st)) k s}" by blast
  from bfs_round_inv [OF t(2)] obtain u
    where u: "bfs_round ext ended len nfun fast k t = Some u" "search_inv ok calls nfun u" by blast
  have "set (fst u) = {s. built ext ended len nfun (set (fst st)) (Suc k) s}" if "\<not> fast"
    using bfs_round_collects [OF t(2), of k u] u(1) t(4) that by (auto simp: built_Suc)
  with t u bfs_round_covers [OF t(2,3) u(1)] show ?case by simp
qed

end

section \<open>The parts of the graph a search reads\<close>

definition same_crate :: "ApiGraph \<Rightarrow> ApiGraph \<Rightarrow> bool" where
  "same_crate g h \<longleftrightarrow> api_functions h = api_functions g \<and> api_dependencies h = api_dependencies g \<and>
     graph_cache h = graph_cache g \<and> full_name_map h = full_name_map g"

lemma same_crate_intros [simp]:
  "same_crate g g"
  "same_crate g (reset_visited g)"
  "same_crate g (h\<lparr>api_sequences := seqs\<rparr>) = same_crate g h"
  "same_crate g (h\<lparr>api_functions_visited := v\<rparr>) = same_crate g h"
  by (simp_all add: same_crate_def reset_visited_def)

lemma same_fields:
  assumes "same_crate g h"
  shows "api_functions h = api_functions g" "api_dependencies h = api_dependencies g"
    "graph_cache h = graph_cache g" "full_name_map h = full_name_map g"
  using assms by (simp_all add: same_crate_def)

lemma same_check_dependency: "same_crate g h \<Longrightarrow> check_dependency h = check_dependency g"
  by (simp add: check_dependency_def fun_eq_iff same_fields)

lemma same_borrow_check:
  assumes "same_crate g h" shows "borrow_check h = borrow_check g"
  unfolding borrow_check_def note_borrower_def fun_eq_iff same_fields [OF assms] by simp

lemma same_satisfy_search:
  assumes "same_crate g h"
  shows "satisfy_search h fi i ty ks st = satisfy_search g fi i ty ks st"
proof (induction ks arbitrary: st)
  case (Cons k ks)
  show ?case
    unfolding satisfy_search.simps Cons.IH same_check_dependency [OF assms] same_borrow_check [OF assms]
      same_fields [OF assms] ..
qed simp

lemma same_satisfy_params:
  assumes "same_crate g h"
  shows "satisfy_params h fi f n ps st = satisfy_params g fi f n ps st"
proof (induction ps arbitrary: st)
  case (Cons p ps)
  show ?case
    unfolding satisfy_params.simps Cons.IH satisfy_param_def satisfy_fuzzable_def
      same_satisfy_search [OF assms] same_fields [OF assms] ..
qed simp

lemma same_is_fun_satisfied:
  assumes "same_crate g h" shows "is_fun_satisfied h = is_fun_satisfied g"
  unfolding is_fun_satisfied_def fun_eq_iff same_satisfy_params [OF assms] same_fields [OF assms] by simp

lemma same_is_sequence_ended:
  assumes "same_crate g h" shows "is_sequence_ended h = is_sequence_ended g"
  unfolding is_sequence_ended_def fun_eq_iff same_fields [OF assms] by simp

lemma same_stop_here: "same_crate g h \<Longrightarrow> stop_here h = stop_here g"
  by (simp add: stop_here_def fun_eq_iff same_is_sequence_ended)

lemma same_graph_wf: "same_crate g h \<Longrightarrow> graph_wf h = graph_wf g"
  by (simp add: graph_wf_def resolved_graph_def same_fields)

lemma same_seq_safe: "same_crate g h \<Longrightarrow> seq_safe h = seq_safe g"
  by (simp add: seq_safe_def calls_ok_def call_ok_def no_use_after_move_def moves_recorded_def
      moves_result_def call_kind_def call_fun_def edge_def fun_eq_iff same_fields)

lemmas same_crate_simps = same_fields same_is_fun_satisfied same_stop_here same_graph_wf same_seq_safe

section \<open>The searches on the graph\<close>

definition seq_calls :: "ApiSequence \<Rightarrow> nat list" where
  "seq_calls s = map (\<lambda>call. snd (func call)) (seq_functions s)"

lemma seq_safe_calls:
  assumes "seq_safe g s" and "i \<in> set (seq_calls s)"
  shows "i < length (api_functions g)"
proof -
  from assms(2) obtain b where "b < length (seq_functions s)" "i = snd (func (seq_functions s ! b))"
    by (metis (no_types, lifting) in_set_conv_nth length_map nth_map seq_calls_def)
  moreover from this(1) assms(1) have "call_ok g (take b (seq_functions s)) (seq_functions s ! b)"
    by (simp add: seq_safe_def calls_ok_def)
  ultimately show ?thesis by (simp add: call_ok_def)
qed

text \<open>Providing the parameters changes neither the calls before nor the function of the call.\<close>

definition same_shape :: "SatState \<Rightarrow> SatState \<Rightarrow> bool" where
  "same_shape st st' \<longleftrightarrow> seq_functions (new_sequence st') = seq_functions (new_sequence st) \<and>
     func (api_call st') = func (api_call st)"

lemma satisfy_search_shape:
  "satisfy_search g fi i ty ks st = Some (Some st') \<Longrightarrow> same_shape st st'"
proof (induction ks arbitrary: st)
  case (Cons k ks)
  have chk: "same_shape st1 (use_result ct k st2)"
    if "borrow_check g fi ty ct k index st1 = Some (Some st2)" for ct index st1 st2
    using that by (cases rule: borrow_check_cases) (auto simp: same_shape_def use_result_def Let_def)
  have dep: "same_shape (st\<lparr>new_sequence := add_dependency (new_sequence st) d\<rparr>) u \<Longrightarrow> same_shape st u"
    for d u by (simp add: same_shape_def)
  from Cons show ?case
    by (auto simp: Let_def bind_eq_Some_conv split: if_splits option.splits prod.splits
        dest!: chk dest: dep)
qed simp

lemma satisfy_params_shape:
  "satisfy_params g fi f n ps st = Some (Some st') \<Longrightarrow> same_shape st st'"
proof (induction ps arbitrary: st)
  case (Cons p ps)
  have fz: "same_shape st u" if "satisfy_fuzzable g f ty st = Some (Some u)" for ty u
    using that by (cases rule: satisfy_fuzzable_cases) (simp add: same_shape_def)
  from Cons.prems obtain u where u: "satisfy_param g fi f n p st = Some (Some u)"
    "satisfy_params g fi f n ps u = Some (Some st')"
    by (auto simp: bind_eq_Some_conv split: option.splits)
  from u(1) have "same_shape st u"
    by (auto simp: satisfy_param_def Let_def bind_eq_Some_conv split: if_splits prod.splits
        dest: fz satisfy_search_shape)
  with Cons.IH [OF u(2)] show ?case by (simp add: same_shape_def)
qed (simp add: same_shape_def)

lemma is_fun_satisfied_calls:
  assumes "is_fun_satisfied g t fi s = Some (Some s')"
  shows "seq_calls s' = seq_calls s @ [fi]"
  using assms
proof (cases rule: is_fun_satisfied_cases)
  case (1 f s2)
  then show ?thesis
    by (auto simp: seq_calls_def add_fn_def ApiCall_new_def same_shape_def dest: satisfy_params_shape)
qed

lemma stop_here_no_panic:
  assumes "graph_wf g" and "seq_safe g s"
  shows "stop_here g stop s \<noteq> None"
proof (cases "seq_functions s = []")
  case False
  then have "call_ok g (butlast (seq_functions s)) (last (seq_functions s))"
    using assms(2) calls_ok_snoc [of g "butlast (seq_functions s)" "last (seq_functions s)"]
    by (simp add: seq_safe_def)
  then have "fst (func (last (seq_functions s))) = BareFunction"
    "snd (func (last (seq_functions s))) < length (api_functions g)" by (simp_all add: call_ok_def)
  with graph_wf_function(1) [OF assms(1)] is_end_function_no_panic show ?thesis
    by (cases "func (last (seq_functions s))")
      (auto simp: stop_here_def is_sequence_ended_def simp del: not_None_eq)
qed (simp add: stop_here_def is_sequence_ended_def del: not_None_eq)

interpretation crate: sequence_search "is_fun_satisfied g BareFunction" "stop_here g stop"
  "\<lambda>s. graph_wf g \<and> seq_safe g s" seq_calls seq_len "length (api_functions g)" for g stop
proof
  show "is_fun_satisfied g BareFunction i s \<noteq> None"
    if "graph_wf g \<and> seq_safe g s" "i < length (api_functions g)" for g :: ApiGraph and s i
    using that by (intro is_fun_satisfied_no_panic) auto
  show "graph_wf g \<and> seq_safe g s'"
    if "graph_wf g \<and> seq_safe g s" "is_fun_satisfied g BareFunction i s = Some (Some s')" for g s i s'
    using that is_fun_satisfied_safe by blast
  show "stop_here g stop s \<noteq> None" if "graph_wf g \<and> seq_safe g s" for g stop s
    using that stop_here_no_panic by blast
qed (rule is_fun_satisfied_calls, assumption, simp add: seq_calls_def seq_len_def)

text \<open>The state of a search on graph \<open>g\<close> is good.\<close>

abbreviation crate_inv :: "ApiGraph \<Rightarrow> ApiSequence search_state \<Rightarrow> bool" where
  "crate_inv g \<equiv> search_inv (\<lambda>s. graph_wf g \<and> seq_safe g s) seq_calls (length (api_functions g))"

lemma crate_inv_start:
  assumes "graph_wf g" and "\<forall>s \<in> set seqs. seq_safe g s"
  shows "crate_inv g (seqs @ [ApiSequence_new], replicate (length (api_functions g)) False)"
  using assms by (simp add: search_inv_def list_all_iff empty_safe)

lemma bfs_unfold:
  assumes "max_len \<ge> 1"
  shows "bfs g max_len stop fast =
    do { (seqs, visited) \<leftarrow> fold_m (bfs_round (is_fun_satisfied g BareFunction) (stop_here g stop)
           seq_len (length (api_functions g)) fast) [0..<max_len]
           (api_sequences g @ [ApiSequence_new], replicate (length (api_functions g)) False);
         Some (g\<lparr>api_sequences := seqs, api_functions_visited := visited\<rparr>) }"
proof -
  note same = same_crate_simps [OF same_crate_intros(2) [of g]]
  show ?thesis using assms unfolding bfs_def Let_def same by (simp add: reset_visited_def)
qed

lemma bfs_result:
  assumes "graph_wf g" and "\<forall>s \<in> set (api_sequences g). seq_safe g s" and "max_len \<ge> 1"
  obtains seqs visited where
    "bfs g max_len stop fast = Some (g\<lparr>api_sequences := seqs, api_functions_visited := visited\<rparr>)"
    "crate_inv g (seqs, visited)"
    "fold_m (bfs_round (is_fun_satisfied g BareFunction) (stop_here g stop)
           seq_len (length (api_functions g)) fast) [0..<max_len]
           (api_sequences g @ [ApiSequence_new], replicate (length (api_functions g)) False)
      = Some (seqs, visited)"
proof -
  from crate.bfs_rounds_inv [OF crate_inv_start [OF assms(1,2)], of stop fast "[0..<max_len]"]
  obtain seqs visited where st: "fold_m (bfs_round (is_fun_satisfied g BareFunction) (stop_here g stop)
           seq_len (length (api_functions g)) fast) [0..<max_len]
           (api_sequences g @ [ApiSequence_new], replicate (length (api_functions g)) False)
      = Some (seqs, visited)" "crate_inv g (seqs, visited)" by auto
  then show ?thesis using bfs_unfold [OF assms(3)] by (intro that) simp_all
qed

text \<open>C2. On a well-formed graph \<open>is_fun_satisfied\<close> returns for every function and safe sequence, and
  what it returns is the sequence with a call of the function appended, which is safe again.\<close>

theorem is_fun_satisfied_correct:
  assumes "graph_wf g" and "seq_safe g s" and "fi < length (api_functions g)"
  shows "\<exists>r. is_fun_satisfied g BareFunction fi s = Some r \<and>
    (\<forall>s'. r = Some s' \<longrightarrow> seq_safe g s' \<and> seq_calls s' = seq_calls s @ [fi])"
  using is_fun_satisfied_no_panic [OF assms(1,3,2), of BareFunction] is_fun_satisfied_safe [OF assms(2)]
    is_fun_satisfied_calls by blast

lemma crate_graph_edges_wf: "graph_wf crate_graph_edges"
  by (rule find_all_dependencies_graph_wf [OF crate_graph_dependencies crate_graph_resolved])
    (simp add: crate_graph_def api_def primitive_map_def)

lemma crate_graph_edges_length: "length (api_functions crate_graph_edges) = 3"
  by (simp add: crate_graph_edges_def crate_graph_def)

lemma crate_graph_edges_sequences: "api_sequences crate_graph_edges = []"
  by (simp add: crate_graph_edges_def crate_graph_def ApiGraph_new_def)

lemma is_fun_satisfied_correct_witness:
  "\<exists>r. is_fun_satisfied crate_graph_edges BareFunction 0 ApiSequence_new = Some r \<and>
    (\<forall>s'. r = Some s' \<longrightarrow> seq_safe crate_graph_edges s' \<and>
       seq_calls s' = seq_calls ApiSequence_new @ [0])"
  by (rule is_fun_satisfied_correct [OF crate_graph_edges_wf empty_safe])
    (simp add: crate_graph_edges_length)

text \<open>Breadth-first search in any mode, started on safe sequences, returns, and all it leaves is
  safe: every parameter of every call is provided, along an edge or by a fuzzed value, no moved
  result is used again, and one call does not mix incompatible borrows of one result. A function
  flagged as visited occurs in one of the sequences, and nothing else of the graph is changed.\<close>

theorem bfs_safe:
  assumes "graph_wf g" and "\<forall>s \<in> set (api_sequences g). seq_safe g s" and "max_len \<ge> 1"
  shows "\<exists>g'. bfs g max_len stop fast = Some g' \<and>
    (\<forall>s \<in> set (api_sequences g'). seq_safe g s) \<and>
    length (api_functions_visited g') = length (api_functions g) \<and>
    (\<forall>i < length (api_functions g). api_functions_visited g' ! i \<longrightarrow>
       (\<exists>s \<in> set (api_sequences g'). i \<in> set (seq_calls s))) \<and>
    same_crate g g'"
proof -
  obtain seqs visited where
    "bfs g max_len stop fast = Some (g\<lparr>api_sequences := seqs, api_functions_visited := visited\<rparr>)"
    "crate_inv g (seqs, visited)" by (rule bfs_result [OF assms])
  then show ?thesis by (simp add: search_inv_def list_all_iff)
qed

lemma bfs_safe_witness:
  "\<exists>g'. bfs crate_graph_edges 2 True True = Some g' \<and>
    (\<forall>s \<in> set (api_sequences g'). seq_safe crate_graph_edges s) \<and>
    length (api_functions_visited g') = length (api_functions crate_graph_edges) \<and>
    (\<forall>i < length (api_functions crate_graph_edges). api_functions_visited g' ! i \<longrightarrow>
       (\<exists>s \<in> set (api_sequences g'). i \<in> set (seq_calls s))) \<and>
    same_crate crate_graph_edges g'"
  by (rule bfs_safe [OF crate_graph_edges_wf]) (simp_all add: crate_graph_edges_sequences)

text \<open>C6. Without the fast mode and from no sequences, breadth-first search leaves exactly the
  sequences that can be built by appending satisfiable calls to sequences shorter than the bound
  that are not ended; in both modes the functions flagged as visited are exactly those that occur.\<close>

theorem bfs_exact:
  assumes "graph_wf g" and "api_sequences g = []" and "max_len \<ge> 1"
  shows "\<exists>g'. bfs g max_len stop fast = Some g' \<and>
    (\<not> fast \<longrightarrow> set (api_sequences g') = {s. built (is_fun_satisfied g BareFunction) (stop_here g stop)
        seq_len (length (api_functions g)) {ApiSequence_new} max_len s}) \<and>
    (\<forall>i < length (api_functions g). api_functions_visited g' ! i \<longleftrightarrow>
       (\<exists>s \<in> set (api_sequences g'). i \<in> set (seq_calls s)))"
proof -
  have start: "crate_inv g ([ApiSequence_new], replicate (length (api_functions g)) False)"
    using crate_inv_start [OF assms(1), of "[]"] by simp
  have cov: "covers seq_calls ([ApiSequence_new], replicate (length (api_functions g)) False)"
    by (simp add: covers_def seq_calls_def ApiSequence_new_def)
  from crate.bfs_rounds_exact [OF start cov, of stop fast max_len] obtain seqs visited where
    st: "fold_m (bfs_round (is_fun_satisfied g BareFunction) (stop_here g stop) seq_len
        (length (api_functions g)) fast) [0..<max_len]
        ([ApiSequence_new], replicate (length (api_functions g)) False) = Some (seqs, visited)"
      "crate_inv g (seqs, visited)" "covers seq_calls (seqs, visited)"
      "\<not> fast \<longrightarrow> set seqs = {s. built (is_fun_satisfied g BareFunction) (stop_here g stop) seq_len
        (length (api_functions g)) {ApiSequence_new} max_len s}"
    by auto
  then have "bfs g max_len stop fast = Some (g\<lparr>api_sequences := seqs, api_functions_visited := visited\<rparr>)"
    using bfs_unfold [OF assms(3)] assms(2) by simp
  with st(2-4) show ?thesis
    by (fastforce simp: search_inv_def covers_def visited_set_def)
qed

lemma bfs_exact_witness:
  "\<exists>g'. bfs crate_graph_edges 2 True False = Some g' \<and>
    (\<not> False \<longrightarrow> set (api_sequences g') = {s. built (is_fun_satisfied crate_graph_edges BareFunction)
        (stop_here crate_graph_edges True) seq_len (length (api_functions crate_graph_edges))
        {ApiSequence_new} 2 s}) \<and>
    (\<forall>i < length (api_functions crate_graph_edges). api_functions_visited g' ! i \<longleftrightarrow>
       (\<exists>s \<in> set (api_sequences g'). i \<in> set (seq_calls s)))"
  by (rule bfs_exact [OF crate_graph_edges_wf crate_graph_edges_sequences]) simp

section \<open>Random walk\<close>

definition long_sequences :: "nat \<Rightarrow> ApiSequence list \<Rightarrow> nat" where
  "long_sequences max_len seqs = length (filter (\<lambda>s. max_len \<le> seq_len s) seqs)"

definition walk_inv :: "ApiGraph \<Rightarrow> nat \<Rightarrow> walk_state \<Rightarrow> bool" where
  "walk_inv g max_len st \<longleftrightarrow> crate_inv g (fst st) \<and> fst (fst st) \<noteq> [] \<and>
     snd st \<le> long_sequences max_len (fst (fst st))"

lemma walk_try_result:
  assumes "walk_inv g max_len st" and "graph_wf g \<and> seq_safe g s" and "i < length (api_functions g)"
  shows "\<exists>st' break. walk_try g max_size max_len s i st = Some (st', break) \<and> walk_inv g max_len st' \<and>
    (break \<longrightarrow> max_size < long_sequences max_len (fst (fst st')))"
proof -
  obtain seqs visited num where st: "st = ((seqs, visited), num)" by (metis prod.exhaust)
  have inv: "crate_inv g (seqs, visited)" and n: "length visited = length (api_functions g)"
    using assms(1) st by (simp_all add: walk_inv_def search_inv_def)
  from crate.extend_with_inv [OF inv assms(2,3)] obtain st1
    where st1: "extend_with (is_fun_satisfied g BareFunction) s i (seqs, visited) = Some st1" "crate_inv g st1"
    by blast
  from assms(2,3) n show ?thesis
  proof (cases rule: crate.extend_with_cases [where seqs = seqs])
    case 1
    with assms(1) st show ?thesis by (auto simp: walk_try_def)
  next
    case (2 s')
    with st1 have "crate_inv g (seqs @ [s'], visited[i := True])" by simp
    with 2(1) assms(1,3) n st show ?thesis
      by (auto simp: walk_try_def walk_inv_def long_sequences_def)
  qed
qed

lemma walk_choice:
  assumes "walk_inv g max_len st"
  obtains s where "index_m (fst (fst st)) (c mod length (fst (fst st))) = Some s"
    "graph_wf g \<and> seq_safe g s"
proof -
  have "c mod length (fst (fst st)) < length (fst (fst st))" using assms by (simp add: walk_inv_def)
  with assms show ?thesis by (intro that) (auto simp: walk_inv_def search_inv_def list_all_length)
qed

lemma random_walk_loop_result:
  assumes "walk_inv g max_len st" and "0 < length (api_functions g)"
  shows "\<exists>st' fin. random_walk_loop g max_size stop max_len choices st = Some (st', fin) \<and>
    walk_inv g max_len st' \<and> (fin \<longrightarrow> max_size < long_sequences max_len (fst (fst st')))"
  using assms(1)
proof (induction choices arbitrary: st rule: length_induct)
  case (1 choices)
  show ?case
  proof (cases choices)
    case Nil
    with "1.prems" show ?thesis by auto
  next
    case (Cons c rest)
    obtain s where s: "index_m (fst (fst st)) (c mod length (fst (fst st))) = Some s"
      "graph_wf g \<and> seq_safe g s" by (rule walk_choice [OF "1.prems"])
    then obtain ended where ended: "stop_here g stop s = Some ended"
      using stop_here_no_panic [of g s stop] by blast
    show ?thesis
    proof (cases "ended \<or> rest = []")
      case True
      with "1.IH" [rule_format, of rest st] "1.prems" Cons s ended show ?thesis
        by (cases ended) (auto simp del: index_m_Some)
    next
      case False
      then obtain c' rest' where rest: "rest = c' # rest'" "\<not> ended" by (auto simp: neq_Nil_conv)
      have "c' mod length (api_functions g) < length (api_functions g)" using assms(2) by simp
      from walk_try_result [OF "1.prems" s(2) this, of max_size] obtain st' break
        where t: "walk_try g max_size max_len s (c' mod length (api_functions g)) st = Some (st', break)"
          "walk_inv g max_len st'" "break \<longrightarrow> max_size < long_sequences max_len (fst (fst st'))" by blast
      with "1.IH" [rule_format, of rest' st'] Cons s rest ended show ?thesis
        by (cases break) (auto simp del: index_m_Some)
    qed
  qed
qed

lemma fudge_loop_result:
  assumes "walk_inv g 4 st" and "0 < length (api_functions g)"
  shows "\<exists>st'. fudge_loop g choices st = Some st' \<and> walk_inv g 4 st'"
  using assms(1)
proof (induction choices arbitrary: st)
  case (Cons cc choices)
  obtain c c' where cc: "cc = (c, c')" by (rule prod.exhaust)
  obtain s where s: "index_m (fst (fst st)) (c mod length (fst (fst st))) = Some s"
    "graph_wf g \<and> seq_safe g s" by (rule walk_choice [OF Cons.prems])
  have "c' mod length (api_functions g) < length (api_functions g)" using assms(2) by simp
  from walk_try_result [OF Cons.prems s(2) this, of 50] obtain st' break
    where "walk_try g 50 4 s (c' mod length (api_functions g)) st = Some (st', break)"
      "walk_inv g 4 st'" by blast
  with Cons.IH [of st'] cc s show ?case by (cases break) (simp_all del: index_m_Some)
qed simp

lemma walk_inv_start:
  "graph_wf g \<Longrightarrow> walk_inv g max_len (([ApiSequence_new], replicate (length (api_functions g)) False), 0)"
  using crate_inv_start [of g "[]"] by (simp add: walk_inv_def)

lemma random_walk_unfold:
  assumes "0 < length (api_functions g)"
  shows "random_walk g max_size stop max_len choices =
    do { (((seqs, visited), seq_num), fin) \<leftarrow> random_walk_loop (reset_visited (g\<lparr>api_sequences := []\<rparr>))
           max_size stop max_len choices (([ApiSequence_new], replicate (length (api_functions g)) False), 0);
         Some (g\<lparr>api_sequences := seqs, api_functions_visited := visited\<rparr>, fin) }"
  using assms by (simp add: random_walk_def Let_def reset_visited_def)

lemma random_walk_result:
  assumes "graph_wf g" and "0 < length (api_functions g)"
  shows "\<exists>g' fin. random_walk g max_size stop max_len choices = Some (g', fin) \<and>
    (\<forall>s \<in> set (api_sequences g'). seq_safe g s) \<and>
    (\<forall>i < length (api_functions g). api_functions_visited g' ! i \<longrightarrow>
       (\<exists>s \<in> set (api_sequences g'). i \<in> set (seq_calls s))) \<and>
    same_crate g g' \<and>
    (fin \<longrightarrow> max_size < long_sequences max_len (api_sequences g'))"
proof -
  let ?h = "reset_visited (g\<lparr>api_sequences := []\<rparr>)"
  have same: "same_crate g ?h" by (simp add: same_crate_def reset_visited_def)
  have inv: "walk_inv ?h m st = walk_inv g m st" for m st
    by (simp add: walk_inv_def search_inv_def same_crate_simps [OF same])
  have "walk_inv ?h max_len (([ApiSequence_new], replicate (length (api_functions g)) False), 0)"
    unfolding inv by (rule walk_inv_start [OF assms(1)])
  from random_walk_loop_result [OF this, of max_size stop choices] assms(2)
  obtain seqs visited num fin where "random_walk_loop ?h max_size stop max_len choices
      (([ApiSequence_new], replicate (length (api_functions g)) False), 0) = Some (((seqs, visited), num), fin)"
    "walk_inv ?h max_len ((seqs, visited), num)" "fin \<longrightarrow> max_size < long_sequences max_len seqs"
    by (auto simp: same_fields [OF same])
  then show ?thesis unfolding inv random_walk_unfold [OF assms(2)]
    by (auto simp: walk_inv_def search_inv_def list_all_iff)
qed

text \<open>C36. The random walk never panics, whatever the random numbers, and leaves safe sequences and
  visited flags that only name functions that occur. When the loop ends by itself it has found more
  than \<open>max_size\<close> sequences of at least the length asked for.\<close>

theorem random_walk_safe:
  assumes "graph_wf g" and "0 < length (api_functions g)"
  shows "\<exists>g' fin. random_walk g max_size stop max_len choices = Some (g', fin) \<and>
    (\<forall>s \<in> set (api_sequences g'). seq_safe g s) \<and>
    (\<forall>i < length (api_functions g). api_functions_visited g' ! i \<longrightarrow>
       (\<exists>s \<in> set (api_sequences g'). i \<in> set (seq_calls s))) \<and>
    same_crate g g' \<and>
    (fin \<longrightarrow> max_size < long_sequences max_len (api_sequences g'))"
  by (rule random_walk_result [OF assms])

lemma random_walk_safe_witness:
  "\<exists>g' fin. random_walk crate_graph_edges 3 True 2 [7, 8, 9] = Some (g', fin) \<and>
    (\<forall>s \<in> set (api_sequences g'). seq_safe crate_graph_edges s) \<and>
    (\<forall>i < length (api_functions crate_graph_edges). api_functions_visited g' ! i \<longrightarrow>
       (\<exists>s \<in> set (api_sequences g'). i \<in> set (seq_calls s))) \<and>
    same_crate crate_graph_edges g' \<and>
    (fin \<longrightarrow> 3 < long_sequences 2 (api_sequences g'))"
  by (rule random_walk_safe [OF crate_graph_edges_wf]) (simp add: crate_graph_edges_length)

text \<open>When no function can start a sequence, the walk makes no step.\<close>

lemma random_walk_loop_stuck:
  assumes "\<forall>i < length (api_functions g). is_fun_satisfied g BareFunction i ApiSequence_new = Some None"
    and "0 < length (api_functions g)"
  shows "random_walk_loop g max_size stop max_len choices (([ApiSequence_new], visited), num)
    = Some ((([ApiSequence_new], visited), num), False)"
proof (induction choices rule: length_induct)
  case (1 choices)
  have open_end: "stop_here g stop ApiSequence_new = Some False"
    by (simp add: stop_here_def is_sequence_ended_def ApiSequence_new_def)
  have no_step: "walk_try g max_size max_len ApiSequence_new (c mod length (api_functions g))
      (([ApiSequence_new], visited), num) = Some ((([ApiSequence_new], visited), num), False)" for c
    using assms by (simp add: walk_try_def)
  from 1 show ?case
    by (cases choices) (auto simp: open_end no_step split: list.splits)
qed

text \<open>C37. The walk does not end when no function can start a sequence: whatever random numbers are
  drawn, the loop is still running after them, with nothing found.\<close>

theorem random_walk_livelock:
  assumes "\<forall>i < length (api_functions g). is_fun_satisfied g BareFunction i ApiSequence_new = Some None"
    and "0 < length (api_functions g)"
  shows "\<exists>g'. random_walk g max_size stop max_len choices = Some (g', False) \<and>
    api_sequences g' = [ApiSequence_new]"
proof -
  let ?h = "reset_visited (g\<lparr>api_sequences := []\<rparr>)"
  have "same_crate g ?h" by (simp add: same_crate_def reset_visited_def)
  note same = same_crate_simps [OF this]
  have "random_walk_loop ?h max_size stop max_len choices (([ApiSequence_new], v), 0)
    = Some ((([ApiSequence_new], v), 0), False)" for v
    by (rule random_walk_loop_stuck) (use assms in \<open>simp_all add: same\<close>)
  then show ?thesis unfolding random_walk_unfold [OF assms(2)] by simp
qed

lemma widget_not_fuzzable: "is_fuzzable_type empty_cache core_names (Some Map.empty) widget = Some False"
  using crate_types(1) [unfolded widget_def] by (simp add: is_fuzzable_type_def widget_def)

lemma widget_substitute: "substitute_type Map.empty widget = Some widget"
  by (simp add: widget_def)

lemma random_walk_livelock_witness:
  "\<exists>g'. random_walk (crate_graph\<lparr>api_functions := [api ''krate::eat'' [widget] None]\<rparr>) 3 True 2 [7, 8, 9]
      = Some (g', False) \<and> api_sequences g' = [ApiSequence_new]"
proof (rule random_walk_livelock)
  let ?g = "crate_graph\<lparr>api_functions := [api ''krate::eat'' [widget] None]\<rparr>"
  have cm: "graph_cache crate_graph = empty_cache" "full_name_map crate_graph = core_names"
    by (simp_all add: crate_graph_def ApiGraph_new_def)
  show "\<forall>i < length (api_functions ?g). is_fun_satisfied ?g BareFunction i ApiSequence_new = Some None"
    by (simp add: is_fun_satisfied_def api_def satisfy_param_def Let_def cm widget_not_fuzzable
        widget_substitute ApiSequence_new_def)
qed simp

section \<open>A safe sequence of the example crate\<close>

text \<open>\<open>krate::new(_param0)\<close>, then \<open>krate::len(&(_local0))\<close>.\<close>

definition new_then_len :: ApiSequence where
  "new_then_len = ApiSequence_new\<lparr>
     seq_functions := [\<lparr>func = (BareFunction, 0), params = [(FuzzableParam, 0, CT_DirectCall)]\<rparr>,
                       \<lparr>func = (BareFunction, 1), params = [(FunctionReturn, 0, CT_BorrowedRef CT_DirectCall)]\<rparr>],
     fuzzable_params := [FT_Primitive P_U32]\<rparr>"

lemma new_then_len_safe: "seq_safe crate_graph_edges new_then_len"
proof -
  have fs: "api_functions crate_graph_edges = [api ''krate::new'' [T_Primitive P_U32] (Some widget),
      api ''krate::len'' [T_BorrowedRef None Not widget] (Some (T_Primitive P_Usize)),
      api ''krate::eat'' [widget] None]"
    by (simp add: crate_graph_edges_def crate_graph_def)
  let ?c0 = "\<lparr>func = (BareFunction, 0), params = [(FuzzableParam, 0, CT_DirectCall)]\<rparr> :: ApiCall"
  let ?c1 = "\<lparr>func = (BareFunction, Suc 0), params = [(FunctionReturn, 0, CT_BorrowedRef CT_DirectCall)]\<rparr> :: ApiCall"
  have calls: "seq_functions new_then_len = [?c0, ?c1]" by (simp add: new_then_len_def)
  have takes: "\<not> takes ?c0 i k ct" "takes ?c1 i k ct \<longleftrightarrow> i = 0 \<and> k = 0 \<and> ct = CT_BorrowedRef CT_DirectCall"
    for i k ct by (auto simp: takes_def)
  have kind: "call_kind crate_graph_edges ?c1 0 (CT_BorrowedRef CT_DirectCall) \<noteq> Moves"
    by (simp add: call_kind_def kind_of_def move_condition_def)
  have e: "edge crate_graph_edges (BareFunction, 0) (BareFunction, Suc 0) 0 (CT_BorrowedRef CT_DirectCall)"
    by (simp add: edge_def crate_graph_edges_def)
  have "calls_ok crate_graph_edges [?c0, ?c1]"
    by (simp add: calls_ok_def call_ok_def takes less_Suc_eq fs api_def call_fun_def e)
  then show ?thesis
    by (simp add: seq_safe_def calls moves_recorded_def no_use_after_move_def moves_result_def takes less_Suc_eq kind)
      (auto simp: new_then_len_def seq_wf_def ApiSequence_new_def param_wf_def seq_len_def careful_wf_def)
qed

end
