(* ===== verification/Cover_Search.thy ===== *)
theory Cover_Search
  imports Search_Safety
begin

text \<open>
  The remaining searches of \<open>api_graph.rs\<close> on top of \<open>sequence_search\<close>: the deep breadth-first
  search that stops when a round covers nothing new, the walk of the \<open>_Fudge\<close> mode, and the backward
  search that merges sequences to reach the functions not yet visited.
\<close>

section \<open>The functions of a sequence\<close>

lemma contained_loop_set: "set (contained_loop calls acc) = set acc \<union> set (map (snd \<circ> func) calls)"
  by (induction calls acc rule: contained_loop.induct) auto

lemma contained_loop_distinct: "distinct acc \<Longrightarrow> distinct (contained_loop calls acc)"
  by (induction calls acc rule: contained_loop.induct) auto

lemma contained_functions [simp]:
  "set (get_contained_api_functions s) = set (seq_calls s)"
  "distinct (get_contained_api_functions s)"
  by (simp_all add: get_contained_api_functions_def contained_loop_set contained_loop_distinct
      seq_calls_def comp_def)

section \<open>Deep breadth-first search\<close>

definition deep_inv :: "ApiGraph \<Rightarrow> deep_state \<Rightarrow> bool" where
  "deep_inv g st \<longleftrightarrow> crate_inv g (d_seqs st, d_visited st) \<and>
     d_nodes st = (\<Union>s \<in> set (d_seqs st). set (seq_calls s)) \<and>
     d_nodes st = {i. i < length (api_functions g) \<and> d_visited st ! i}"

lemma deep_inv_new [simp]: "deep_inv g (st\<lparr>d_new := b\<rparr>) = deep_inv g st"
  by (simp add: deep_inv_def)

lemma deep_try_inv:
  assumes "deep_inv g st" and "seq_safe g s" and "i < length (api_functions g)"
    and "set (seq_calls s) \<subseteq> d_nodes st" and "graph_wf g"
  shows "\<exists>st'. deep_try g s i st = Some st' \<and> deep_inv g st' \<and> d_nodes st \<subseteq> d_nodes st' \<and>
    (d_new st' \<longleftrightarrow> d_new st \<or> d_nodes st' \<noteq> d_nodes st \<or> d_edges st' \<noteq> d_edges st)"
proof -
  have ok: "graph_wf g \<and> seq_safe g s" using assms(2,5) by simp
  have inv: "crate_inv g (d_seqs st, d_visited st)" and n: "length (d_visited st) = length (api_functions g)"
    using assms(1) by (simp_all add: deep_inv_def search_inv_def)
  from crate.extend_with_inv [OF inv ok assms(3)] obtain st1 where
    st1: "extend_with (is_fun_satisfied g BareFunction) s i (d_seqs st, d_visited st) = Some st1"
      "crate_inv g st1" by blast
  from ok assms(3) n show ?thesis
  proof (cases rule: crate.extend_with_cases [where seqs = "d_seqs st"])
    case 1
    with assms(1) show ?thesis by (simp add: deep_try_def)
  next
    case (2 s')
    with st1 have "crate_inv g (d_seqs st @ [s'], (d_visited st)[i := True])" by simp
    with 2 assms n show ?thesis
      by (auto simp: deep_try_def deep_inv_def nth_list_update Let_def)
  qed
qed

lemma deep_round_inv:
  assumes "deep_inv g st" and "graph_wf g" and "set tmp \<subseteq> set (d_seqs st)"
  shows "\<exists>st'. fold_m (\<lambda>s. fold_m (deep_try g s) [0..<length (api_functions g)]) tmp st = Some st' \<and>
    deep_inv g st'"
proof -
  let ?I = "\<lambda>t. deep_inv g t \<and> d_nodes st \<subseteq> d_nodes t"
  have s: "seq_safe g s" "set (seq_calls s) \<subseteq> d_nodes st" if "s \<in> set tmp" for s
    using that assms(1,3) by (auto simp: deep_inv_def search_inv_def list_all_iff)
  have "\<exists>st'. fold_m (\<lambda>s. fold_m (deep_try g s) [0..<length (api_functions g)]) tmp st = Some st' \<and> ?I st'"
  proof (rule fold_m_no_panic [where I = ?I], simp add: assms(1), rule fold_m_no_panic)
    show "\<exists>u. deep_try g s i t = Some u \<and> ?I u"
      if "s \<in> set tmp" "i \<in> set [0..<length (api_functions g)]" "?I t" for s i t
      using that deep_try_inv [of g t s i] s [OF that(1)] assms(2) by fastforce
  qed
  then show ?thesis by blast
qed

lemma deep_rounds_inv:
  assumes "deep_inv g st" and "graph_wf g"
  shows "\<exists>st'. deep_rounds g m ns st = Some st' \<and> deep_inv g st'"
  using assms(1)
proof (induction ns arbitrary: st)
  case (Cons n ns)
  let ?st = "st\<lparr>d_new := False\<rparr>"
  have inv: "deep_inv g ?st" using Cons.prems by simp
  have seqs: "list_all (\<lambda>s. graph_wf g \<and> seq_safe g s) (d_seqs st)"
    using Cons.prems by (simp add: deep_inv_def search_inv_def)
  have stop: "stop_here g True = (\<lambda>s. is_sequence_ended g s False)" by (simp add: stop_here_def fun_eq_iff)
  obtain tmp where tmp: "bfs_frontier (\<lambda>s. is_sequence_ended g s False) seq_len n (d_seqs st) = Some tmp"
    "set tmp \<subseteq> set (d_seqs ?st)"
    using crate.frontier_returns [OF seqs, where stop = True, unfolded stop] by simp
  from deep_round_inv [OF inv assms(2) tmp(2)] obtain st1 where
    st1: "fold_m (\<lambda>s. fold_m (deep_try g s) [0..<length (api_functions g)]) tmp ?st = Some st1"
      "deep_inv g st1" by blast
  with Cons.IH [OF st1(2)] Cons.prems tmp(1) show ?case by simp
qed simp

lemma try_deep_bfs_result:
  assumes "graph_wf g" and "0 < length (api_functions g)"
  shows "\<exists>g'. try_deep_bfs g m = Some g' \<and> same_crate g g' \<and>
    (\<forall>s \<in> set (api_sequences g'). seq_safe g s) \<and>
    (\<forall>i < length (api_functions g). api_functions_visited g' ! i \<longleftrightarrow>
       (\<exists>s \<in> set (api_sequences g'). i \<in> set (seq_calls s)))"
proof -
  let ?h = "reset_visited (g\<lparr>api_sequences := []\<rparr>)"
  have sc: "same_crate g ?h" by (simp add: same_crate_def reset_visited_def)
  note same = same_crate_simps [OF sc]
  let ?st = "\<lparr>d_seqs = [ApiSequence_new], d_visited = replicate (length (api_functions g)) False,
    d_nodes = {}, d_edges = {}, d_new = False\<rparr>"
  have inv: "deep_inv ?h ?st"
    using crate_inv_start [OF assms(1), of "[]"]
    by (auto simp: deep_inv_def same seq_calls_def ApiSequence_new_def)
  have "graph_wf ?h" using assms(1) by (simp add: same)
  from deep_rounds_inv [OF inv this, of m "[0..<length (api_functions g)]"] obtain st where
    st: "deep_rounds ?h m [0..<length (api_functions g)] ?st = Some st" "deep_inv ?h st" by blast
  then have "try_deep_bfs g m = Some (?h\<lparr>api_sequences := d_seqs st, api_functions_visited := d_visited st\<rparr>)"
    using assms(2) by (simp add: try_deep_bfs_def Let_def reset_visited_def)
  moreover from st(2) have "crate_inv g (d_seqs st, d_visited st)"
    "(\<Union>s \<in> set (d_seqs st). set (seq_calls s)) = {i. i < length (api_functions g) \<and> d_visited st ! i}"
    unfolding deep_inv_def same by auto
  ultimately show ?thesis using sc
    by (auto simp: search_inv_def list_all_iff set_eq_iff)
qed

text \<open>The deep search returns, its sequences are safe, and the functions flagged as visited are
  exactly those that occur in a sequence.\<close>

theorem try_deep_bfs_safe:
  assumes "graph_wf g" and "0 < length (api_functions g)"
  shows "\<exists>g'. try_deep_bfs g m = Some g' \<and> same_crate g g' \<and>
    (\<forall>s \<in> set (api_sequences g'). seq_safe g s) \<and>
    (\<forall>i < length (api_functions g). api_functions_visited g' ! i \<longleftrightarrow>
       (\<exists>s \<in> set (api_sequences g'). i \<in> set (seq_calls s)))"
  by (rule try_deep_bfs_result [OF assms])

lemma try_deep_bfs_safe_witness:
  "\<exists>g'. try_deep_bfs crate_graph_edges 100 = Some g' \<and> same_crate crate_graph_edges g' \<and>
    (\<forall>s \<in> set (api_sequences g'). seq_safe crate_graph_edges s) \<and>
    (\<forall>i < length (api_functions crate_graph_edges). api_functions_visited g' ! i \<longleftrightarrow>
       (\<exists>s \<in> set (api_sequences g'). i \<in> set (seq_calls s)))"
  by (rule try_deep_bfs_safe [OF crate_graph_edges_wf]) (simp add: crate_graph_edges_length)

section \<open>Fudge\<close>

lemma fudge_result:
  assumes "graph_wf g" and "read_corpus content \<noteq> None"
  shows "\<exists>g'. fudge g (Some content) choices = Some g' \<and> same_crate g g' \<and>
    (\<forall>s \<in> set (api_sequences g'). seq_safe g s) \<and>
    fudge g (Some []) choices = Some g'"
proof -
  let ?h = "reset_visited (g\<lparr>api_sequences := []\<rparr>)"
  have sc: "same_crate g ?h" by (simp add: same_crate_def reset_visited_def)
  note same = same_crate_simps [OF sc]
  obtain corpus where c: "read_corpus content = Some corpus" "read_corpus [] = Some Map.empty"
    using assms(2) by (auto simp: read_corpus_def)
  show ?thesis
  proof (cases "length (api_functions g) \<le> 0")
    case True
    with c sc show ?thesis by (simp add: fudge_def Let_def reset_visited_def)
  next
    case False
    have inv: "walk_inv ?h 4 st = walk_inv g 4 st" for st by (simp add: walk_inv_def search_inv_def same)
    have "walk_inv ?h 4 (([ApiSequence_new], replicate (length (api_functions g)) False), 0)"
      unfolding inv by (rule walk_inv_start [OF assms(1)])
    from fudge_loop_result [OF this, of "take 10000000 choices"] False obtain seqs visited num where
      run: "fudge_loop ?h (take 10000000 choices) (([ApiSequence_new],
          replicate (length (api_functions g)) False), 0) = Some ((seqs, visited), num)"
        "walk_inv g 4 ((seqs, visited), num)" unfolding inv by (auto simp: same)
    from run(1) c False have "fudge g (Some content) choices
        = Some (?h\<lparr>api_sequences := seqs, api_functions_visited := visited\<rparr>)"
      "fudge g (Some []) choices = Some (?h\<lparr>api_sequences := seqs, api_functions_visited := visited\<rparr>)"
      by (simp_all add: fudge_def Let_def reset_visited_def)
    with run(2) sc show ?thesis by (auto simp: walk_inv_def search_inv_def list_all_iff)
  qed
qed

text \<open>Once the corpus file is read, the walk of the fudge mode returns and leaves safe sequences,
  whatever the file holds: the corpus does not influence the result.\<close>

theorem fudge_safe:
  assumes "graph_wf g" and "read_corpus content \<noteq> None"
  shows "\<exists>g'. fudge g (Some content) choices = Some g' \<and> same_crate g g' \<and>
    (\<forall>s \<in> set (api_sequences g'). seq_safe g s) \<and>
    fudge g (Some []) choices = Some g'"
  by (rule fudge_result [OF assms])

lemma fudge_safe_witness:
  "\<exists>g'. fudge crate_graph_edges (Some [''x|freq 12|krate::new krate::len'']) [(3, 4)] = Some g' \<and>
    same_crate crate_graph_edges g' \<and> (\<forall>s \<in> set (api_sequences g'). seq_safe crate_graph_edges s) \<and>
    fudge crate_graph_edges (Some []) [(3, 4)] = Some g'"
  by (rule fudge_safe [OF crate_graph_edges_wf])
    (simp add: read_corpus_def parse_corpus_line_def count_function_def parse_i32_def i32_m_def
      number_value_def digit_value_def is_digit_def str_split_def starts_with_def Let_def)

section \<open>Backward search\<close>

text \<open>A sequence whose last call may provide a parameter.\<close>

definition provider_ok :: "ApiGraph \<Rightarrow> ApiSequence list \<Rightarrow> nat \<Rightarrow> bool" where
  "provider_ok g seqs c \<longleftrightarrow> c < length seqs \<and> seq_safe g (seqs ! c) \<and> seq_functions (seqs ! c) \<noteq> []"

lemma provider_ok_append: "provider_ok g seqs c \<Longrightarrow> provider_ok g (seqs @ ts) c"
  by (auto simp: provider_ok_def nth_append)

lemma last_call_ok:
  assumes "seq_safe g s" and "seq_functions s \<noteq> []"
  obtains i where "last_api_func_index s = Some (Some i)" "i < length (api_functions g)"
    "func (last (seq_functions s)) = (BareFunction, i)"
proof -
  have "call_ok g (butlast (seq_functions s)) (last (seq_functions s))"
    using assms calls_ok_snoc [of g "butlast (seq_functions s)" "last (seq_functions s)"]
    by (simp add: seq_safe_def)
  then show ?thesis using assms(2)
    by (cases "func (last (seq_functions s))") (auto intro!: that simp: call_ok_def last_api_func_index_def seq_len_def)
qed

lemma is_merge_candidate_result:
  assumes "graph_wf g" and "seq_safe g s"
  shows "\<exists>b. is_merge_candidate g s = Some b \<and> (b \<longrightarrow> seq_functions s \<noteq> [])"
proof -
  obtain dead where "dead_code s = Some dead"
    using dead_code_fold [of 0 "length (fuzzable_params s)" "seq_functions s" "replicate (seq_len s) True"]
      assms(2) by (auto simp: dead_code_def seq_safe_def seq_wf_def seq_len_def)
  moreover obtain e where "is_sequence_ended g s False = Some e"
    using stop_here_no_panic [OF assms, of True] by (auto simp: stop_here_def)
  ultimately show ?thesis by (auto simp: is_merge_candidate_def seq_len_def)
qed

lemma candidates_result:
  assumes "graph_wf g" and "\<forall>s \<in> set seqs. seq_safe g s"
  shows "\<exists>cands. choose_candidate_sequence_for_merge g seqs = Some cands \<and>
    (\<forall>c \<in> set cands. provider_ok g seqs c)"
proof -
  let ?f = "\<lambda>(i, s). do { b \<leftarrow> is_merge_candidate g s; Some (if b then [i] else []) }"
  have "map_m ?f (enumerate 0 seqs) \<noteq> None"
  proof (rule map_m_no_panic)
    fix x assume "x \<in> set (enumerate 0 seqs)"
    moreover obtain i s where x: "x = (i, s)" by (rule prod.exhaust)
    ultimately have "seq_safe g s" using assms(2) by (auto simp: in_set_enumerate_eq)
    with x is_merge_candidate_result [OF assms(1), of s] show "?f x \<noteq> None" by auto
  qed
  then obtain iss where iss: "map_m ?f (enumerate 0 seqs) = Some iss" by blast
  have "provider_ok g seqs c" if "k < length seqs" "c \<in> set (iss ! k)" for k c
  proof -
    have safe: "seq_safe g (seqs ! k)" using assms(2) that(1) by simp
    with is_merge_candidate_result [OF assms(1)] obtain b where
      b: "is_merge_candidate g (seqs ! k) = Some b" "b \<longrightarrow> seq_functions (seqs ! k) \<noteq> []" by blast
    then have "iss ! k = (if b then [k] else [])"
      using map_m_nth [OF iss, of k] that(1) by (simp add: nth_enumerate_eq)
    with b that safe show ?thesis by (auto simp: provider_ok_def split: if_splits)
  qed
  then have "\<forall>c \<in> set (concat iss). provider_ok g seqs c"
    using map_m_length [OF iss] by (fastforce simp: in_set_conv_nth [of _ iss])
  with iss show ?thesis by (simp add: choose_candidate_sequence_for_merge_def)
qed

lemma find_provider_result:
  assumes "\<forall>c \<in> set cs. provider_ok g seqs c"
  shows "\<exists>p. find_provider g seqs node i cs tmp = Some p \<and> (p = tmp \<or> (\<exists>c \<in> set cs. p = Some c))"
  using assms
proof (induction cs arbitrary: tmp)
  case (Cons c cs)
  then have c: "seq_safe g (seqs ! c)" "seq_functions (seqs ! c) \<noteq> []" by (simp_all add: provider_ok_def)
  obtain oi where "last_api_func_index (seqs ! c) = Some (Some oi)" by (rule last_call_ok [OF c])
  with Cons.IH Cons.prems show ?case
    by (fastforce simp: provider_ok_def split: option.splits)
qed simp

lemma find_providers_result:
  assumes "\<forall>c \<in> set cands. provider_ok g seqs c" and "list_all (\<lambda>(i, t). resolved t) ps"
  shows "\<exists>deps ok. find_providers g seqs cands node ps = Some (deps, ok) \<and> set deps \<subseteq> set cands"
  using assms(2)
proof (induction ps)
  case (Cons p ps)
  obtain i t where p: "p = (i, t)" by (rule prod.exhaust)
  have "primitive_subst None" by (simp add: primitive_subst_def)
  with Cons.prems p obtain b where b: "is_fuzzable_type (graph_cache g) (full_name_map g) None t = Some b"
    using is_fuzzable_type_no_panic [of t None] by auto
  from find_provider_result [OF assms(1), of node i None] obtain q where
    q: "find_provider g seqs node i cands None = Some q" "q = None \<or> (\<exists>c \<in> set cands. q = Some c)" by blast
  from Cons obtain deps ok where "find_providers g seqs cands node ps = Some (deps, ok)"
    "set deps \<subseteq> set cands" by auto
  with b q p show ?case by (cases b) (auto split: option.splits)
qed auto

lemma merge_sequences_safe:
  assumes "\<forall>s \<in> set ss. seq_safe g s" shows "seq_safe g (merge_sequences ss)"
proof -
  have "seq_safe g s \<Longrightarrow> \<forall>t \<in> set ts. seq_safe g t \<Longrightarrow>
      seq_safe g (fold (\<lambda>t basic. merge_another_sequence basic t) ts s)" for s ts
    by (induction ts arbitrary: s) (auto intro: merge_safe)
  with assms show ?thesis by (cases ss) (auto simp: merge_sequences_def)
qed

text \<open>What a round of the backward search keeps: the state is good, the candidates stay valid, nothing
  found is lost and what is reported as covered is visited.\<close>

definition cover_inv ::
  "ApiGraph \<Rightarrow> nat list \<Rightarrow> ApiSequence search_state \<Rightarrow> ApiSequence search_state \<times> nat list \<Rightarrow> bool" where
  "cover_inv g cands st0 acc \<longleftrightarrow> crate_inv g (fst acc) \<and>
     (\<forall>c \<in> set cands. provider_ok g (fst (fst acc)) c) \<and>
     (\<exists>new. fst (fst acc) = fst st0 @ new) \<and> visited_set st0 \<subseteq> visited_set (fst acc) \<and>
     set (snd acc) \<subseteq> visited_set (fst acc)"

lemma cover_node_result:
  assumes "graph_wf g" and "cover_inv g cands st0 acc" and "node < length (api_functions g)"
  shows "\<exists>acc'. cover_node g cands node acc = Some acc' \<and> cover_inv g cands st0 acc'"
proof -
  obtain seqs visited covered where acc: "acc = ((seqs, visited), covered)" by (metis prod.exhaust)
  let ?f = "api_functions g ! node"
  have cands: "\<forall>c \<in> set cands. provider_ok g seqs c" and inv: "crate_inv g (seqs, visited)"
    and n: "length visited = length (api_functions g)"
    using assms(2) acc by (auto simp: cover_inv_def search_inv_def)
  have "list_all (\<lambda>(i, t). resolved t) (enumerate 0 (inputs ?f))"
    using graph_wf_function(1) [OF assms(1,3)]
    by (auto simp: resolved_function_def list_all_iff in_set_enumerate_eq)
  from find_providers_result [OF cands this] obtain deps ok where
    deps: "find_providers g seqs cands node (enumerate 0 (inputs ?f)) = Some (deps, ok)" "set deps \<subseteq> set cands"
    by blast
  show ?thesis
  proof (cases ok)
    case False
    with deps acc assms(2,3) show ?thesis by (simp add: cover_node_def)
  next
    case True
    have "\<forall>c \<in> set deps. provider_ok g seqs c" using cands deps(2) by auto
    then have ss: "map_m (index_m seqs) deps = Some (map ((!) seqs) deps)"
      "\<forall>s \<in> set (map ((!) seqs) deps). seq_safe g s"
      by (induction deps) (auto simp: provider_ok_def)
    let ?m = "merge_sequences (map ((!) seqs) deps)"
    have m: "graph_wf g \<and> seq_safe g ?m" using assms(1) merge_sequences_safe [OF ss(2)] by simp
    from crate.extend_with_inv [OF inv m assms(3)] obtain st1 where
      st1: "extend_with (is_fun_satisfied g BareFunction) ?m node (seqs, visited) = Some st1" "crate_inv g st1"
      by blast
    from m assms(3) n show ?thesis
    proof (cases rule: crate.extend_with_cases [where seqs = seqs])
      case 1
      with True deps ss acc assms(2,3) show ?thesis by (simp add: cover_node_def)
    next
      case (2 s')
      have "\<forall>c \<in> set cands. provider_ok g (seqs @ [s']) c" using cands provider_ok_append by blast
      then have "cover_inv g cands st0 ((seqs @ [s'], visited[node := True]), covered @ [node])"
        using st1 2(4) assms(2,3) acc n
        by (auto simp: cover_inv_def visited_set_def nth_list_update)
      with 2 True deps ss acc assms(3) n show ?thesis by (simp add: cover_node_def)
    qed
  qed
qed

lemma cover_rounds_result:
  assumes "graph_wf g" and order: "\<And>xs. set (order xs) \<subseteq> set xs"
    and "crate_inv g st" and "set unvisited \<subseteq> {..<length (api_functions g)}"
  shows "\<exists>st'. cover_rounds g order k unvisited st = Some st' \<and> crate_inv g st' \<and>
    (\<exists>new. fst st' = fst st @ new) \<and> visited_set st \<subseteq> visited_set st'"
  using assms(3,4)
proof (induction k arbitrary: unvisited st)
  case (Suc k)
  have "\<forall>s \<in> set (fst st). seq_safe g s" using Suc.prems(1) by (auto simp: search_inv_def list_all_iff)
  from candidates_result [OF assms(1) this] obtain cands where
    cands: "choose_candidate_sequence_for_merge g (fst st) = Some cands"
      "\<forall>c \<in> set cands. provider_ok g (fst st) c" by blast
  have "\<exists>acc. fold_m (cover_node g cands) (order unvisited) (st, []) = Some acc \<and> cover_inv g cands st acc"
  proof (rule fold_m_no_panic [where I = "cover_inv g cands st"])
    show "cover_inv g cands st (st, [])" using Suc.prems(1) cands(2) by (simp add: cover_inv_def)
    show "\<exists>acc'. cover_node g cands i acc = Some acc' \<and> cover_inv g cands st acc'"
      if "i \<in> set (order unvisited)" "cover_inv g cands st acc" for i acc
      using that order [of unvisited] Suc.prems(2) by (intro cover_node_result assms(1)) auto
  qed
  then obtain st1 covered where st1: "fold_m (cover_node g cands) (order unvisited) (st, []) = Some (st1, covered)"
    "crate_inv g st1" "\<exists>new. fst st1 = fst st @ new" "visited_set st \<subseteq> visited_set st1"
    by (auto simp: cover_inv_def)
  show ?case
  proof (cases "covered = []")
    case True
    with cands(1) st1 show ?thesis by simp
  next
    case False
    have "set (filter (\<lambda>x. x \<notin> set covered) unvisited) \<subseteq> {..<length (api_functions g)}"
      using Suc.prems(2) by auto
    from Suc.IH [OF st1(2) this] obtain st' where "cover_rounds g order k (filter (\<lambda>x. x \<notin> set covered) unvisited) st1 = Some st'"
        "crate_inv g st'" "\<exists>new. fst st' = fst st1 @ new" "visited_set st1 \<subseteq> visited_set st'" by blast
    with False cands(1) st1 show ?thesis by auto
  qed
qed auto

lemma cover_unvisited_result:
  assumes "graph_wf g" and "\<And>xs. set (order xs) \<subseteq> set xs"
    and "\<forall>s \<in> set (api_sequences g). seq_safe g s"
    and "length (api_functions_visited g) = length (api_functions g)"
    and "\<forall>i < length (api_functions g). api_functions_visited g ! i \<longrightarrow>
      (\<exists>s \<in> set (api_sequences g). i \<in> set (seq_calls s))"
  shows "\<exists>g' new. try_to_cover_unvisited_nodes g order = Some g' \<and> same_crate g g' \<and>
    api_sequences g' = api_sequences g @ new \<and> (\<forall>s \<in> set (api_sequences g'). seq_safe g s) \<and>
    (\<forall>i < length (api_functions g). api_functions_visited g ! i \<longrightarrow> api_functions_visited g' ! i) \<and>
    (\<forall>i < length (api_functions g). api_functions_visited g' ! i \<longrightarrow>
      (\<exists>s \<in> set (api_sequences g'). i \<in> set (seq_calls s)))"
proof -
  let ?st = "(api_sequences g, api_functions_visited g)"
  have inv: "crate_inv g ?st" using assms by (simp add: search_inv_def list_all_iff)
  have "map_m (\<lambda>i. do { v \<leftarrow> index_m (api_functions_visited g) i; Some (if v then [] else [i]) })
      [0..<length (api_functions g)]
    = map_m (\<lambda>i. Some (if api_functions_visited g ! i then [] else [i])) [0..<length (api_functions g)]"
    using assms(4) by (intro map_m_cong) auto
  then have "map_option concat (map_m (\<lambda>i.
      do { v \<leftarrow> index_m (api_functions_visited g) i; Some (if v then [] else [i]) })
      [0..<length (api_functions g)]) = Some (concat (map (\<lambda>i. if api_functions_visited g ! i then [] else [i])
        [0..<length (api_functions g)]))" (is "_ = Some ?un") by simp
  moreover have "set ?un \<subseteq> {..<length (api_functions g)}" by auto
  ultimately obtain un where un: "map_option concat (map_m (\<lambda>i.
      do { v \<leftarrow> index_m (api_functions_visited g) i; Some (if v then [] else [i]) })
      [0..<length (api_functions g)]) = Some un" "set un \<subseteq> {..<length (api_functions g)}" by blast
  from cover_rounds_result [OF assms(1,2) inv un(2), of "length un"] obtain seqs visited new where
    "cover_rounds g order (length un) un ?st = Some (seqs, visited)" "crate_inv g (seqs, visited)"
    "seqs = api_sequences g @ new" "visited_set ?st \<subseteq> visited_set (seqs, visited)" by auto
  with un(1) assms(4) show ?thesis
    by (auto simp: try_to_cover_unvisited_nodes_def search_inv_def list_all_iff visited_set_def)
qed

text \<open>C29. The backward search, in whatever order it visits the functions still to cover, returns on the
  result of a forward search; it keeps the sequences found before it and only adds safe ones, and
  a visited function stays visited and occurs in a sequence.\<close>

theorem cover_unvisited_safe:
  assumes "graph_wf g" and "\<And>xs. set (order xs) \<subseteq> set xs"
    and "\<forall>s \<in> set (api_sequences g). seq_safe g s"
    and "length (api_functions_visited g) = length (api_functions g)"
    and "\<forall>i < length (api_functions g). api_functions_visited g ! i \<longrightarrow>
      (\<exists>s \<in> set (api_sequences g). i \<in> set (seq_calls s))"
  shows "\<exists>g' new. try_to_cover_unvisited_nodes g order = Some g' \<and> same_crate g g' \<and>
    api_sequences g' = api_sequences g @ new \<and> (\<forall>s \<in> set (api_sequences g'). seq_safe g s) \<and>
    (\<forall>i < length (api_functions g). api_functions_visited g ! i \<longrightarrow> api_functions_visited g' ! i) \<and>
    (\<forall>i < length (api_functions g). api_functions_visited g' ! i \<longrightarrow>
      (\<exists>s \<in> set (api_sequences g'). i \<in> set (seq_calls s)))"
  by (rule cover_unvisited_result [OF assms])

lemma cover_unvisited_safe_witness:
  "\<exists>g' new. try_to_cover_unvisited_nodes (reset_visited crate_graph_edges) rev = Some g' \<and>
    same_crate (reset_visited crate_graph_edges) g' \<and>
    api_sequences g' = api_sequences (reset_visited crate_graph_edges) @ new \<and>
    (\<forall>s \<in> set (api_sequences g'). seq_safe (reset_visited crate_graph_edges) s) \<and>
    (\<forall>i < length (api_functions (reset_visited crate_graph_edges)).
      api_functions_visited (reset_visited crate_graph_edges) ! i \<longrightarrow> api_functions_visited g' ! i) \<and>
    (\<forall>i < length (api_functions (reset_visited crate_graph_edges)). api_functions_visited g' ! i \<longrightarrow>
      (\<exists>s \<in> set (api_sequences g'). i \<in> set (seq_calls s)))"
proof (rule cover_unvisited_safe)
  show "graph_wf (reset_visited crate_graph_edges)"
    using crate_graph_edges_wf by (simp add: same_graph_wf [OF same_crate_intros(2)])
qed (simp_all add: reset_visited_def crate_graph_edges_sequences)

end
