(* ===== verification/Graph_Choose.thy ===== *)
theory Graph_Choose
  imports Cover_Search "HOL-Library.Multiset"
begin

text \<open>
  \<open>api_graph.rs\<close>, third part: how the sequences to write out are chosen among those the searches
  found: the naive choice node by node, the random choice, the first long ones, and the greedy
  choice by newly covered functions and edges. The random numbers are lists as in the searches; the
  statistics printed at the end are left out, but not the panics their computation can raise.
\<close>

section \<open>Naive choice\<close>

definition node_candidates :: "ApiSequence list \<Rightarrow> nat \<Rightarrow> nat list" where
  "node_candidates seqs node =
     filter (\<lambda>i. node \<in> set (get_contained_api_functions (seqs ! i))) [0..<length seqs]"

text \<open>\<open>gen_range(0, 0)\<close> panics. The flag that is set is that of the position in the list of
  candidates, not that of the sequence.\<close>

fun naive_loop ::
  "ApiSequence list \<Rightarrow> nat \<Rightarrow> nat list \<Rightarrow> nat list \<Rightarrow> bool list \<Rightarrow> ApiSequence list \<Rightarrow> ApiSequence list run" where
  "naive_loop seqs 0 choices to_cover flags res = Some res"
| "naive_loop seqs (Suc k) choices to_cover flags res =
     (case to_cover of
        [] \<Rightarrow> Some res
      | node # _ \<Rightarrow>
          do { unvisited \<leftarrow> map_option concat (map_m (\<lambda>i. do { b \<leftarrow> index_m flags i;
                 Some (if b then [] else [i]) }) (node_candidates seqs node));
               if unvisited = [] then None
               else
                 do { let random_index = hd choices mod length unvisited;
                      let chosen = seqs ! (unvisited ! random_index);
                      flags' \<leftarrow> update_m flags random_index True;
                      naive_loop seqs k (tl choices)
                        (filter (\<lambda>n. n \<notin> set (get_contained_api_functions chosen)) to_cover)
                        flags' (res @ [chosen]) } })"

definition naive_choose_sequence :: "ApiGraph \<Rightarrow> nat \<Rightarrow> nat list \<Rightarrow> ApiSequence list run" where
  "naive_choose_sequence g max_sequence_size choices =
     do { to_cover \<leftarrow> map_option concat (map_m (\<lambda>i.
            do { v \<leftarrow> index_m (api_functions_visited g) i; Some (if v then [i] else []) })
            [0..<length (api_functions g)]);
          naive_loop (api_sequences g) max_sequence_size choices to_cover
            (replicate (length (api_sequences g)) False) [] }"

section \<open>Random choice\<close>

text \<open>\<open>v.remove(i)\<close>.\<close>

definition remove_at :: "nat \<Rightarrow> 'a list \<Rightarrow> 'a list" where
  "remove_at i xs = take i xs @ drop (Suc i) xs"

fun random_choose_loop ::
  "ApiSequence list \<Rightarrow> nat \<Rightarrow> nat list \<Rightarrow> nat list \<Rightarrow> ApiSequence list \<Rightarrow> ApiSequence list run" where
  "random_choose_loop seqs 0 choices indexes res = Some res"
| "random_choose_loop seqs (Suc k) choices indexes res =
     (if length indexes \<le> 0 then Some res
      else
        do { let chosen_index = hd choices mod length indexes;
             sequence_index \<leftarrow> index_m indexes chosen_index;
             s \<leftarrow> index_m seqs sequence_index;
             random_choose_loop seqs k (tl choices) (remove_at chosen_index indexes) (res @ [s]) })"

definition random_choose :: "ApiGraph \<Rightarrow> nat \<Rightarrow> nat list \<Rightarrow> ApiSequence list run" where
  "random_choose g max_size choices =
     random_choose_loop (api_sequences g) max_size choices [0..<length (api_sequences g)] []"

section \<open>First long sequences\<close>

fun first_loop :: "nat \<Rightarrow> nat \<Rightarrow> ApiSequence list \<Rightarrow> ApiSequence list \<Rightarrow> ApiSequence list" where
  "first_loop max_size max_len [] res = res"
| "first_loop max_size max_len (s # seqs) res =
     (if has_no_fuzzables s then first_loop max_size max_len seqs res
      else if seq_len s < max_len then first_loop max_size max_len seqs res
      else if length (res @ [s]) \<ge> max_size then res @ [s]
      else first_loop max_size max_len seqs (res @ [s]))"

definition first_choose :: "ApiGraph \<Rightarrow> nat \<Rightarrow> nat \<Rightarrow> ApiSequence list run" where
  "first_choose g max_size max_len =
     do { let res = first_loop max_size max_len (api_sequences g) [];
          valid \<leftarrow> map_m (contains_unsupported_fuzzable_type (graph_cache g) (full_name_map g)) (api_functions g);
          names \<leftarrow> map_m (\<lambda>i. do { f \<leftarrow> index_m (api_functions g) i; pretty_print f })
            (concat (map get_contained_api_functions res));
          Some res }"

section \<open>Greedy choice\<close>

text \<open>The best sequence of one scan: index, newly covered functions and edges, and length.\<close>

record best =
  b_index :: nat
  b_nodes :: nat
  b_edges :: nat
  b_len :: nat

definition new_nodes :: "nat set \<Rightarrow> ApiSequence \<Rightarrow> nat" where
  "new_nodes covered s = length (filter (\<lambda>n. n \<notin> covered) (get_contained_api_functions s))"

definition new_edges :: "nat set \<Rightarrow> ApiSequence \<Rightarrow> nat" where
  "new_edges covered s = card (covered_dependencies s - covered)"

text \<open>The sequences worth fuzzing.\<close>

definition is_valid_sequence :: "ApiSequence \<Rightarrow> bool run" where
  "is_valid_sequence s =
     (if has_no_fuzzables s then Some False
      else do { d \<leftarrow> contains_dead_code_except_last_one s; Some (\<not> d) })"

record choose_state =
  h_nodes :: "nat set"
  h_edges :: "nat set"
  h_chosen :: "nat list"
  h_dynamic :: bool

definition choose_scan :: "choose_state \<Rightarrow> nat \<times> ApiSequence \<Rightarrow> best \<Rightarrow> best run" where
  "choose_scan st js b = (case js of (j, s) \<Rightarrow>
     if j \<in> set (h_chosen st) then Some b
     else
       do { valid \<leftarrow> is_valid_sequence s;
            let n = new_nodes (h_nodes st) s;
            let e = new_edges (h_edges st) s;
            let l = seq_len s;
            Some (if \<not> valid then b
              else if h_dynamic st \<and> is_fuzzables_fixed_length s then b
              else if \<not> h_dynamic st \<and> \<not> is_fuzzables_fixed_length s then b
              else if n < b_nodes b then b
              else if n = b_nodes b \<and> e < b_edges b then b
              else if n > b_nodes b \<or> (n = b_nodes b \<and> e > b_edges b)
                \<or> (n = b_nodes b \<and> e = b_edges b \<and> l < b_len b)
              then \<lparr>b_index = j, b_nodes = n, b_edges = e, b_len = l\<rparr>
              else b) })"

definition no_best :: best where
  "no_best = \<lparr>b_index = 0, b_nodes = 0, b_edges = 0, b_len = 0\<rparr>"

text \<open>The loop \<open>for _ in 0..max_size + 1\<close>; the rounds still to go are the first number.\<close>

fun choose_loop ::
  "ApiGraph \<Rightarrow> bool \<Rightarrow> nat \<Rightarrow> nat \<Rightarrow> nat \<Rightarrow> choose_state \<Rightarrow> choose_state run" where
  "choose_loop g stop_at_visit_all_nodes valid_count node_count 0 st = Some st"
| "choose_loop g stop_at_visit_all_nodes valid_count node_count (Suc k) st =
     do { b \<leftarrow> fold_m (choose_scan st) (enumerate 0 (api_sequences g)) no_best;
          if h_dynamic st \<and> b_nodes b \<le> 0
          then choose_loop g stop_at_visit_all_nodes valid_count node_count k (st\<lparr>h_dynamic := False\<rparr>)
          else if \<not> h_dynamic st \<and> b_edges b \<le> 0 \<and> b_nodes b \<le> 0 then Some st
          else
            do { s \<leftarrow> index_m (api_sequences g) (b_index b);
                 let st' = st\<lparr>h_chosen := h_chosen st @ [b_index b],
                              h_nodes := h_nodes st \<union> set (get_contained_api_functions s),
                              h_edges := h_edges st \<union> covered_dependencies s\<rparr>;
                 if card (set (h_chosen st')) = valid_count then Some st'
                 else if length (api_dependencies g) \<noteq> 0
                   \<and> card (h_edges st') = length (api_dependencies g) then Some st'
                 else if stop_at_visit_all_nodes \<and> card (h_nodes st') = node_count then Some st'
                 else choose_loop g stop_at_visit_all_nodes valid_count node_count k st' } }"

definition heuristic_choose :: "ApiGraph \<Rightarrow> nat \<Rightarrow> bool \<Rightarrow> ApiSequence list run" where
  "heuristic_choose g max_size stop_at_visit_all_nodes =
     do { valid \<leftarrow> map_m is_valid_sequence (api_sequences g);
          let valid_seqs = map snd (filter fst (zip valid (api_sequences g)));
          let to_cover = (\<Union>s \<in> set valid_seqs. set (get_contained_api_functions s));
          if length valid_seqs \<le> 0 then Some []
          else
            do { st \<leftarrow> choose_loop g stop_at_visit_all_nodes (length valid_seqs) (card to_cover)
                   (max_size + 1) \<lparr>h_nodes = {}, h_edges = {}, h_chosen = [], h_dynamic = True\<rparr>;
                 unsupported \<leftarrow> map_m (contains_unsupported_fuzzable_type (graph_cache g)
                   (full_name_map g)) (api_functions g);
                 map_m (index_m (api_sequences g)) (h_chosen st) } }"

section \<open>Random choice picks without repetition\<close>

lemma mset_remove_at: "i < length xs \<Longrightarrow> mset xs = add_mset (xs ! i) (mset (remove_at i xs))"
proof -
  assume i: "i < length xs"
  then have "mset xs = mset (take i xs @ xs ! i # drop (Suc i) xs)" by (simp add: id_take_nth_drop [symmetric])
  then show ?thesis by (simp add: remove_at_def)
qed

lemma remove_at_length: "i < length xs \<Longrightarrow> length (remove_at i xs) = length xs - 1"
  by (simp add: remove_at_def)

lemma remove_at_set: "set (remove_at i xs) \<subseteq> set xs"
  by (auto simp: remove_at_def dest: in_set_takeD in_set_dropD)

lemma random_choose_loop_result:
  assumes "set indexes \<subseteq> {..<length seqs}"
  shows "\<exists>new. random_choose_loop seqs k choices indexes res = Some (res @ new) \<and>
    length new = min k (length indexes) \<and> mset new \<subseteq># mset (map ((!) seqs) indexes)"
  using assms
proof (induction seqs k choices indexes res rule: random_choose_loop.induct)
  case (2 seqs k choices indexes res)
  show ?case
  proof (cases "indexes = []")
    case False
    let ?c = "hd choices mod length indexes"
    have c: "?c < length indexes" using False by simp
    then have i: "indexes ! ?c < length seqs" using 2(2) by (metis lessThan_iff nth_mem subsetD)
    let ?s = "seqs ! (indexes ! ?c)" and ?rest = "remove_at ?c indexes"
    have "set ?rest \<subseteq> {..<length seqs}" using 2(2) remove_at_set [of ?c indexes] by blast
    from 2(1) [OF _ refl _ _ this, of "indexes ! ?c" ?s] False c i obtain new where
      new: "random_choose_loop seqs k (tl choices) ?rest (res @ [?s]) = Some ((res @ [?s]) @ new)"
        "length new = min k (length ?rest)" "mset new \<subseteq># mset (map ((!) seqs) ?rest)" by auto
    have "mset (map ((!) seqs) indexes) = add_mset ?s (mset (map ((!) seqs) ?rest))"
      by (simp add: mset_remove_at [OF c])
    moreover have "Suc (min k (length indexes - 1)) = min (Suc k) (length indexes)"
      using False by (cases indexes) simp_all
    ultimately show ?thesis using new c i False
      by (intro exI [of _ "?s # new"]) (simp add: Let_def remove_at_length [OF c])
  qed simp
qed simp

text \<open>The random choice returns as many sequences as are asked for, or all there are, and picks no
  sequence of the graph more often than it occurs there.\<close>

theorem random_choose_correct:
  "\<exists>res. random_choose g max_size choices = Some res \<and>
    length res = min max_size (length (api_sequences g)) \<and> mset res \<subseteq># mset (api_sequences g)"
proof -
  have "set [0..<length (api_sequences g)] \<subseteq> {..<length (api_sequences g)}" by auto
  from random_choose_loop_result [OF this, of max_size choices "[]"] show ?thesis
    by (simp add: random_choose_def map_nth del: mset_map mset_upt)
qed

section \<open>First long sequences\<close>

lemma first_loop_filter:
  assumes "length res < max 1 max_size"
  shows "first_loop max_size max_len seqs res = take (max 1 max_size)
    (res @ filter (\<lambda>s. \<not> has_no_fuzzables s \<and> max_len \<le> seq_len s) seqs)"
  using assms
proof (induction max_size max_len seqs res rule: first_loop.induct)
  case (2 max_size max_len s seqs res)
  then show ?case
    by (cases "max_size \<le> Suc (length res)") (auto simp: not_le max_def le_Suc_eq split: if_splits)
qed simp

lemma first_choose_filter:
  assumes "graph_wf g" and "\<forall>s \<in> set (api_sequences g). seq_safe g s"
    and "\<forall>f \<in> set (api_functions g). pretty_print f \<noteq> None"
  shows "first_choose g max_size max_len = Some (take (max 1 max_size)
    (filter (\<lambda>s. \<not> has_no_fuzzables s \<and> max_len \<le> seq_len s) (api_sequences g)))"
proof -
  let ?res = "take (max 1 max_size)
    (filter (\<lambda>s. \<not> has_no_fuzzables s \<and> max_len \<le> seq_len s) (api_sequences g))"
  have res: "first_loop max_size max_len (api_sequences g) [] = ?res" by (simp add: first_loop_filter)
  obtain valid where "map_m (contains_unsupported_fuzzable_type (graph_cache g) (full_name_map g))
      (api_functions g) = Some valid"
    using map_m_no_panic [of "api_functions g"] contains_unsupported_no_panic assms(1)
    by (metis graph_wf_def list_all_iff not_None_eq resolved_graph_def)
  moreover have "map_m (\<lambda>i. do { f \<leftarrow> index_m (api_functions g) i; pretty_print f })
      (concat (map get_contained_api_functions ?res)) \<noteq> None"
  proof (rule map_m_no_panic)
    fix i assume "i \<in> set (concat (map get_contained_api_functions ?res))"
    then obtain s where "s \<in> set ?res" "i \<in> set (seq_calls s)" by auto
    then have "s \<in> set (api_sequences g)" "i \<in> set (seq_calls s)"
      by (metis filter_is_subset in_set_takeD subsetD, simp)
    with assms(2) have "i < length (api_functions g)" by (blast intro: seq_safe_calls)
    with assms(3) show "do { f \<leftarrow> index_m (api_functions g) i; pretty_print f } \<noteq> None" by simp
  qed
  ultimately show ?thesis unfolding first_choose_def res Let_def by auto
qed

text \<open>C38. The choice of the first long sequences keeps the order and takes the first \<open>max_size\<close>
  sequences with fuzzed parameters and at least \<open>max_len\<close> calls, and one when \<open>max_size\<close> is zero. It
  returns when the signatures of the chosen functions can be printed.\<close>

theorem first_choose_correct:
  assumes "graph_wf g" and "\<forall>s \<in> set (api_sequences g). seq_safe g s"
    and "\<forall>f \<in> set (api_functions g). pretty_print f \<noteq> None"
  shows "first_choose g max_size max_len = Some (take (max 1 max_size)
    (filter (\<lambda>s. \<not> has_no_fuzzables s \<and> max_len \<le> seq_len s) (api_sequences g)))"
  using assms by (rule first_choose_filter)

lemma first_choose_correct_witness:
  "first_choose crate_graph_edges 0 2 = Some (take (max 1 0)
    (filter (\<lambda>s. \<not> has_no_fuzzables s \<and> 2 \<le> seq_len s) (api_sequences crate_graph_edges)))"
proof (rule first_choose_correct [OF crate_graph_edges_wf])
  show "\<forall>f \<in> set (api_functions crate_graph_edges). pretty_print f \<noteq> None"
    by (simp add: crate_graph_edges_def crate_graph_def api_def pretty_print_def widget_def)
qed (simp add: crate_graph_edges_sequences)

section \<open>The naive choice\<close>

text \<open>Two functions, each with a sequence of its own, the second one first.\<close>

definition swapped_graph :: ApiGraph where
  "swapped_graph = crate_graph\<lparr>api_functions := take 2 (api_functions crate_graph),
     api_functions_visited := [True, True],
     api_sequences := [add_fn ApiSequence_new (ApiCall_new 1), add_fn ApiSequence_new (ApiCall_new 0)]\<rparr>"

text \<open>The naive choice flags the wrong sequence as used: with two functions and two sequences it
  panics on an empty range although a sequence that covers the second function was never chosen.\<close>

theorem naive_choose_panics:
  "naive_choose_sequence swapped_graph 2 choices = None \<and>
   (\<Union>s \<in> set (api_sequences swapped_graph). set (seq_calls s)) = {0, 1}"
  by (simp add: naive_choose_sequence_def swapped_graph_def crate_graph_def numeral_2_eq_2
      node_candidates_def get_contained_api_functions_def add_fn_def ApiSequence_new_def
      ApiCall_new_def seq_calls_def)

section \<open>The greedy choice\<close>

definition valid_indexes :: "ApiSequence list \<Rightarrow> nat set" where
  "valid_indexes seqs = {j. j < length seqs \<and> is_valid_sequence (seqs ! j) = Some True}"

definition nodes_of :: "ApiSequence list \<Rightarrow> nat set \<Rightarrow> nat set" where
  "nodes_of seqs js = (\<Union>j \<in> js. set (get_contained_api_functions (seqs ! j)))"

definition edges_of :: "ApiSequence list \<Rightarrow> nat set \<Rightarrow> nat set" where
  "edges_of seqs js = (\<Union>j \<in> js. covered_dependencies (seqs ! j))"

text \<open>The sequences a scan looks at.\<close>

definition scanned :: "choose_state \<Rightarrow> nat \<times> ApiSequence \<Rightarrow> bool" where
  "scanned st js \<longleftrightarrow> fst js \<notin> set (h_chosen st) \<and> is_valid_sequence (snd js) = Some True \<and>
     h_dynamic st = (\<not> is_fuzzables_fixed_length (snd js))"

definition at_most :: "choose_state \<Rightarrow> ApiSequence \<Rightarrow> best \<Rightarrow> bool" where
  "at_most st s b \<longleftrightarrow> new_nodes (h_nodes st) s < b_nodes b \<or>
     (new_nodes (h_nodes st) s = b_nodes b \<and> new_edges (h_edges st) s \<le> b_edges b)"

definition best_of :: "choose_state \<Rightarrow> (nat \<times> ApiSequence) list \<Rightarrow> best \<Rightarrow> bool" where
  "best_of st xs b \<longleftrightarrow> b = no_best \<or> (\<exists>s. (b_index b, s) \<in> set xs \<and> scanned st (b_index b, s) \<and>
     b_nodes b = new_nodes (h_nodes st) s \<and> b_edges b = new_edges (h_edges st) s \<and>
     (0 < b_nodes b \<or> 0 < b_edges b))"

definition scan_inv :: "choose_state \<Rightarrow> (nat \<times> ApiSequence) list \<Rightarrow> best \<Rightarrow> bool" where
  "scan_inv st xs b \<longleftrightarrow> best_of st xs b \<and>
     (\<forall>j s. (j, s) \<in> set xs \<longrightarrow> scanned st (j, s) \<longrightarrow> at_most st s b)"

lemma scan_inv_keep:
  assumes "scan_inv st xs b" and "scanned st (j, s) \<Longrightarrow> at_most st s b"
  shows "scan_inv st (xs @ [(j, s)]) b"
  using assms by (auto simp: scan_inv_def best_of_def)

lemma scan_inv_new:
  assumes "scan_inv st xs b" and "scanned st (j, s)" and "\<not> at_most st s b \<or>
      (new_nodes (h_nodes st) s = b_nodes b \<and> new_edges (h_edges st) s = b_edges b)"
    and "0 < new_nodes (h_nodes st) s \<or> 0 < new_edges (h_edges st) s"
  shows "scan_inv st (xs @ [(j, s)]) \<lparr>b_index = j, b_nodes = new_nodes (h_nodes st) s,
    b_edges = new_edges (h_edges st) s, b_len = seq_len s\<rparr>" (is "scan_inv st _ ?b")
proof -
  have "at_most st s' ?b" if "at_most st s' b" for s' using that assms(3) by (auto simp: at_most_def)
  moreover have "at_most st s ?b" by (simp add: at_most_def)
  ultimately show ?thesis using assms(1,2,4) by (auto simp: scan_inv_def best_of_def)
qed

lemma choose_scan_scanned:
  assumes "scanned st (j, s)"
  shows "choose_scan st (j, s) b = Some (
    if at_most st s b \<and> \<not> (new_nodes (h_nodes st) s = b_nodes b \<and> new_edges (h_edges st) s = b_edges b
         \<and> seq_len s < b_len b) then b
    else \<lparr>b_index = j, b_nodes = new_nodes (h_nodes st) s, b_edges = new_edges (h_edges st) s,
          b_len = seq_len s\<rparr>)"
  using assms by (auto simp: scanned_def choose_scan_def at_most_def Let_def)

lemma scan_result:
  assumes "\<forall>(j, s) \<in> set xs. is_valid_sequence s \<noteq> None"
  shows "\<exists>b. fold_m (choose_scan st) xs no_best = Some b \<and> scan_inv st xs b"
  using assms
proof (induction xs rule: rev_induct)
  case (snoc x xs)
  then obtain b where b: "fold_m (choose_scan st) xs no_best = Some b" "scan_inv st xs b" by auto
  obtain j s where x: "x = (j, s)" by (rule prod.exhaust)
  from snoc.prems x obtain v where v: "is_valid_sequence s = Some v" by auto
  have "\<exists>b'. choose_scan st (j, s) b = Some b' \<and> scan_inv st (xs @ [(j, s)]) b'"
  proof (cases "scanned st (j, s)")
    case False
    then have "choose_scan st (j, s) b = Some b"
      using v by (auto simp: scanned_def choose_scan_def Let_def)
    with scan_inv_keep [OF b(2)] False show ?thesis by blast
  next
    case True
    note step = choose_scan_scanned [OF True, of b]
    let ?tie = "new_nodes (h_nodes st) s = b_nodes b \<and> new_edges (h_edges st) s = b_edges b"
    show ?thesis
    proof (cases "at_most st s b \<and> \<not> (?tie \<and> seq_len s < b_len b)")
      case True
      with step scan_inv_keep [OF b(2)] show ?thesis by auto
    next
      case new: False
      have "0 < new_nodes (h_nodes st) s \<or> 0 < new_edges (h_edges st) s"
        using new b(2) by (auto simp: at_most_def scan_inv_def best_of_def no_best_def)
      with new step scan_inv_new [OF b(2) True] show ?thesis by auto
    qed
  qed
  with b(1) x show ?case by auto
qed (simp add: scan_inv_def best_of_def)

text \<open>The loop: the chosen sequences are valid and distinct, what is covered is what they cover, and once
  the sequences of dynamic length are given up they add no function.\<close>

definition choose_inv :: "ApiSequence list \<Rightarrow> choose_state \<Rightarrow> bool" where
  "choose_inv seqs st \<longleftrightarrow> distinct (h_chosen st) \<and> set (h_chosen st) \<subseteq> valid_indexes seqs \<and>
     h_nodes st = nodes_of seqs (set (h_chosen st)) \<and> h_edges st = edges_of seqs (set (h_chosen st)) \<and>
     (\<not> h_dynamic st \<longrightarrow> (\<forall>j \<in> valid_indexes seqs. \<not> is_fuzzables_fixed_length (seqs ! j) \<longrightarrow>
        set (get_contained_api_functions (seqs ! j)) \<subseteq> h_nodes st))"

text \<open>Everything worth covering is covered: all functions of valid sequences, or all edges.\<close>

definition choose_done :: "ApiGraph \<Rightarrow> choose_state \<Rightarrow> bool" where
  "choose_done g st \<longleftrightarrow>
     h_nodes st = nodes_of (api_sequences g) (valid_indexes (api_sequences g)) \<or>
     card (h_edges st) = length (api_dependencies g)"

lemma finite_valid [simp]: "finite (valid_indexes seqs)"
  by (simp add: valid_indexes_def)

lemma new_nodes_0: "new_nodes c s = 0 \<longleftrightarrow> set (get_contained_api_functions s) \<subseteq> c"
  by (auto simp: new_nodes_def filter_empty_conv)

lemma choose_inv_sub: "choose_inv seqs st \<Longrightarrow> h_nodes st \<subseteq> nodes_of seqs (valid_indexes seqs)"
  by (auto simp: choose_inv_def nodes_of_def)

lemma choose_inv_all:
  assumes "choose_inv seqs st" and "card (valid_indexes seqs) \<le> length (h_chosen st)"
  shows "h_nodes st = nodes_of seqs (valid_indexes seqs)"
proof -
  have "card (valid_indexes seqs) \<le> card (set (h_chosen st))"
    using assms by (simp add: choose_inv_def distinct_card)
  with assms(1) have "set (h_chosen st) = valid_indexes seqs"
    by (intro card_seteq) (simp_all add: choose_inv_def)
  with assms(1) show ?thesis by (simp add: choose_inv_def)
qed

lemma choose_inv_scanned:
  assumes "choose_inv seqs st" and "scan_inv st (enumerate 0 seqs) b" and "b_nodes b = 0"
    and "j \<in> valid_indexes seqs" and "h_dynamic st = (\<not> is_fuzzables_fixed_length (seqs ! j))"
  shows "set (get_contained_api_functions (seqs ! j)) \<subseteq> h_nodes st"
proof (cases "j \<in> set (h_chosen st)")
  case True
  with assms(1) show ?thesis by (auto simp: choose_inv_def nodes_of_def)
next
  case False
  have "(j, seqs ! j) \<in> set (enumerate 0 seqs)" "scanned st (j, seqs ! j)"
    using False assms(4,5) by (auto simp: scanned_def valid_indexes_def in_set_enumerate_eq)
  with assms(2,3) have "new_nodes (h_nodes st) (seqs ! j) = 0"
    by (auto simp: scan_inv_def at_most_def)
  then show ?thesis by (simp add: new_nodes_0)
qed

lemma choose_step:
  assumes "choose_inv seqs st" and "scan_inv st (enumerate 0 seqs) b" and "0 < b_nodes b \<or> 0 < b_edges b"
  shows "b_index b < length seqs" and "choose_inv seqs (st\<lparr>h_chosen := h_chosen st @ [b_index b],
      h_nodes := h_nodes st \<union> set (get_contained_api_functions (seqs ! b_index b)),
      h_edges := h_edges st \<union> covered_dependencies (seqs ! b_index b)\<rparr>)"
proof -
  from assms(2,3) obtain s where "(b_index b, s) \<in> set (enumerate 0 seqs)" "scanned st (b_index b, s)"
    by (auto simp: scan_inv_def best_of_def no_best_def)
  then have b: "b_index b \<in> valid_indexes seqs" "b_index b \<notin> set (h_chosen st)"
    by (auto simp: scanned_def valid_indexes_def in_set_enumerate_eq)
  then show "b_index b < length seqs" by (simp add: valid_indexes_def)
  show "choose_inv seqs (st\<lparr>h_chosen := h_chosen st @ [b_index b],
      h_nodes := h_nodes st \<union> set (get_contained_api_functions (seqs ! b_index b)),
      h_edges := h_edges st \<union> covered_dependencies (seqs ! b_index b)\<rparr>)"
    using b assms(1) unfolding choose_inv_def by (simp add: nodes_of_def edges_of_def) blast
qed

text \<open>The choice of the best sequence, and when the loop stops after it.\<close>

definition choose_pick :: "ApiSequence list \<Rightarrow> choose_state \<Rightarrow> best \<Rightarrow> choose_state" where
  "choose_pick seqs st b = st\<lparr>h_chosen := h_chosen st @ [b_index b],
     h_nodes := h_nodes st \<union> set (get_contained_api_functions (seqs ! b_index b)),
     h_edges := h_edges st \<union> covered_dependencies (seqs ! b_index b)\<rparr>"

definition choose_stops :: "ApiGraph \<Rightarrow> bool \<Rightarrow> choose_state \<Rightarrow> bool" where
  "choose_stops g stop st \<longleftrightarrow> (let seqs = api_sequences g in
     card (set (h_chosen st)) = card (valid_indexes seqs) \<or>
     length (api_dependencies g) \<noteq> 0 \<and> card (h_edges st) = length (api_dependencies g) \<or>
     stop \<and> card (h_nodes st) = card (nodes_of seqs (valid_indexes seqs)))"

lemma choose_stops_done:
  assumes inv: "choose_inv (api_sequences g) st" and "choose_stops g stop st"
  shows "choose_done g st"
  using assms(2) unfolding choose_stops_def Let_def
proof (elim disjE conjE)
  assume "card (set (h_chosen st)) = card (valid_indexes (api_sequences g))"
  with choose_inv_all [OF inv] inv show ?thesis by (simp add: choose_done_def choose_inv_def distinct_card)
next
  have fin: "finite (nodes_of (api_sequences g) (valid_indexes (api_sequences g)))" by (simp add: nodes_of_def)
  assume "card (h_nodes st) = card (nodes_of (api_sequences g) (valid_indexes (api_sequences g)))"
  with card_subset_eq [OF fin choose_inv_sub [OF inv]] show ?thesis by (simp add: choose_done_def)
qed (simp add: choose_done_def)

lemma choose_loop_pick:
  fixes g :: ApiGraph
  defines "seqs \<equiv> api_sequences g"
  assumes "fold_m (choose_scan st) (enumerate 0 seqs) no_best = Some b" and "b_index b < length seqs"
    and "\<not> (h_dynamic st \<and> b_nodes b \<le> 0)" and "\<not> (\<not> h_dynamic st \<and> b_edges b \<le> 0 \<and> b_nodes b \<le> 0)"
  shows "choose_loop g stop (card (valid_indexes seqs)) (card (nodes_of seqs (valid_indexes seqs))) (Suc k) st =
    (if choose_stops g stop (choose_pick seqs st b) then Some (choose_pick seqs st b)
     else choose_loop g stop (card (valid_indexes seqs)) (card (nodes_of seqs (valid_indexes seqs))) k (choose_pick seqs st b))"
  unfolding choose_loop.simps assms(2) [unfolded seqs_def] bind.bind_lunit if_not_P [OF assms(4)] if_not_P [OF assms(5)]
  using assms(3) by (simp add: Let_def choose_pick_def choose_stops_def seqs_def)

lemma choose_loop_result:
  fixes g :: ApiGraph
  defines "seqs \<equiv> api_sequences g"
  assumes valid: "\<forall>s \<in> set seqs. is_valid_sequence s \<noteq> None" and "choose_inv seqs st"
  shows "\<exists>st'. choose_loop g stop (card (valid_indexes seqs)) (card (nodes_of seqs (valid_indexes seqs))) k st
      = Some st' \<and> choose_inv seqs st' \<and> length (h_chosen st') \<le> length (h_chosen st) + k \<and>
    (card (valid_indexes seqs) + (if h_dynamic st then 1 else 0) \<le> length (h_chosen st) + k \<longrightarrow>
       choose_done g st')"
  using assms(3)
proof (induction k arbitrary: st)
  case 0
  with choose_inv_all [of seqs st] show ?case by (auto simp: choose_done_def seqs_def split: if_splits)
next
  case (Suc k)
  note inv = Suc.prems
  have "\<forall>(j, s) \<in> set (enumerate 0 seqs). is_valid_sequence s \<noteq> None"
    using valid by (auto simp: in_set_enumerate_eq)
  from scan_result [OF this] obtain b where
    b: "fold_m (choose_scan st) (enumerate 0 seqs) no_best = Some b" "scan_inv st (enumerate 0 seqs) b" by blast
  note cov = choose_inv_scanned [OF inv b(2)]
  consider (switch) "h_dynamic st" "b_nodes b = 0"
    | (stuck) "\<not> h_dynamic st" "b_nodes b = 0" "b_edges b = 0"
    | (pick) "\<not> (h_dynamic st \<and> b_nodes b \<le> 0)"
        "\<not> (\<not> h_dynamic st \<and> b_edges b \<le> 0 \<and> b_nodes b \<le> 0)" by auto
  then show ?case
  proof cases
    case switch
    have "choose_inv seqs (st\<lparr>h_dynamic := False\<rparr>)"
      using inv cov switch by (simp add: choose_inv_def)
    from Suc.IH [OF this] switch b(1) show ?thesis by (simp add: seqs_def) (metis add_Suc_right le_SucI)
  next
    case stuck
    have "h_nodes st = nodes_of seqs (valid_indexes seqs)"
      using choose_inv_sub [OF inv] cov stuck inv
      by (fastforce simp: nodes_of_def choose_inv_def)
    with stuck inv b(1) show ?thesis by (simp add: choose_done_def seqs_def)
  next
    case pick
    let ?st = "choose_pick seqs st b"
    have bi: "b_index b < length seqs" and inv': "choose_inv seqs ?st"
      using choose_step [OF inv b(2)] pick unfolding choose_pick_def by auto
    have len: "length (h_chosen ?st) = Suc (length (h_chosen st))" "h_dynamic ?st = h_dynamic st"
      by (simp_all add: choose_pick_def)
    note run = choose_loop_pick [OF b(1) [unfolded seqs_def] bi [unfolded seqs_def] pick, folded seqs_def, of stop k]
    show ?thesis
    proof (cases "choose_stops g stop ?st")
      case True
      with choose_stops_done [of g ?st stop] inv' run len show ?thesis by (simp del: choose_loop.simps add: seqs_def)
    next
      case False
      from Suc.IH [OF inv'] run [unfolded if_not_P [OF False]] len show ?thesis by (simp del: choose_loop.simps)
    qed
  qed
qed

lemma is_valid_sequence_returns:
  assumes "seq_wf s" shows "is_valid_sequence s \<noteq> None"
proof -
  obtain dead where "dead_code s = Some dead"
    using dead_code_fold [of 0 "length (fuzzable_params s)" "seq_functions s" "replicate (seq_len s) True"]
      assms by (auto simp: dead_code_def seq_wf_def seq_len_def)
  then show ?thesis
    by (simp add: is_valid_sequence_def contains_dead_code_except_last_one_def del: not_None_eq)
qed

lemma valid_sequences_count:
  assumes "map_m is_valid_sequence seqs = Some valid"
  shows "length (map snd (filter fst (zip valid seqs))) = card (valid_indexes seqs)"
    and "(\<Union>s \<in> set (map snd (filter fst (zip valid seqs))). set (get_contained_api_functions s))
      = nodes_of seqs (valid_indexes seqs)"
proof -
  have len: "length valid = length seqs" by (rule map_m_length [OF assms])
  have nth: "is_valid_sequence (seqs ! j) = Some (valid ! j)" if "j < length seqs" for j
    by (rule map_m_nth [OF assms that])
  have ix: "valid_indexes seqs = {j. j < length (zip valid seqs) \<and> fst (zip valid seqs ! j)}"
    using nth len by (auto simp: valid_indexes_def)
  then show "length (map snd (filter fst (zip valid seqs))) = card (valid_indexes seqs)"
    by (simp add: length_filter_conv_card)
  show "(\<Union>s \<in> set (map snd (filter fst (zip valid seqs))). set (get_contained_api_functions s))
      = nodes_of seqs (valid_indexes seqs)"
    unfolding ix nodes_of_def by (fastforce simp: in_set_conv_nth)
qed

lemma heuristic_choose_result:
  assumes "graph_wf g" and "\<forall>s \<in> set (api_sequences g). seq_safe g s"
  shows "\<exists>js. heuristic_choose g max_size stop = Some (map ((!) (api_sequences g)) js) \<and> distinct js \<and>
    set js \<subseteq> valid_indexes (api_sequences g) \<and> length js \<le> max_size + 1 \<and>
    (card (valid_indexes (api_sequences g)) \<le> max_size \<longrightarrow>
       nodes_of (api_sequences g) (set js)
         = nodes_of (api_sequences g) (valid_indexes (api_sequences g)) \<or>
       card (edges_of (api_sequences g) (set js)) = length (api_dependencies g))"
proof -
  let ?seqs = "api_sequences g"
  have "\<forall>s \<in> set ?seqs. is_valid_sequence s \<noteq> None"
    using assms(2) is_valid_sequence_returns by (auto simp: seq_safe_def simp del: not_None_eq)
  note valid = this
  then obtain vs where vs: "map_m is_valid_sequence ?seqs = Some vs"
    using map_m_no_panic [of ?seqs is_valid_sequence] by blast
  note count = valid_sequences_count [OF vs]
  let ?st = "\<lparr>h_nodes = {}, h_edges = {}, h_chosen = [], h_dynamic = True\<rparr>"
  have "choose_inv ?seqs ?st" by (simp add: choose_inv_def nodes_of_def edges_of_def)
  from choose_loop_result [OF valid this, of stop "max_size + 1"] obtain st where
    st: "choose_loop g stop (card (valid_indexes ?seqs)) (card (nodes_of ?seqs (valid_indexes ?seqs)))
        (max_size + 1) ?st = Some st" "choose_inv ?seqs st" "length (h_chosen st) \<le> max_size + 1"
      "card (valid_indexes ?seqs) \<le> max_size \<longrightarrow> choose_done g st" by auto
  have js: "map_m (index_m ?seqs) (h_chosen st) = Some (map ((!) ?seqs) (h_chosen st))"
  proof -
    have "map_m (index_m ?seqs) (h_chosen st) = map_m (\<lambda>j. Some (?seqs ! j)) (h_chosen st)"
      using st(2) by (intro map_m_cong) (auto simp: choose_inv_def valid_indexes_def)
    then show ?thesis by simp
  qed
  obtain un where un: "map_m (contains_unsupported_fuzzable_type (graph_cache g) (full_name_map g))
      (api_functions g) = Some un"
    using map_m_no_panic [of "api_functions g"] contains_unsupported_no_panic assms(1)
    by (metis graph_wf_def list_all_iff not_None_eq resolved_graph_def)
  show ?thesis
  proof (cases "card (valid_indexes ?seqs) = 0")
    case True
    then have "valid_indexes ?seqs = {}" by simp
    with True vs count show ?thesis
      by (intro exI [of _ "[]"]) (simp add: heuristic_choose_def Let_def nodes_of_def)
  next
    case False
    then have "\<not> card (valid_indexes ?seqs) \<le> 0" by simp
    with vs st(1) un js have "heuristic_choose g max_size stop = Some (map ((!) ?seqs) (h_chosen st))"
      unfolding heuristic_choose_def Let_def by (simp only: count bind.bind_lunit if_False)
    with st(2-4) show ?thesis
      by (intro exI [of _ "h_chosen st"]) (auto simp: choose_inv_def choose_done_def)
  qed
qed

text \<open>C23. On a well-formed graph of safe sequences the greedy choice returns distinct sequences of the
  graph, all with fuzzed parameters and no dead call before the last one, and at most \<open>max_size + 1\<close>
  of them. Under the condition that the graph has at most \<open>max_size\<close> such sequences, the chosen ones call
  every function that any of them calls, or else they cover as many edges as the graph has.\<close>

theorem heuristic_choose_correct:
  assumes "graph_wf g" and "\<forall>s \<in> set (api_sequences g). seq_safe g s"
  shows "\<exists>js. heuristic_choose g max_size stop = Some (map ((!) (api_sequences g)) js) \<and> distinct js \<and>
    set js \<subseteq> valid_indexes (api_sequences g) \<and> length js \<le> max_size + 1 \<and>
    (card (valid_indexes (api_sequences g)) \<le> max_size \<longrightarrow>
       nodes_of (api_sequences g) (set js)
         = nodes_of (api_sequences g) (valid_indexes (api_sequences g)) \<or>
       card (edges_of (api_sequences g) (set js)) = length (api_dependencies g))"
  using assms by (rule heuristic_choose_result)

definition one_sequence_graph :: ApiGraph where
  "one_sequence_graph = crate_graph_edges\<lparr>api_sequences := [new_then_len]\<rparr>"

lemma one_sequence_graph_wf: "graph_wf one_sequence_graph"
proof -
  have "same_crate crate_graph_edges one_sequence_graph" by (simp add: one_sequence_graph_def)
  then show ?thesis by (simp add: same_graph_wf crate_graph_edges_wf)
qed

text \<open>The only sequence of the graph is valid, so that it has to be chosen.\<close>

lemma heuristic_choose_correct_witness:
  "heuristic_choose one_sequence_graph 7 True = Some [new_then_len]"
proof -
  have same: "same_crate crate_graph_edges one_sequence_graph" by (simp add: one_sequence_graph_def)
  have seqs: "api_sequences one_sequence_graph = [new_then_len]" by (simp add: one_sequence_graph_def)
  have safe: "\<forall>s \<in> set (api_sequences one_sequence_graph). seq_safe one_sequence_graph s"
    by (simp add: seqs same_seq_safe [OF same] new_then_len_safe)
  have "is_valid_sequence new_then_len = Some True"
    by (simp add: is_valid_sequence_def new_then_len_def has_no_fuzzables_def ApiSequence_new_def
        contains_dead_code_except_last_one_def dead_code_def seq_len_def numeral_2_eq_2)
  then have valid: "valid_indexes [new_then_len] = {0}" by (auto simp: valid_indexes_def)
  obtain js where js: "heuristic_choose one_sequence_graph 7 True = Some (map ((!) [new_then_len]) js)"
      "distinct js" "set js \<subseteq> {0}"
      "nodes_of [new_then_len] (set js) = nodes_of [new_then_len] {0} \<or>
       card (edges_of [new_then_len] (set js)) = length (api_dependencies one_sequence_graph)"
    using heuristic_choose_correct [OF one_sequence_graph_wf safe, of 7 True] by (auto simp: seqs valid)
  have "nodes_of [new_then_len] {0} \<noteq> {}"
    by (simp add: nodes_of_def get_contained_api_functions_def new_then_len_def)
  moreover have "edges_of [new_then_len] (set js) = {}"
    using js(3) by (auto simp: edges_of_def new_then_len_def ApiSequence_new_def)
  moreover have "length (api_dependencies one_sequence_graph) = 2"
    by (simp add: one_sequence_graph_def crate_graph_edges_def)
  ultimately have "set js \<noteq> {}" using js(4) by (auto simp: nodes_of_def)
  with js(2,3) have "js = [0]" by (cases js; cases "tl js") auto
  with js(1) show ?thesis by simp
qed

end
