(* ===== verification/Graph_Reverse.thy ===== *)
theory Graph_Reverse
  imports Search_Safety
begin

text \<open>
  \<open>_reverse_construct\<close> of \<open>api_graph.rs\<close>: starting from the last call, a sequence is built backwards by
  a depth-first search for the functions that provide each parameter. Only functions before the
  current one in the vector are tried, which is why the recursion ends. The result lists the calls
  from the last one on, so that a parameter names a later position.
\<close>

section \<open>The construction\<close>

record RevState =
  rs_sequence :: ReverseApiSequence
  rs_call :: ApiCall
  rs_parts :: "ReverseApiSequence list"
  rs_next :: nat

definition reverse_fuzzable :: "ApiGraph \<Rightarrow> Type \<Rightarrow> RevState \<Rightarrow> RevState option run" where
  "reverse_fuzzable g ty st =
     do { let i = length (r_fuzzable_params (rs_sequence st));
          fct \<leftarrow> fuzzable_call_type (graph_cache g) (full_name_map g) None ty;
          let (ft, ct) = generate_fuzzable_type_and_call_type fct;
          Some (if ft = FT_NoFuzzable then None
            else
              let r = rs_sequence st;
                  r1 = (if need_mut_tag ct then r_insert_fuzzable_mut_tag r i else r);
                  r2 = r1\<lparr>r_fuzzable_params := r_fuzzable_params r1 @ [ft]\<rparr>
              in Some (st\<lparr>rs_sequence := r2, rs_call := add_param (rs_call st) FuzzableParam i ct\<rparr>)) }"

text \<open>What happens when the function of dependency \<open>d\<close> can be reached by the sequence \<open>part\<close>.\<close>

definition reverse_use :: "CallType \<Rightarrow> nat \<Rightarrow> ReverseApiSequence \<Rightarrow> RevState \<Rightarrow> RevState" where
  "reverse_use ct d part st =
     (let r = r_add_dependency (rs_sequence st) d;
          r1 = (if need_mut_tag ct then r_insert_function_mut_tag r (rs_next st) else r);
          r2 = (if is_unsafe (unsafe_call_type ct) then r_set_unsafe r1 else r1)
      in st\<lparr>rs_sequence := r2,
            rs_call := add_param (rs_call st) FunctionReturn (rs_next st) ct,
            rs_parts := rs_parts st @ [part],
            rs_next := rs_next st + length (r_functions part)\<rparr>)"

text \<open>The loop over the functions \<open>ois\<close> before \<open>fi\<close>; \<open>rec\<close> is the recursive call.\<close>

fun reverse_search ::
  "ApiGraph \<Rightarrow> (nat \<Rightarrow> ReverseApiSequence option run) \<Rightarrow> nat \<Rightarrow> nat \<Rightarrow> nat list \<Rightarrow> RevState \<Rightarrow> RevState option run" where
  "reverse_search g rec fi i [] st = Some None"
| "reverse_search g rec fi i (oi # ois) st =
     (case check_dependency g BareFunction oi BareFunction fi i of
        None \<Rightarrow> reverse_search g rec fi i ois st
      | Some d \<Rightarrow>
          do { r \<leftarrow> rec oi;
               case r of
                 None \<Rightarrow> reverse_search g rec fi i ois st
               | Some part \<Rightarrow>
                   do { dep \<leftarrow> index_m (api_dependencies g) d;
                        Some (Some (reverse_use (dep_call_type dep) d part st)) } })"

fun reverse_params ::
  "ApiGraph \<Rightarrow> (nat \<Rightarrow> ReverseApiSequence option run) \<Rightarrow> nat \<Rightarrow> (nat \<times> Type) list \<Rightarrow> RevState \<Rightarrow>
   RevState option run" where
  "reverse_params g rec fi [] st = Some (Some st)"
| "reverse_params g rec fi ((i, ty) # ps) st =
     do { b \<leftarrow> is_fuzzable_type (graph_cache g) (full_name_map g) None ty;
          r \<leftarrow> (if b then reverse_fuzzable g ty st else reverse_search g rec fi i [0..<fi] st);
          case r of None \<Rightarrow> Some None | Some st' \<Rightarrow> reverse_params g rec fi ps st' }"

definition reverse_finish :: "RevState \<Rightarrow> ReverseApiSequence" where
  "reverse_finish st =
     fold (\<lambda>part r. combine r part) (rs_parts st) (add_fn_reverse (rs_sequence st) (rs_call st))"

definition reverse_start :: "nat \<Rightarrow> RevState" where
  "reverse_start fi = \<lparr>rs_sequence = ReverseApiSequence_new, rs_call = ApiCall_new fi, rs_parts = [], rs_next = 1\<rparr>"

definition reverse_step ::
  "ApiGraph \<Rightarrow> (nat \<Rightarrow> ReverseApiSequence option run) \<Rightarrow> nat \<Rightarrow> ReverseApiSequence option run" where
  "reverse_step g rec fi =
     do { f \<leftarrow> index_m (api_functions g) fi;
          r \<leftarrow> reverse_params g rec fi (enumerate 0 (inputs f)) (reverse_start fi);
          Some (map_option reverse_finish r) }"

lemma reverse_search_cong:
  "(\<And>oi. oi \<in> set ois \<Longrightarrow> rec oi = rec' oi) \<Longrightarrow>
   reverse_search g rec fi i ois st = reverse_search g rec' fi i ois st"
  by (induction ois arbitrary: st) (simp_all cong: option.case_cong)

lemma reverse_params_cong:
  assumes "\<And>oi. oi < fi \<Longrightarrow> rec oi = rec' oi"
  shows "reverse_params g rec fi ps st = reverse_params g rec' fi ps st"
proof (induction ps arbitrary: st)
  case (Cons p ps)
  obtain i ty where p: "p = (i, ty)" by (rule prod.exhaust)
  have search: "reverse_search g rec fi i [0..<fi] st = reverse_search g rec' fi i [0..<fi] st"
    by (rule reverse_search_cong) (simp add: assms)
  show ?case unfolding p reverse_params.simps Cons.IH search ..
qed simp

lemma reverse_step_cong [fundef_cong]:
  "g = g' \<Longrightarrow> fi = fi' \<Longrightarrow> (\<And>oi. oi < fi' \<Longrightarrow> rec oi = rec' oi) \<Longrightarrow>
   reverse_step g rec fi = reverse_step g' rec' fi'"
  using reverse_params_cong [of fi' rec rec' g'] by (simp add: reverse_step_def)

function reverse_construct :: "ApiGraph \<Rightarrow> nat \<Rightarrow> ReverseApiSequence option run" where
  "reverse_construct g fi = reverse_step g (\<lambda>oi. reverse_construct g oi) fi"
  by pat_completeness auto
termination
  by (relation "measure snd") auto

declare reverse_construct.simps [simp del]

text \<open>Whether every call has all its parameters.\<close>

definition is_ok :: "ReverseApiSequence \<Rightarrow> ApiGraph \<Rightarrow> bool run" where
  "is_ok s g = all_m (\<lambda>call. do { f \<leftarrow> index_m (api_functions g) (snd (func call));
     Some (length (inputs f) = length (params call)) }) (r_functions s)"

section \<open>What the construction gives\<close>

text \<open>Every call is complete and takes its results from later positions along edges.\<close>

definition r_call_ok :: "ApiGraph \<Rightarrow> ApiCall list \<Rightarrow> nat \<Rightarrow> ApiCall \<Rightarrow> bool" where
  "r_call_ok g calls a call \<longleftrightarrow>
     fst (func call) = BareFunction \<and> snd (func call) < length (api_functions g) \<and>
     length (params call) = length (inputs (call_fun g call)) \<and>
     (\<forall>i x ct. takes call i x ct \<longrightarrow>
        a < x \<and> x < length calls \<and> edge g (func (calls ! x)) (func call) i ct)"

definition r_calls_ok :: "ApiGraph \<Rightarrow> ApiCall list \<Rightarrow> bool" where
  "r_calls_ok g calls \<longleftrightarrow> (\<forall>a < length calls. r_call_ok g calls a (calls ! a))"

definition r_good :: "ApiGraph \<Rightarrow> ReverseApiSequence \<Rightarrow> bool" where
  "r_good g r \<longleftrightarrow> r_wf r \<and> r_calls_ok g (r_functions r)"

lemma r_call_ok_append: "r_call_ok g xs a call \<Longrightarrow> r_call_ok g (xs @ ys) a call"
  by (fastforce simp: r_call_ok_def nth_append)

lemma r_call_ok_shift:
  assumes "r_call_ok g ys a call"
  shows "r_call_ok g (xs @ map (shift_call (length xs) z) ys) (length xs + a) (shift_call (length xs) z call)"
  using assms by (auto simp: r_call_ok_def takes_shift call_fun_def nth_append)

lemma r_calls_ok_merge:
  assumes "r_calls_ok g xs" and "r_calls_ok g ys"
  shows "r_calls_ok g (xs @ map (shift_call (length xs) z) ys)"
  unfolding r_calls_ok_def
proof (intro allI impI)
  fix a assume a: "a < length (xs @ map (shift_call (length xs) z) ys)"
  show "r_call_ok g (xs @ map (shift_call (length xs) z) ys) a ((xs @ map (shift_call (length xs) z) ys) ! a)"
  proof (cases "a < length xs")
    case True
    with assms(1) r_call_ok_append show ?thesis by (simp add: r_calls_ok_def nth_append)
  next
    case False
    with a r_call_ok_shift [of g ys "a - length xs" "ys ! (a - length xs)" xs z] assms(2) show ?thesis
      by (simp add: r_calls_ok_def nth_append)
  qed
qed

interpretation rev_good: sequence_merge ReverseApiSequence_new combine "r_good g"
  "\<lambda>r. length (r_functions r)" for g
proof
  fix s t u :: ReverseApiSequence and g
  show "r_good g ReverseApiSequence_new"
    using rev_seq.wf_empty by (simp add: r_good_def r_calls_ok_def ReverseApiSequence_new_def)
  show "r_good g (combine s t)" if "r_good g s" "r_good g t"
    using that rev_seq.wf_merge r_calls_ok_merge by (auto simp: r_good_def combine_def Let_def)
qed (rule rev_seq.merge_assoc rev_seq.merge_empty rev_seq.size_merge)+

lemma fold_combine_func:
  "map func (r_functions (fold (\<lambda>part r. combine r part) parts r)) =
   map func (r_functions r) @ concat (map (\<lambda>part. map func (r_functions part)) parts)"
  by (induction parts arbitrary: r) (simp_all add: combine_def Let_def comp_def)

text \<open>Where part \<open>k\<close> starts.\<close>

definition offset :: "ReverseApiSequence list \<Rightarrow> nat \<Rightarrow> nat" where
  "offset parts k = sum_list (map (\<lambda>part. length (r_functions part)) (take k parts))"

lemma concat_offset:
  assumes "k < length xss" and "xss ! k \<noteq> []"
  shows "sum_list (map length (take k xss)) < length (concat xss) \<and>
    concat xss ! sum_list (map length (take k xss)) = hd (xss ! k)"
  using assms
proof (induction xss arbitrary: k)
  case (Cons xs xss)
  then show ?case by (cases k) (auto simp: nth_append hd_conv_nth)
qed simp

lemma parts_offset:
  assumes "k < length parts" and "r_functions (parts ! k) \<noteq> []"
  shows "offset parts k < length (r_functions (fold (\<lambda>part r. combine r part) parts ReverseApiSequence_new))"
    and "func (r_functions (fold (\<lambda>part r. combine r part) parts ReverseApiSequence_new) ! offset parts k)
      = func (hd (r_functions (parts ! k)))"
proof -
  let ?P = "r_functions (fold (\<lambda>part r. combine r part) parts ReverseApiSequence_new)"
  let ?xss = "map (\<lambda>part. map func (r_functions part)) parts"
  have P: "map func ?P = concat ?xss" by (simp add: fold_combine_func ReverseApiSequence_new_def)
  have off: "sum_list (map length (take k ?xss)) = offset parts k"
    by (simp add: offset_def take_map comp_def)
  have "offset parts k < length (concat ?xss) \<and> concat ?xss ! offset parts k = hd (?xss ! k)"
    using concat_offset [of k ?xss] assms unfolding off by simp
  with P assms show "offset parts k < length ?P" "func (?P ! offset parts k) = func (hd (r_functions (parts ! k)))"
    by (metis length_map, metis (no_types, lifting) hd_map length_map nth_map)
qed

text \<open>The invariant of the loop over the parameters.\<close>

definition rev_inv :: "ApiGraph \<Rightarrow> nat \<Rightarrow> nat \<Rightarrow> RevState \<Rightarrow> bool" where
  "rev_inv g fi j st \<longleftrightarrow> func (rs_call st) = (BareFunction, fi) \<and> length (params (rs_call st)) = j \<and>
     r_functions (rs_sequence st) = [] \<and>
     (\<forall>part \<in> set (rs_parts st). r_good g part \<and> r_functions part \<noteq> []) \<and>
     rs_next st = Suc (offset (rs_parts st) (length (rs_parts st))) \<and>
     r_fuzzable_mut_tag (rs_sequence st) \<subseteq> {..<length (r_fuzzable_params (rs_sequence st))} \<and>
     r_function_mut_tag (rs_sequence st) \<subseteq> {..<rs_next st} \<and>
     (\<forall>k ct. (FuzzableParam, k, ct) \<in> set (params (rs_call st)) \<longrightarrow>
        k < length (r_fuzzable_params (rs_sequence st))) \<and>
     (\<forall>i x ct. takes (rs_call st) i x ct \<longrightarrow> (\<exists>k < length (rs_parts st). x = Suc (offset (rs_parts st) k) \<and>
        edge g (func (hd (r_functions (rs_parts st ! k)))) (BareFunction, fi) i ct))"

lemma params_add_param: "params (add_param call pt k ct) = params call @ [(pt, k, ct)]"
  by (simp add: add_param_def)

lemma rev_inv_start: "rev_inv g fi 0 (reverse_start fi)"
  by (simp add: rev_inv_def reverse_start_def ReverseApiSequence_new_def ApiCall_new_def offset_def takes_def)

lemma reverse_fuzzable_inv:
  assumes "rev_inv g fi j st" and "reverse_fuzzable g ty st = Some (Some st')"
  shows "rev_inv g fi (Suc j) st'"
proof -
  let ?i = "length (r_fuzzable_params (rs_sequence st))"
  from assms(2) obtain fct where fct: "fuzzable_call_type (graph_cache g) (full_name_map g) None ty = Some fct"
    by (auto simp: reverse_fuzzable_def Let_def bind_eq_Some_conv)
  obtain ft ct where gen: "generate_fuzzable_type_and_call_type fct = (ft, ct)" by (rule prod.exhaust)
  have st': "st' = st\<lparr>rs_sequence := (if need_mut_tag ct then r_insert_fuzzable_mut_tag (rs_sequence st) ?i
        else rs_sequence st)\<lparr>r_fuzzable_params := r_fuzzable_params (rs_sequence st) @ [ft]\<rparr>,
      rs_call := add_param (rs_call st) FuzzableParam ?i ct\<rparr>"
    using assms(2) fct gen
    by (auto simp: reverse_fuzzable_def r_insert_fuzzable_mut_tag_def Let_def split: if_splits)
  show ?thesis unfolding rev_inv_def st'
    using assms(1) by (auto simp: rev_inv_def takes_add_param params_add_param r_insert_fuzzable_mut_tag_def less_Suc_eq)
qed

lemma offset_append:
  "k \<le> length parts \<Longrightarrow> offset (parts @ [part]) k = offset parts k"
  "offset (parts @ [part]) (Suc (length parts)) = offset parts (length parts) + length (r_functions part)"
  by (simp_all add: offset_def)

lemma reverse_use_inv:
  assumes "rev_inv g fi j st" and "r_good g part" and "r_functions part \<noteq> []"
    and "edge g (func (hd (r_functions part))) (BareFunction, fi) j ct"
  shows "rev_inv g fi (Suc j) (reverse_use ct d part st)"
proof -
  define r2 where "r2 = rs_sequence (reverse_use ct d part st)"
  have r2: "r_functions r2 = r_functions (rs_sequence st)"
    "r_fuzzable_params r2 = r_fuzzable_params (rs_sequence st)"
    "r_fuzzable_mut_tag r2 = r_fuzzable_mut_tag (rs_sequence st)"
    "r_function_mut_tag r2 \<subseteq> insert (rs_next st) (r_function_mut_tag (rs_sequence st))"
    by (auto simp: r2_def reverse_use_def r_add_dependency_def r_insert_function_mut_tag_def
        r_set_unsafe_def Let_def)
  have use: "reverse_use ct d part st = st\<lparr>rs_sequence := r2,
      rs_call := add_param (rs_call st) FunctionReturn (rs_next st) ct, rs_parts := rs_parts st @ [part],
      rs_next := rs_next st + length (r_functions part)\<rparr>"
    by (simp add: r2_def reverse_use_def Let_def)
  have "\<exists>k < length (rs_parts st @ [part]). x = Suc (offset (rs_parts st @ [part]) k) \<and>
        edge g (func (hd (r_functions ((rs_parts st @ [part]) ! k)))) (BareFunction, fi) i c"
    if t: "takes (add_param (rs_call st) FunctionReturn (rs_next st) ct) i x c" for i x c
  proof (cases "takes (rs_call st) i x c")
    case True
    with assms(1) obtain k where "k < length (rs_parts st)" "x = Suc (offset (rs_parts st) k)"
      "edge g (func (hd (r_functions (rs_parts st ! k)))) (BareFunction, fi) i c"
      unfolding rev_inv_def by blast
    then show ?thesis by (intro exI [of _ k]) (simp add: nth_append offset_append)
  next
    case False
    with t assms(1,4) show ?thesis
      by (intro exI [of _ "length (rs_parts st)"]) (auto simp: takes_add_param rev_inv_def offset_append)
  qed
  moreover have "r_function_mut_tag r2 \<subseteq> {..<rs_next st + length (r_functions part)}"
  proof -
    have "0 < length (r_functions part)" using assms(3) by simp
    then have "insert (rs_next st) {..<rs_next st} \<subseteq> {..<rs_next st + length (r_functions part)}" by auto
    with r2(4) assms(1) show ?thesis unfolding rev_inv_def by blast
  qed
  ultimately show ?thesis using assms(1-3) r2(1-3) unfolding use rev_inv_def
    by (auto simp: params_add_param offset_append)
qed

lemma reverse_search_result:
  assumes "rev_inv g fi i st"
    and "\<And>oi. oi \<in> set ois \<Longrightarrow> \<exists>r. rec oi = Some r \<and> (\<forall>part. r = Some part \<longrightarrow> r_good g part \<and>
      r_functions part \<noteq> [] \<and> func (hd (r_functions part)) = (BareFunction, oi))"
  shows "\<exists>r. reverse_search g rec fi i ois st = Some r \<and> (\<forall>st'. r = Some st' \<longrightarrow> rev_inv g fi (Suc i) st')"
  using assms(2)
proof (induction ois)
  case (Cons oi ois)
  then obtain rest where rest: "reverse_search g rec fi i ois st = Some rest"
    "\<forall>st'. rest = Some st' \<longrightarrow> rev_inv g fi (Suc i) st'" by auto
  from Cons.prems [of oi] obtain r where r: "rec oi = Some r" "\<forall>part. r = Some part \<longrightarrow> r_good g part \<and>
      r_functions part \<noteq> [] \<and> func (hd (r_functions part)) = (BareFunction, oi)" by auto
  show ?case
  proof (cases "check_dependency g BareFunction oi BareFunction fi i")
    case None
    with rest show ?thesis by simp
  next
    case (Some d)
    note e = check_dependency_edge [OF Some]
    show ?thesis
    proof (cases r)
      case None
      with Some r rest show ?thesis by simp
    next
      case part: (Some part)
      let ?ct = "dep_call_type (api_dependencies g ! d)"
      have "rev_inv g fi (Suc i) (reverse_use ?ct d part st)"
        using r part e(2) by (intro reverse_use_inv assms(1)) auto
      with Some r part e(1) show ?thesis by simp
    qed
  qed
qed simp

lemma reverse_params_result:
  assumes "rev_inv g fi i st" and "list_all resolved (drop i ins)" and "i \<le> length ins"
    and rec: "\<And>oi. oi < fi \<Longrightarrow> \<exists>r. rec oi = Some r \<and> (\<forall>part. r = Some part \<longrightarrow> r_good g part \<and>
      r_functions part \<noteq> [] \<and> func (hd (r_functions part)) = (BareFunction, oi))"
  shows "\<exists>r. reverse_params g rec fi (enumerate i (drop i ins)) st = Some r \<and>
    (\<forall>st'. r = Some st' \<longrightarrow> rev_inv g fi (length ins) st')"
  using assms(1-3)
proof (induction "length ins - i" arbitrary: i st)
  case (Suc n)
  then have i: "i < length ins" by simp
  have en: "enumerate i (drop i ins) = (i, ins ! i) # enumerate (Suc i) (drop (Suc i) ins)"
    using i by (simp add: Cons_nth_drop_Suc [symmetric])
  have res: "resolved (ins ! i)" "list_all resolved (drop (Suc i) ins)"
    using Suc.prems(2) i by (simp_all add: Cons_nth_drop_Suc [symmetric])
  have sub: "primitive_subst None" by (simp add: primitive_subst_def)
  obtain b where b: "is_fuzzable_type (graph_cache g) (full_name_map g) None (ins ! i) = Some b"
    using is_fuzzable_type_no_panic [OF res(1) sub] by blast
  have "\<exists>r. (if b then reverse_fuzzable g (ins ! i) st else reverse_search g rec fi i [0..<fi] st) = Some r \<and>
      (\<forall>st'. r = Some st' \<longrightarrow> rev_inv g fi (Suc i) st')"
  proof (cases b)
    case True
    obtain fct where "fuzzable_call_type (graph_cache g) (full_name_map g) None (ins ! i) = Some fct"
      using fuzzable_call_type_no_panic [OF res(1) sub] by blast
    then have "reverse_fuzzable g (ins ! i) st \<noteq> None"
      by (simp add: reverse_fuzzable_def Let_def split: prod.splits)
    with True reverse_fuzzable_inv [OF Suc.prems(1)] show ?thesis by auto
  next
    case False
    with reverse_search_result [OF Suc.prems(1), of "[0..<fi]" rec] rec show ?thesis by simp
  qed
  then obtain r where r: "(if b then reverse_fuzzable g (ins ! i) st
      else reverse_search g rec fi i [0..<fi] st) = Some r" "\<forall>st'. r = Some st' \<longrightarrow> rev_inv g fi (Suc i) st'"
    by blast
  show ?case
  proof (cases r)
    case None
    with en b r(1) show ?thesis by simp
  next
    case (Some st1)
    with r(2) Suc.hyps(1) [of "Suc i" st1] Suc.hyps(2) res(2) i
    have "\<exists>r. reverse_params g rec fi (enumerate (Suc i) (drop (Suc i) ins)) st1 = Some r \<and>
        (\<forall>st'. r = Some st' \<longrightarrow> rev_inv g fi (length ins) st')" by simp
    with en b r(1) Some show ?thesis by simp
  qed
qed simp

lemma r_calls_ok_wf:
  assumes "r_calls_ok g calls"
    and "\<And>call k ct. call \<in> set calls \<Longrightarrow> (FuzzableParam, k, ct) \<in> set (params call) \<Longrightarrow> k < z"
  shows "r_calls_wf z calls"
  unfolding r_calls_wf_def
proof (intro allI impI ballI)
  fix a p assume a: "a < length calls" and p: "p \<in> set (params (calls ! a))"
  obtain pt x ct where pq: "p = (pt, x, ct)" by (rule prod_cases3)
  show "case p of (pt, x, _) \<Rightarrow> (case pt of FunctionReturn \<Rightarrow> a < x \<and> x < length calls | FuzzableParam \<Rightarrow> x < z)"
  proof (cases pt)
    case FunctionReturn
    with p pq obtain i where "takes (calls ! a) i x ct" by (auto simp: takes_def in_set_conv_nth)
    moreover have "r_call_ok g calls a (calls ! a)" using assms(1) a by (simp add: r_calls_ok_def)
    ultimately have "a < x \<and> x < length calls" unfolding r_call_ok_def by blast
    with pq FunctionReturn show ?thesis by simp
  next
    case FuzzableParam
    with assms(2) [of "calls ! a" x ct] a p pq show ?thesis by simp
  qed
qed

text \<open>Putting the call before its parts.\<close>

text \<open>The result is the call, followed by the parts put together.\<close>

definition all_parts :: "RevState \<Rightarrow> ReverseApiSequence" where
  "all_parts st = fold (\<lambda>part r. combine r part) (rs_parts st) ReverseApiSequence_new"

lemma reverse_finish_combine: "reverse_finish st = combine (add_fn_reverse (rs_sequence st) (rs_call st)) (all_parts st)"
  using rev_seq.merge_all_split [of "rs_parts st" "add_fn_reverse (rs_sequence st) (rs_call st)" ReverseApiSequence_new]
  by (simp add: reverse_finish_def all_parts_def rev_seq.merge_empty)

lemma all_parts_good:
  assumes "rev_inv g fi n st"
  shows "r_good g (all_parts st)" and "rs_next st = Suc (length (r_functions (all_parts st)))"
proof -
  show "r_good g (all_parts st)"
    unfolding all_parts_def using assms
    by (intro rev_good.wf_merge_all rev_good.wf_empty) (auto simp: rev_inv_def list_all_iff)
  show "rs_next st = Suc (length (r_functions (all_parts st)))"
    using assms rev_seq.size_merge_all [of "rs_parts st" ReverseApiSequence_new]
    by (simp add: rev_inv_def offset_def all_parts_def ReverseApiSequence_new_def)
qed

lemma reverse_finish_fields:
  assumes "rev_inv g fi n st"
  defines "nz \<equiv> length (r_fuzzable_params (rs_sequence st))"
  shows "r_functions (reverse_finish st) = rs_call st # map (shift_call 1 nz) (r_functions (all_parts st))"
    and "r_fuzzable_params (reverse_finish st) = r_fuzzable_params (rs_sequence st) @ r_fuzzable_params (all_parts st)"
    and "r_fuzzable_mut_tag (reverse_finish st) =
      r_fuzzable_mut_tag (rs_sequence st) \<union> (\<lambda>i. i + nz) ` r_fuzzable_mut_tag (all_parts st)"
    and "r_function_mut_tag (reverse_finish st) =
      r_function_mut_tag (rs_sequence st) \<union> (\<lambda>i. i + 1) ` r_function_mut_tag (all_parts st)"
  using assms by (simp_all add: reverse_finish_combine combine_def add_fn_reverse_def rev_inv_def Let_def)

lemma reverse_finish_call:
  assumes "rev_inv g fi (length (inputs (api_functions g ! fi))) st" and "fi < length (api_functions g)"
  shows "r_call_ok g (r_functions (reverse_finish st)) 0 (rs_call st)"
proof -
  have "0 < x \<and> x < length (r_functions (reverse_finish st)) \<and>
      edge g (func (r_functions (reverse_finish st) ! x)) (BareFunction, fi) i ct"
    if "takes (rs_call st) i x ct" for i x ct
  proof -
    from that assms(1) obtain k where k: "k < length (rs_parts st)" "x = Suc (offset (rs_parts st) k)"
      "edge g (func (hd (r_functions (rs_parts st ! k)))) (BareFunction, fi) i ct"
      unfolding rev_inv_def by blast
    then have "r_functions (rs_parts st ! k) \<noteq> []" using assms(1) by (simp add: rev_inv_def)
    from parts_offset [OF k(1) this, folded all_parts_def] k show ?thesis
      by (simp add: reverse_finish_fields [OF assms(1)])
  qed
  with assms show ?thesis by (simp add: r_call_ok_def rev_inv_def call_fun_def)
qed

lemma reverse_finish_fuzzables:
  assumes inv: "rev_inv g fi n st" and "call \<in> set (r_functions (reverse_finish st))"
    and "(FuzzableParam, k, ct) \<in> set (params call)"
  shows "k < length (r_fuzzable_params (reverse_finish st))"
proof -
  note fields = reverse_finish_fields [OF inv]
  let ?nz = "length (r_fuzzable_params (rs_sequence st))"
  from assms(2) consider "call = rs_call st" | c' where "c' \<in> set (r_functions (all_parts st))" "call = shift_call 1 ?nz c'"
    by (auto simp: fields)
  then show ?thesis
  proof cases
    case 1
    with assms show ?thesis by (fastforce simp: rev_inv_def fields)
  next
    case 2
    with assms(3) obtain k' ct' where "(FuzzableParam, k', ct') \<in> set (params c')" "k = k' + ?nz"
      by (auto simp: shift_call_def shift_param_def split: ParamType.splits)
    with all_parts_good(1) [OF inv] 2(1) show ?thesis
      by (fastforce simp: r_good_def r_wf_def r_calls_wf_def in_set_conv_nth [of c'] fields)
  qed
qed

lemma reverse_finish_good:
  assumes "rev_inv g fi (length (inputs (api_functions g ! fi))) st" and "fi < length (api_functions g)"
  shows "r_good g (reverse_finish st)" and "r_functions (reverse_finish st) \<noteq> []"
    and "func (hd (r_functions (reverse_finish st))) = (BareFunction, fi)"
proof -
  note fields = reverse_finish_fields [OF assms(1)] and parts = all_parts_good [OF assms(1)]
  let ?nz = "length (r_fuzzable_params (rs_sequence st))"
  show "r_functions (reverse_finish st) \<noteq> []" "func (hd (r_functions (reverse_finish st))) = (BareFunction, fi)"
    using assms(1) by (simp_all add: fields rev_inv_def)
  have ok: "r_calls_ok g (r_functions (reverse_finish st))"
    unfolding r_calls_ok_def
  proof (intro allI impI)
    fix a assume "a < length (r_functions (reverse_finish st))"
    then show "r_call_ok g (r_functions (reverse_finish st)) a (r_functions (reverse_finish st) ! a)"
      using reverse_finish_call [OF assms] r_call_ok_shift [of g "r_functions (all_parts st)" _ _ "[rs_call st]" ?nz] parts(1)
      by (cases a) (auto simp: fields r_good_def r_calls_ok_def)
  qed
  have "r_calls_wf (length (r_fuzzable_params (reverse_finish st))) (r_functions (reverse_finish st))"
    by (rule r_calls_ok_wf [OF ok reverse_finish_fuzzables [OF assms(1)]])
  then have "r_wf (reverse_finish st)"
    using assms(1) parts by (auto simp: r_wf_def r_good_def rev_inv_def fields)
  with ok show "r_good g (reverse_finish st)" by (simp add: r_good_def)
qed

lemma r_good_is_ok:
  assumes "r_good g s"
  shows "is_ok s g = Some True"
  unfolding is_ok_def all_m_Some_True
proof
  fix call assume "call \<in> set (r_functions s)"
  then obtain a where "a < length (r_functions s)" "call = r_functions s ! a" by (auto simp: in_set_conv_nth)
  with assms have "r_call_ok g (r_functions s) a call" by (simp add: r_good_def r_calls_ok_def)
  then show "do { f \<leftarrow> index_m (api_functions g) (snd (func call)); Some (length (inputs f) = length (params call)) } = Some True"
    by (simp add: r_call_ok_def call_fun_def bind_eq_Some_conv)
qed

text \<open>C24. Backward construction always ends, and never panics on a well-formed graph. What it returns
  starts with a call of the function asked for and passes the check \<open>_is_ok\<close>: every call in it is
  complete, and takes its results from later positions along edges of the graph.\<close>

theorem reverse_construct_correct:
  assumes "graph_wf g" and "fi < length (api_functions g)"
  shows "\<exists>r. reverse_construct g fi = Some r \<and> (\<forall>s. r = Some s \<longrightarrow> r_good g s \<and> is_ok s g = Some True \<and> r_functions s \<noteq> [] \<and>
    func (hd (r_functions s)) = (BareFunction, fi))"
  using assms(2)
proof (induction fi rule: less_induct)
  case (less fi)
  let ?f = "api_functions g ! fi"
  have res: "list_all resolved (drop 0 (inputs ?f))"
    using graph_wf_function(1) [OF assms(1) less.prems] by (simp add: resolved_function_def)
  have rec: "\<exists>r. reverse_construct g oi = Some r \<and> (\<forall>part. r = Some part \<longrightarrow> r_good g part \<and>
      r_functions part \<noteq> [] \<and> func (hd (r_functions part)) = (BareFunction, oi))" if "oi < fi" for oi
    using less.IH [OF that] less.prems that by fastforce
  from reverse_params_result [OF rev_inv_start res _ rec] obtain r where
    r: "reverse_params g (reverse_construct g) fi (enumerate 0 (inputs ?f)) (reverse_start fi) = Some r"
      "\<forall>st. r = Some st \<longrightarrow> rev_inv g fi (length (inputs ?f)) st" by auto
  then have "reverse_construct g fi = Some (map_option reverse_finish r)"
    using less.prems by (simp add: reverse_construct.simps [of g fi] reverse_step_def)
  with r(2) reverse_finish_good [OF _ less.prems] r_good_is_ok show ?case by (cases r) auto
qed

lemma reverse_construct_correct_witness:
  "\<exists>r. reverse_construct crate_graph_edges 2 = Some r \<and> (\<forall>s. r = Some s \<longrightarrow> r_good crate_graph_edges s \<and>
    is_ok s crate_graph_edges = Some True \<and> r_functions s \<noteq> [] \<and> func (hd (r_functions s)) = (BareFunction, 2))"
  by (rule reverse_construct_correct [OF crate_graph_edges_wf]) (simp add: crate_graph_edges_length)

end
