(* ===== verification/My_Method.thy ===== *)
theory My_Method
  imports Cover_Search Complex_Main
begin

text \<open>
  \<open>my_method\<close> of \<open>api_graph.rs\<close>: sequences are built by weighted random choice among the functions
  that can take an available result, with weights from a corpus of real uses. The random numbers are
  a stream, an argument of the model; \<open>f32\<close> is modelled by the reals, without rounding. The two
  nested loops are one loop over steps, because either may run forever.
\<close>

datatype GraphTraverseAlgorithm =
    A_Default | A_Bfs | A_FastBfs | A_BfsEndPoint | A_FastBfsEndPoint | A_RandomWalk
  | A_RandomWalkEndPoint | A_TryDeepBfs | A_DirectBackwardSearch | A_UseRealWorld | A_Fudge

section \<open>The corpus\<close>

definition usize_m :: "nat \<Rightarrow> nat run" where
  "usize_m n = (if n < 2 ^ 64 then Some n else None)"

text \<open>\<open>parse::<usize>().unwrap()\<close>: digits, with an optional plus sign.\<close>

definition parse_usize :: "string \<Rightarrow> nat run" where
  "parse_usize s = (let t = (if starts_with s ''+'' then tl s else s)
     in if t \<noteq> [] \<and> list_all is_digit t then usize_m (number_value t) else None)"

definition parse_pair_line :: "string \<Rightarrow> (string \<times> string \<times> nat) run" where
  "parse_pair_line line =
     do { let parts = str_split ''  |  '' line;
          p1 \<leftarrow> index_m parts 1;
          cnt \<leftarrow> parse_usize p1;
          p2 \<leftarrow> index_m parts 2;
          case str_split ''   '' p2 of
            [func1, func2] \<Rightarrow> Some (func1, func2, cnt)
          | _ \<Rightarrow> None }"

type_synonym pair_info = "string \<rightharpoonup> (string \<rightharpoonup> nat)"

definition add_pair :: "string \<times> string \<times> nat \<Rightarrow> pair_info \<Rightarrow> pair_info run" where
  "add_pair p info = (case p of (func1, func2, cnt) \<Rightarrow>
     (case info func1 of
        Some inner_map \<Rightarrow>
          (case inner_map func2 of
             Some value \<Rightarrow> do { v \<leftarrow> usize_m (value + cnt); Some (info(func1 \<mapsto> inner_map(func2 \<mapsto> v))) }
           | None \<Rightarrow> Some (info(func1 \<mapsto> inner_map(func2 \<mapsto> cnt))))
      | None \<Rightarrow> Some (info(func1 \<mapsto> [func2 \<mapsto> cnt]))))"

text \<open>\<open>None\<close> is a file that cannot be opened; it counts as empty.\<close>

definition read_pairs :: "string list option \<Rightarrow> pair_info run" where
  "read_pairs file = (case file of
     None \<Rightarrow> Some Map.empty
   | Some content \<Rightarrow> fold_m (\<lambda>line info. do { p \<leftarrow> parse_pair_line line; add_pair p info }) content Map.empty)"

definition add_func_line :: "string \<Rightarrow> (string \<rightharpoonup> nat) \<Rightarrow> (string \<rightharpoonup> nat) run" where
  "add_func_line line info =
     do { let parts = str_split ''  |  '' line;
          p1 \<leftarrow> index_m parts 1;
          cnt \<leftarrow> parse_usize p1;
          f \<leftarrow> index_m parts 2;
          case info f of
            Some value \<Rightarrow> do { v \<leftarrow> usize_m (value + cnt); Some (info(f \<mapsto> v)) }
          | None \<Rightarrow> Some (info(f \<mapsto> cnt)) }"

definition read_funcs :: "string list option \<Rightarrow> (string \<rightharpoonup> nat) run" where
  "read_funcs file = (case file of
     None \<Rightarrow> Some Map.empty
   | Some content \<Rightarrow> fold_m add_func_line content Map.empty)"

section \<open>Successor tables\<close>

definition pair_count :: "pair_info \<Rightarrow> string \<Rightarrow> string \<Rightarrow> nat" where
  "pair_count info func1 func2 = (case info func1 of
     Some inner_map \<Rightarrow> (case inner_map func2 of Some n \<Rightarrow> n | None \<Rightarrow> 0)
   | None \<Rightarrow> 0)"

text \<open>The table of every function, as the list of the tables by function index.\<close>

definition add_successor ::
  "ApiGraph \<Rightarrow> pair_info \<Rightarrow> ApiDependency \<Rightarrow> (nat \<times> nat \<times> ApiDependency) list list \<Rightarrow>
   (nat \<times> nat \<times> ApiDependency) list list run" where
  "add_successor g depinfo d tables =
     do { f_out \<leftarrow> index_m (api_functions g) (snd (output_fun d));
          f_in \<leftarrow> index_m (api_functions g) (snd (input_fun d));
          table \<leftarrow> index_m tables (snd (output_fun d));
          update_m tables (snd (output_fun d))
            (table @ [(snd (input_fun d), pair_count depinfo (full_name f_out) (full_name f_in), d)]) }"

definition construct_function_succ_table ::
  "ApiGraph \<Rightarrow> pair_info \<Rightarrow> (nat \<times> nat \<times> ApiDependency) list list run" where
  "construct_function_succ_table g depinfo =
     fold_m (add_successor g depinfo) (api_dependencies g) (replicate (length (api_functions g)) [])"

definition normalize_weights :: "nat list \<Rightarrow> real list" where
  "normalize_weights weights =
     (if length weights = 0 then []
      else
        let ws = map (\<lambda>x. ln (real x + 2)) weights;
            max_value = Max (set ws);
            min_value = Min (set ws)
        in map (\<lambda>w. 0.05 + ((w - min_value) * 0.9) / (1 + max_value - min_value)) ws)"

definition weight_table ::
  "ApiGraph \<Rightarrow> pair_info \<Rightarrow> nat \<times> (nat \<times> nat \<times> ApiDependency) list \<Rightarrow> (nat \<times> real) list run" where
  "weight_table g orderinfo it = (case it of (pre, table) \<Rightarrow>
     do { f \<leftarrow> index_m (api_functions g) pre;
          weights \<leftarrow> map_m (\<lambda>(succ, freq, _).
              do { f' \<leftarrow> index_m (api_functions g) succ;
                   usize_m (pair_count orderinfo (full_name f) (full_name f') + freq) }) table;
          Some (zip (map fst table) (normalize_weights weights)) })"

definition weighted_tables ::
  "ApiGraph \<Rightarrow> pair_info \<Rightarrow> (nat \<times> nat \<times> ApiDependency) list list \<Rightarrow> (nat \<times> real) list list run" where
  "weighted_tables g orderinfo tables = map_m (weight_table g orderinfo) (enumerate 0 tables)"

section \<open>Choices\<close>

definition extract_start_function :: "ApiGraph \<Rightarrow> bool \<Rightarrow> nat list run" where
  "extract_start_function g support_generic =
     do { flags \<leftarrow> map_m (is_start_function (graph_cache g) (full_name_map g) support_generic) (api_functions g);
          Some (map fst (filter snd (enumerate 0 flags))) }"

text \<open>A random number below \<open>hi\<close>, from the number \<open>c\<close> of the stream.\<close>

definition rand_num :: "nat \<Rightarrow> nat \<Rightarrow> nat \<Rightarrow> nat" where
  "rand_num lo hi c = (if hi \<le> lo then 0 else lo + c mod (hi - lo))"

definition get_available_function_indexs ::
  "ApiSequence \<Rightarrow> (nat \<times> real) list list \<Rightarrow> nat list run" where
  "get_available_function_indexs s tables =
     do { keep \<leftarrow> map_m (\<lambda>(i, call). do { table \<leftarrow> index_m tables (snd (func call));
                                         Some (length table > 0 \<and> \<not> is_moved s i) })
                  (enumerate 0 (seq_functions s));
          Some (map (\<lambda>(_, call). snd (func call)) (filter fst (zip keep (seq_functions s)))) }"

text \<open>\<open>choose_weighted\<close> gives no result when there is nothing to choose, a weight is negative or all are
  zero; otherwise any position can come out that has a positive weight.\<close>

definition random_select :: "real list \<Rightarrow> nat \<Rightarrow> nat option" where
  "random_select probabilities c =
     (let positions = filter (\<lambda>i. probabilities ! i > 0) [0..<length probabilities]
      in if positions = [] \<or> list_ex (\<lambda>w. w < 0) probabilities then None
         else Some (positions ! (c mod length positions)))"

text \<open>Up to three draws, until one gives a function that is not covered yet.\<close>

fun select_succ :: "(nat \<times> real) list \<Rightarrow> nat set \<Rightarrow> nat list \<Rightarrow> nat \<Rightarrow> nat run" where
  "select_succ table covered [] succ_index = Some succ_index"
| "select_succ table covered (c # cs) succ_index =
     (case random_select (map snd table) c of
        None \<Rightarrow> Some 0
      | Some i \<Rightarrow>
          do { (succ, _) \<leftarrow> index_m table i;
               if succ \<in> covered then select_succ table covered cs i else Some i })"

section \<open>The loops\<close>

record my_state =
  my_sequences :: "ApiSequence list"
  my_covered :: "nat set"
  my_polling :: nat
  my_current :: "ApiSequence option"
  my_need_new :: bool

text \<open>The head of the outer loop: start a sequence with the next start function in turn. The flag is
  the \<open>break\<close>.\<close>

definition my_start_step ::
  "ApiGraph \<Rightarrow> nat list \<Rightarrow> nat \<Rightarrow> my_state \<Rightarrow> (my_state \<times> bool) run" where
  "my_start_step g starts max_num st =
     (if length (my_sequences st) \<ge> max_num then Some (st, True)
      else
        do { let polling = (if my_polling st + 1 \<ge> length starts then 0 else my_polling st + 1);
             start_function_index \<leftarrow> index_m starts polling;
             r \<leftarrow> is_fun_satisfied g BareFunction start_function_index ApiSequence_new;
             Some (case r of
                 None \<Rightarrow> st\<lparr>my_polling := polling\<rparr>
               | Some s \<Rightarrow> st\<lparr>my_polling := polling, my_current := Some s, my_need_new := False,
                             my_covered := insert start_function_index (my_covered st)\<rparr>, False) })"

text \<open>Append function \<open>i\<close> to the current sequence, when its parameters can be provided.\<close>

definition my_append ::
  "ApiGraph \<Rightarrow> ApiSequence \<Rightarrow> nat \<Rightarrow> bool \<Rightarrow> my_state \<Rightarrow> (my_state \<times> bool) run" where
  "my_append g s i need_new st =
     do { r \<leftarrow> is_fun_satisfied g BareFunction i s;
          Some (case r of
              None \<Rightarrow> st
            | Some s' \<Rightarrow> st\<lparr>my_current := Some s', my_need_new := need_new,
                           my_covered := insert i (my_covered st)\<rparr>, False) }"

text \<open>One iteration of the inner loop, with the random numbers \<open>c 0, c 1, \<dots>\<close>.\<close>

definition my_inner_step ::
  "ApiGraph \<Rightarrow> nat list \<Rightarrow> (nat \<times> real) list list \<Rightarrow> nat \<Rightarrow> (nat \<Rightarrow> nat) \<Rightarrow> ApiSequence \<Rightarrow> my_state \<Rightarrow>
   (my_state \<times> bool) run" where
  "my_inner_step g starts tables max_len c s st =
     (if seq_len s \<ge> max_len then Some (st\<lparr>my_sequences := my_sequences st @ [s], my_current := None\<rparr>, False)
      else if rand_num 0 (seq_len s + 3) (c 0) = 0 \<or> my_need_new st then
        (if length starts = 0 then None
         else do { start_idx \<leftarrow> index_m starts (rand_num 0 (length starts) (c 1));
                   my_append g s start_idx False st })
      else
        do { available \<leftarrow> get_available_function_indexs s tables;
             if available = [] then Some (st\<lparr>my_need_new := True\<rparr>, False)
             else
               do { selected \<leftarrow> index_m available (rand_num 0 (length available) (c 1));
                    table \<leftarrow> index_m tables selected;
                    succ_index \<leftarrow> select_succ table (my_covered st) [c 2, c 3, c 4] 0;
                    (succ, _) \<leftarrow> index_m table succ_index;
                    my_append g s succ (my_need_new st) st } })"

text \<open>\<open>n\<close> steps of the loops, with the random numbers \<open>c\<close>; the flag tells whether they have ended.\<close>

fun my_loop ::
  "ApiGraph \<Rightarrow> nat list \<Rightarrow> (nat \<times> real) list list \<Rightarrow> nat \<Rightarrow> nat \<Rightarrow> (nat \<Rightarrow> nat \<Rightarrow> nat) \<Rightarrow> nat \<Rightarrow> my_state \<Rightarrow>
   (my_state \<times> bool) run" where
  "my_loop g starts tables max_num max_len c 0 st = Some (st, False)"
| "my_loop g starts tables max_num max_len c (Suc n) st =
     do { (st', fin) \<leftarrow> (case my_current st of
              None \<Rightarrow> my_start_step g starts max_num st
            | Some s \<Rightarrow> my_inner_step g starts tables max_len (c n) s st);
          if fin then Some (st', True) else my_loop g starts tables max_num max_len c n st' }"

text \<open>The end: the covered functions are flagged, which would panic for one out of range, and the
  sequences are stored. The flag is that of the loops; nothing is changed before they have ended.\<close>

definition my_finish :: "ApiGraph \<Rightarrow> my_state \<times> bool \<Rightarrow> (ApiGraph \<times> bool) run" where
  "my_finish g r = (case r of (st, fin) \<Rightarrow>
     if \<not> fin then Some (g, False)
     else if my_covered st \<subseteq> {..<length (api_functions_visited g)} then
       let visited = map (\<lambda>i. api_functions_visited g ! i \<or> i \<in> my_covered st)
             [0..<length (api_functions_visited g)]
       in Some (g\<lparr>api_sequences := my_sequences st, api_functions_visited := visited\<rparr>, True)
     else None)"

text \<open>The names of the start functions are printed, which is where \<open>_pretty_print\<close> may panic.\<close>

definition my_method ::
  "ApiGraph \<Rightarrow> string list option \<Rightarrow> string list option \<Rightarrow> string list option \<Rightarrow> nat \<Rightarrow> nat \<Rightarrow> bool \<Rightarrow>
   (nat \<Rightarrow> nat \<Rightarrow> nat) \<Rightarrow> nat \<Rightarrow> (ApiGraph \<times> bool) run" where
  "my_method g0 depfile orderfile funcfile max_num max_len support_generic c n =
     do { let g = reset_visited g0;
          depinfo \<leftarrow> read_pairs depfile;
          orderinfo \<leftarrow> read_pairs orderfile;
          funcinfo \<leftarrow> read_funcs funcfile;
          tables \<leftarrow> construct_function_succ_table g depinfo;
          weighted \<leftarrow> weighted_tables g orderinfo tables;
          starts \<leftarrow> extract_start_function g support_generic;
          names \<leftarrow> map_m (\<lambda>i. do { f \<leftarrow> index_m (api_functions g) i; pretty_print f }) starts;
          r \<leftarrow> my_loop g starts weighted max_num max_len c n
            \<lparr>my_sequences = [], my_covered = {}, my_polling = 0, my_current = None, my_need_new = False\<rparr>;
          my_finish g r }"

section \<open>Weights\<close>

lemma normalize_length [simp]: "length (normalize_weights ws) = length ws"
  by (simp add: normalize_weights_def Let_def)

lemma normalize_nth:
  assumes "i < length ws"
  defines "L \<equiv> \<lambda>x. ln (real x + 2)"
  shows "normalize_weights ws ! i =
    0.05 + ((L (ws ! i) - Min (L ` set ws)) * 0.9) / (1 + Max (L ` set ws) - Min (L ` set ws))"
  using assms by (auto simp: normalize_weights_def Let_def)

text \<open>The scaling of \<open>x\<close> between \<open>lo\<close> and \<open>hi\<close>.\<close>

lemma scaled_bounds:
  fixes x lo hi :: real
  assumes "lo \<le> x" and "x \<le> hi"
  shows "0.05 \<le> 0.05 + (x - lo) * 0.9 / (1 + hi - lo)" and "0.05 + (x - lo) * 0.9 / (1 + hi - lo) < 0.95"
proof -
  have pos: "0 < 1 + hi - lo" using assms by simp
  then show "0.05 \<le> 0.05 + (x - lo) * 0.9 / (1 + hi - lo)" using assms by simp
  have "(x - lo) * 0.9 < 0.9 * (1 + hi - lo)" using assms by simp
  then have "(x - lo) * 0.9 / (1 + hi - lo) < 0.9" using pos by (simp add: divide_less_eq)
  from add_strict_left_mono [OF this, of "0.05"]
  have "0.05 + (x - lo) * 0.9 / (1 + hi - lo) < 0.05 + 0.9" .
  also have "0.05 + 0.9 = (0.95 :: real)" by simp
  finally show "0.05 + (x - lo) * 0.9 / (1 + hi - lo) < 0.95" .
qed

section \<open>Tables\<close>

definition table_of :: "ApiGraph \<Rightarrow> pair_info \<Rightarrow> nat \<Rightarrow> ApiDependency list \<Rightarrow> (nat \<times> nat \<times> ApiDependency) list" where
  "table_of g depinfo i ds = map (\<lambda>d. (snd (input_fun d),
     pair_count depinfo (full_name (api_functions g ! i)) (full_name (api_functions g ! snd (input_fun d))), d))
     (filter (\<lambda>d. snd (output_fun d) = i) ds)"

definition edges_in_range :: "ApiGraph \<Rightarrow> bool" where
  "edges_in_range g \<longleftrightarrow> (\<forall>d \<in> set (api_dependencies g).
     snd (output_fun d) < length (api_functions g) \<and> snd (input_fun d) < length (api_functions g))"

lemma succ_table_loop:
  assumes "\<forall>d \<in> set ds. snd (output_fun d) < length (api_functions g) \<and>
      snd (input_fun d) < length (api_functions g)"
    and "length tables = length (api_functions g)"
  shows "fold_m (add_successor g depinfo) ds tables =
    Some (map (\<lambda>(i, t). t @ table_of g depinfo i ds) (enumerate 0 tables))"
  using assms
proof (induction ds arbitrary: tables)
  case Nil
  then show ?case by (simp add: table_of_def case_prod_unfold map_snd_enumerate)
next
  case (Cons d ds)
  let ?o = "snd (output_fun d)" and ?i = "snd (input_fun d)"
  let ?e = "(?i, pair_count depinfo (full_name (api_functions g ! ?o)) (full_name (api_functions g ! ?i)), d)"
  let ?tables = "tables[?o := tables ! ?o @ [?e]]"
  have step: "add_successor g depinfo d tables = Some ?tables"
    using Cons.prems by (simp add: add_successor_def)
  have "fold_m (add_successor g depinfo) ds ?tables =
      Some (map (\<lambda>(i, t). t @ table_of g depinfo i ds) (enumerate 0 ?tables))"
    using Cons.prems by (intro Cons.IH) simp_all
  moreover have "map (\<lambda>(i, t). t @ table_of g depinfo i ds) (enumerate 0 ?tables) =
      map (\<lambda>(i, t). t @ table_of g depinfo i (d # ds)) (enumerate 0 tables)"
    by (rule nth_equalityI) (auto simp: nth_enumerate_eq nth_list_update table_of_def)
  ultimately show ?case by (simp add: step)
qed

lemma succ_table_result:
  assumes "edges_in_range g"
  shows "construct_function_succ_table g depinfo =
    Some (map (\<lambda>i. table_of g depinfo i (api_dependencies g)) [0..<length (api_functions g)])"
proof -
  have "construct_function_succ_table g depinfo = Some (map (\<lambda>(i, t). t @ table_of g depinfo i (api_dependencies g))
      (enumerate 0 (replicate (length (api_functions g)) [])))"
    using assms by (simp add: construct_function_succ_table_def succ_table_loop edges_in_range_def)
  also have "map (\<lambda>(i, t). t @ table_of g depinfo i (api_dependencies g))
      (enumerate 0 (replicate (length (api_functions g)) [])) =
      map (\<lambda>i. table_of g depinfo i (api_dependencies g)) [0..<length (api_functions g)]"
    by (rule nth_equalityI) (simp_all add: nth_enumerate_eq)
  finally show ?thesis .
qed

definition counts_fit :: "pair_info \<Rightarrow> pair_info \<Rightarrow> bool" where
  "counts_fit depinfo orderinfo \<longleftrightarrow> (\<forall>f f'. pair_count orderinfo f f' + pair_count depinfo f f' < 2 ^ 64)"

text \<open>The successors that a table offers are the functions with an edge from its function.\<close>

definition tables_ok :: "ApiGraph \<Rightarrow> (nat \<times> real) list list \<Rightarrow> bool" where
  "tables_ok g tables \<longleftrightarrow> length tables = length (api_functions g) \<and>
     (\<forall>i < length tables. map fst (tables ! i) = map (\<lambda>d. snd (input_fun d))
        (filter (\<lambda>d. snd (output_fun d) = i) (api_dependencies g)))"

lemma weight_table_result:
  assumes "edges_in_range g" and "counts_fit depinfo orderinfo" and "i < length (api_functions g)"
  shows "\<exists>t. weight_table g orderinfo (i, table_of g depinfo i (api_dependencies g)) = Some t \<and>
    map fst t = map (\<lambda>d. snd (input_fun d)) (filter (\<lambda>d. snd (output_fun d) = i) (api_dependencies g))"
proof -
  let ?t = "table_of g depinfo i (api_dependencies g)"
  let ?w = "\<lambda>(succ, freq, _). do { f' \<leftarrow> index_m (api_functions g) succ;
      usize_m (pair_count orderinfo (full_name (api_functions g ! i)) (full_name f') + freq) }"
  have "map_m ?w ?t \<noteq> None"
    using assms(1,2) by (intro map_m_no_panic) (auto simp: table_of_def edges_in_range_def counts_fit_def usize_m_def)
  then obtain ws where ws: "map_m ?w ?t = Some ws" by blast
  then have "weight_table g orderinfo (i, ?t) = Some (zip (map fst ?t) (normalize_weights ws))"
    using assms(3) by (simp add: weight_table_def)
  moreover have "map fst (zip (map fst ?t) (normalize_weights ws)) = map fst ?t"
    using map_m_length [OF ws] by (simp add: map_fst_zip)
  ultimately show ?thesis by (simp add: table_of_def comp_def)
qed

lemma weighted_tables_result:
  assumes "edges_in_range g" and "counts_fit depinfo orderinfo"
  shows "\<exists>tables weighted. construct_function_succ_table g depinfo = Some tables \<and>
    weighted_tables g orderinfo tables = Some weighted \<and> tables_ok g weighted"
proof -
  let ?tables = "map (\<lambda>i. table_of g depinfo i (api_dependencies g)) [0..<length (api_functions g)]"
  have entry: "enumerate 0 ?tables ! i = (i, table_of g depinfo i (api_dependencies g))"
    if "i < length (api_functions g)" for i using that by (simp add: nth_enumerate_eq)
  have "weight_table g orderinfo it \<noteq> None" if "it \<in> set (enumerate 0 ?tables)" for it
    using that weight_table_result [OF assms] by (fastforce simp: in_set_conv_nth entry)
  then obtain weighted where w: "map_m (weight_table g orderinfo) (enumerate 0 ?tables) = Some weighted"
    using map_m_no_panic by blast
  have "tables_ok g weighted"
    using map_m_length [OF w] map_m_nth [OF w] weight_table_result [OF assms]
    by (fastforce simp: tables_ok_def entry)
  with w succ_table_result [OF assms(1), of depinfo] show ?thesis by (simp add: weighted_tables_def)
qed

section \<open>What a step keeps\<close>

definition my_inv :: "ApiGraph \<Rightarrow> nat \<Rightarrow> nat \<Rightarrow> my_state \<Rightarrow> bool" where
  "my_inv g max_num max_len st \<longleftrightarrow>
     (\<forall>s \<in> set (my_sequences st). seq_safe g s \<and> seq_len s = max 1 max_len) \<and>
     (case my_current st of
        None \<Rightarrow> length (my_sequences st) \<le> max_num
      | Some s \<Rightarrow> seq_safe g s \<and> 1 \<le> seq_len s \<and> seq_len s \<le> max 1 max_len \<and> length (my_sequences st) < max_num) \<and>
     my_covered st = (\<Union>s \<in> set (my_sequences st) \<union> set_option (my_current st). set (seq_calls s))"

lemma seq_len_calls: "seq_len s = length (seq_calls s)"
  by (simp add: seq_len_def seq_calls_def)

lemma satisfied_cases:
  assumes "graph_wf g" and "seq_safe g s" and "i < length (api_functions g)"
  obtains "is_fun_satisfied g BareFunction i s = Some None"
  | s' where "is_fun_satisfied g BareFunction i s = Some (Some s')" "seq_safe g s'"
      "seq_calls s' = seq_calls s @ [i]"
proof -
  obtain r where r: "is_fun_satisfied g BareFunction i s = Some r"
    using is_fun_satisfied_no_panic [OF assms(1,3,2)] by blast
  with that is_fun_satisfied_safe [OF assms(2)] is_fun_satisfied_calls show thesis by (cases r) blast+
qed

lemma my_start_step_inv:
  assumes "graph_wf g" and "my_inv g max_num max_len st" and "my_current st = None"
    and "starts \<noteq> []" and "set starts \<subseteq> {..<length (api_functions g)}"
  shows "\<exists>st' fin. my_start_step g starts max_num st = Some (st', fin) \<and> my_inv g max_num max_len st' \<and>
    (fin \<longrightarrow> st' = st \<and> length (my_sequences st) = max_num)"
proof (cases "length (my_sequences st) \<ge> max_num")
  case True
  with assms(2,3) show ?thesis by (intro exI [of _ st] exI [of _ True]) (simp add: my_start_step_def my_inv_def)
next
  case False
  let ?p = "if my_polling st + 1 \<ge> length starts then 0 else my_polling st + 1"
  have p: "?p < length starts" using assms(4) by auto
  from nth_mem [OF p] have i: "starts ! ?p < length (api_functions g)"
    using assms(5) lessThan_iff by blast
  show ?thesis
  proof (cases rule: satisfied_cases [OF assms(1) empty_safe i])
    case 1
    with False p assms(2,3) show ?thesis by (auto simp: my_start_step_def my_inv_def Let_def)
  next
    case (2 s')
    then have "seq_calls s' = [starts ! ?p]" by (simp add: seq_calls_def ApiSequence_new_def)
    moreover from this have "seq_len s' = 1" by (simp add: seq_len_calls)
    ultimately show ?thesis
      using False p 2 assms(2,3) by (auto simp: my_start_step_def my_inv_def Let_def)
  qed
qed

lemma my_append_inv:
  assumes "graph_wf g" and "my_inv g max_num max_len st" and "my_current st = Some s"
    and "i < length (api_functions g)" and "seq_len s < max_len"
  shows "\<exists>st'. my_append g s i need_new st = Some (st', False) \<and> my_inv g max_num max_len st'"
proof -
  from assms(2,3) have "seq_safe g s" by (simp add: my_inv_def)
  with assms(1) show ?thesis using assms(4)
  proof (cases rule: satisfied_cases)
    case 1
    with assms(2) show ?thesis by (simp add: my_append_def)
  next
    case (2 s')
    then have "seq_len s' = Suc (seq_len s)" by (simp add: seq_len_calls)
    with 2 assms(2,3,5) show ?thesis by (auto simp: my_append_def my_inv_def)
  qed
qed

lemma random_select_bound:
  assumes "random_select probabilities c = Some i"
  shows "i < length probabilities" and "probabilities ! i > 0"
proof -
  let ?ps = "filter (\<lambda>i. probabilities ! i > 0) [0..<length probabilities]"
  from assms have "?ps \<noteq> []" "i = ?ps ! (c mod length ?ps)"
    by (auto simp: random_select_def Let_def split: if_splits)
  then have "i \<in> set ?ps" using nth_mem [of "c mod length ?ps" ?ps] by simp
  then show "i < length probabilities" "probabilities ! i > 0" by auto
qed

lemma select_succ_in_range:
  assumes "table \<noteq> []" and "k < length table"
  shows "\<exists>i. select_succ table covered cs k = Some i \<and> i < length table"
  using assms(2)
proof (induction cs arbitrary: k)
  case (Cons c cs)
  show ?case
  proof (cases "random_select (map snd table) c")
    case None
    with assms(1) show ?thesis by simp
  next
    case (Some i)
    with random_select_bound(1) [OF Some] Cons.IH show ?thesis by (auto split: prod.splits)
  qed
qed simp

lemma available_functions:
  assumes "seq_safe g s" and "tables_ok g tables"
  shows "\<exists>available. get_available_function_indexs s tables = Some available \<and>
    (\<forall>i \<in> set available. i < length tables \<and> tables ! i \<noteq> [])"
proof -
  let ?calls = "seq_functions s"
  let ?k = "\<lambda>(i, call). do { table \<leftarrow> index_m tables (snd (func call)); Some (length table > 0 \<and> \<not> is_moved s i) }"
  have inr: "snd (func call) < length tables" if "call \<in> set ?calls" for call
    using seq_safe_calls [OF assms(1), of "snd (func call)"] that assms(2)
    by (simp add: seq_calls_def tables_ok_def)
  have mem: "snd ic \<in> set ?calls" if "ic \<in> set (enumerate 0 ?calls)" for ic
    using that nth_mem [of "fst ic" ?calls] by (simp add: in_set_enumerate_eq)
  have "map_m ?k (enumerate 0 ?calls) = map_m (\<lambda>(i, call). Some (tables ! snd (func call) \<noteq> [] \<and> \<not> is_moved s i))
      (enumerate 0 ?calls)"
    by (rule map_m_cong) (use inr mem in \<open>auto split: prod.splits\<close>)
  also have "\<dots> = Some (map (\<lambda>(i, call). tables ! snd (func call) \<noteq> [] \<and> \<not> is_moved s i) (enumerate 0 ?calls))"
    using map_m_Some [of "\<lambda>(i, call). tables ! snd (func call) \<noteq> [] \<and> \<not> is_moved s i"] by (simp add: case_prod_unfold)
  finally have run: "get_available_function_indexs s tables = Some (map (\<lambda>(_, call). snd (func call))
      (filter fst (zip (map (\<lambda>(i, call). tables ! snd (func call) \<noteq> [] \<and> \<not> is_moved s i) (enumerate 0 ?calls)) ?calls)))"
    unfolding get_available_function_indexs_def by simp
  show ?thesis
  proof (intro exI conjI ballI, rule run)
    fix i assume "i \<in> set (map (\<lambda>(_, call). snd (func call)) (filter fst (zip (map (\<lambda>(i, call).
      tables ! snd (func call) \<noteq> [] \<and> \<not> is_moved s i) (enumerate 0 ?calls)) ?calls)))"
    then obtain n where n: "n < length ?calls" "i = snd (func (?calls ! n))" "tables ! i \<noteq> []"
      by (auto simp: in_set_zip nth_enumerate_eq)
    with inr [of "?calls ! n"] show "i < length tables" "tables ! i \<noteq> []" by auto
  qed
qed

lemma my_inner_step_inv:
  assumes "graph_wf g" and "my_inv g max_num max_len st" and "my_current st = Some s"
    and "starts \<noteq> []" and "set starts \<subseteq> {..<length (api_functions g)}"
    and "edges_in_range g" and "tables_ok g tables"
  shows "\<exists>st'. my_inner_step g starts tables max_len c s st = Some (st', False) \<and> my_inv g max_num max_len st'"
proof (cases "seq_len s \<ge> max_len")
  case True
  with assms(2,3) show ?thesis by (auto simp: my_inner_step_def my_inv_def)
next
  case False
  then have short: "seq_len s < max_len" by simp
  have safe: "seq_safe g s" using assms(2,3) by (simp add: my_inv_def)
  show ?thesis
  proof (cases "rand_num 0 (seq_len s + 3) (c 0) = 0 \<or> my_need_new st")
    case True
    let ?i = "rand_num 0 (length starts) (c 1)"
    have i: "?i < length starts" using assms(4) by (simp add: rand_num_def)
    from nth_mem [OF this] have "starts ! ?i < length (api_functions g)"
      using assms(5) lessThan_iff by blast
    with True False i assms(4) my_append_inv [OF assms(1-3) _ short, of "starts ! ?i" False] show ?thesis
      by (simp add: my_inner_step_def)
  next
    case old: False
    from available_functions [OF safe assms(7)] obtain available
      where av: "get_available_function_indexs s tables = Some available"
        "\<forall>i \<in> set available. i < length tables \<and> tables ! i \<noteq> []" by blast
    show ?thesis
    proof (cases "available = []")
      case True
      with False old av assms(2,3) show ?thesis by (auto simp: my_inner_step_def my_inv_def)
    next
      case some: False
      let ?j = "rand_num 0 (length available) (c 1)"
      have j: "?j < length available" using some by (simp add: rand_num_def)
      let ?t = "tables ! (available ! ?j)"
      from av(2) nth_mem [OF j] have t: "available ! ?j < length tables" "?t \<noteq> []" by blast+
      then obtain k where k: "select_succ ?t (my_covered st) [c 2, c 3, c 4] 0 = Some k" "k < length ?t"
        using select_succ_in_range [of ?t 0 "my_covered st" "[c 2, c 3, c 4]"] by auto
      have "fst (?t ! k) \<in> set (map fst ?t)" using k(2) by simp
      also have "map fst ?t = map (\<lambda>d. snd (input_fun d))
          (filter (\<lambda>d. snd (output_fun d) = available ! ?j) (api_dependencies g))"
        using assms(7) t(1) unfolding tables_ok_def by blast
      finally have "fst (?t ! k) < length (api_functions g)"
        using assms(6) by (auto simp: edges_in_range_def)
      with my_append_inv [OF assms(1-3) _ short, of "fst (?t ! k)" "my_need_new st"] False old av(1) some j t(1) k
      show ?thesis by (simp add: my_inner_step_def case_prod_unfold)
    qed
  qed
qed

lemma my_loop_inv:
  assumes "graph_wf g" and "starts \<noteq> []" and "set starts \<subseteq> {..<length (api_functions g)}"
    and "edges_in_range g" and "tables_ok g tables" and "my_inv g max_num max_len st"
  shows "\<exists>st' fin. my_loop g starts tables max_num max_len c n st = Some (st', fin) \<and>
    my_inv g max_num max_len st' \<and> (fin \<longrightarrow> my_current st' = None \<and> length (my_sequences st') = max_num)"
  using assms(6)
proof (induction n arbitrary: st)
  case (Suc n)
  show ?case
  proof (cases "my_current st")
    case None
    from my_start_step_inv [OF assms(1) Suc.prems None assms(2,3)] obtain st' fin
      where "my_start_step g starts max_num st = Some (st', fin)" "my_inv g max_num max_len st'"
        "fin \<longrightarrow> st' = st \<and> length (my_sequences st) = max_num" by blast
    with None Suc.IH [of st'] show ?thesis by (cases fin) auto
  next
    case (Some s)
    from my_inner_step_inv [OF assms(1) Suc.prems Some assms(2-5), of "c n"] obtain st'
      where "my_inner_step g starts tables max_len (c n) s st = Some (st', False)" "my_inv g max_num max_len st'"
      by blast
    with Some Suc.IH [of st'] show ?thesis by simp
  qed
qed auto

lemma start_functions:
  assumes "graph_wf g"
  shows "\<exists>starts. extract_start_function g sg = Some starts \<and> set starts \<subseteq> {..<length (api_functions g)} \<and>
    (\<forall>i < length (api_functions g). i \<in> set starts \<longleftrightarrow>
       is_start_function (graph_cache g) (full_name_map g) sg (api_functions g ! i) = Some True)"
proof -
  let ?p = "is_start_function (graph_cache g) (full_name_map g) sg"
  have "map_m ?p (api_functions g) \<noteq> None"
    using assms is_start_function_no_panic
    by (intro map_m_no_panic) (auto simp: graph_wf_def resolved_graph_def list_all_iff simp del: not_None_eq)
  then obtain flags where flags: "map_m ?p (api_functions g) = Some flags" by blast
  have len: "length flags = length (api_functions g)" by (rule map_m_length [OF flags])
  have "i \<in> set (map fst (filter snd (enumerate 0 flags))) \<longleftrightarrow> i < length flags \<and> flags ! i" for i
    by (force simp: in_set_enumerate_eq image_iff)
  with flags len map_m_nth [OF flags] show ?thesis
    by (auto simp: extract_start_function_def subset_iff simp del: set_map)
qed

section \<open>The properties of the weighted search\<close>

text \<open>Weights: they are positive, below 0.95, the smallest one is 0.05, and their order is that of the
  counts.\<close>

theorem normalize_weights_bounds:
  assumes "i < length ws" and "j < length ws"
  shows "0.05 \<le> normalize_weights ws ! i \<and> normalize_weights ws ! i < 0.95 \<and>
    (ws ! i \<le> ws ! j \<longleftrightarrow> normalize_weights ws ! i \<le> normalize_weights ws ! j) \<and>
    (ws ! i = Min (set ws) \<longrightarrow> normalize_weights ws ! i = 0.05)"
proof -
  let ?L = "\<lambda>x :: nat. ln (real x + 2)"
  let ?lo = "Min (?L ` set ws)" and ?hi = "Max (?L ` set ws)"
  have mono: "?L x \<le> ?L y \<longleftrightarrow> x \<le> y" for x y by simp
  have mem: "?L (ws ! k) \<in> ?L ` set ws" if "k < length ws" for k using that by simp
  have b: "?lo \<le> ?L (ws ! k) \<and> ?L (ws ! k) \<le> ?hi" if "k < length ws" for k
    using mem [OF that] by simp
  have pos: "0 < 1 + ?hi - ?lo" using b [OF assms(1)] by linarith
  note ni = normalize_nth [OF assms(1)] and nj = normalize_nth [OF assms(2)]
  have "ws ! i \<le> ws ! j \<longleftrightarrow> normalize_weights ws ! i \<le> normalize_weights ws ! j"
    unfolding ni nj using pos mono by (simp add: divide_le_cancel)
  moreover have "normalize_weights ws ! i = 0.05" if "ws ! i = Min (set ws)"
  proof -
    have "?L (ws ! i) \<le> ?L x" if "x \<in> set ws" for x
      using that \<open>ws ! i = Min (set ws)\<close> mono by simp
    then have "?lo = ?L (ws ! i)" using assms(1) by (intro Min_eqI) auto
    then show ?thesis by (simp add: ni)
  qed
  ultimately show ?thesis using scaled_bounds [of ?lo "?L (ws ! i)" ?hi] b [OF assms(1)] by (simp add: ni)
qed

lemma normalize_weights_bounds_witness:
  "0.05 \<le> normalize_weights [7, 0, 100] ! 1 \<and> normalize_weights [7, 0, 100] ! 1 < 0.95"
  using normalize_weights_bounds [of 1 "[7, 0, 100]" 2] by simp

definition corpus_readable :: "string list option \<Rightarrow> string list option \<Rightarrow> string list option \<Rightarrow> bool" where
  "corpus_readable depfile orderfile funcfile \<longleftrightarrow>
     (\<exists>depinfo orderinfo. read_pairs depfile = Some depinfo \<and> read_pairs orderfile = Some orderinfo \<and>
        counts_fit depinfo orderinfo) \<and> read_funcs funcfile \<noteq> None"

lemma my_method_unfold:
  assumes "graph_wf g" and "edges_in_range g" and "\<forall>f \<in> set (api_functions g). pretty_print f \<noteq> None"
    and "corpus_readable depfile orderfile funcfile"
  shows "\<exists>starts weighted. extract_start_function g sg = Some starts \<and>
    set starts \<subseteq> {..<length (api_functions g)} \<and> tables_ok g weighted \<and>
    my_method g depfile orderfile funcfile max_num max_len sg c n =
      do { r \<leftarrow> my_loop (reset_visited g) starts weighted max_num max_len c n
             \<lparr>my_sequences = [], my_covered = {}, my_polling = 0, my_current = None, my_need_new = False\<rparr>;
           my_finish (reset_visited g) r }"
proof -
  let ?g = "reset_visited g"
  have fields: "api_functions ?g = api_functions g" "api_dependencies ?g = api_dependencies g"
    "graph_cache ?g = graph_cache g" "full_name_map ?g = full_name_map g"
    "api_functions_visited ?g = replicate (length (api_functions g)) False"
    by (simp_all add: reset_visited_def)
  from assms(4) obtain depinfo orderinfo funcinfo where files: "read_pairs depfile = Some depinfo"
      "read_pairs orderfile = Some orderinfo" "read_funcs funcfile = Some funcinfo" "counts_fit depinfo orderinfo"
    by (auto simp: corpus_readable_def)
  have "edges_in_range ?g" using assms(2) by (simp add: edges_in_range_def fields)
  from weighted_tables_result [OF this files(4)] obtain tables weighted
    where tabs: "construct_function_succ_table ?g depinfo = Some tables"
      "weighted_tables ?g orderinfo tables = Some weighted" "tables_ok ?g weighted" by blast
  then have ok: "tables_ok g weighted" by (simp add: tables_ok_def fields)
  from start_functions [OF assms(1), of sg] obtain starts where starts: "extract_start_function g sg = Some starts"
      "set starts \<subseteq> {..<length (api_functions g)}" by blast
  have same: "extract_start_function ?g sg = Some starts"
    using starts(1) by (simp add: extract_start_function_def fields)
  have "map_m (\<lambda>i. do { f \<leftarrow> index_m (api_functions g) i; pretty_print f }) starts \<noteq> None"
    using starts(2) assms(3) by (intro map_m_no_panic) (auto simp: subset_iff)
  then obtain names where "map_m (\<lambda>i. do { f \<leftarrow> index_m (api_functions g) i; pretty_print f }) starts = Some names"
    by blast
  then show ?thesis
    using starts ok by (intro exI [of _ starts] exI [of _ weighted])
      (simp add: my_method_def Let_def files same tabs(1,2) fields)
qed

lemma my_finish_result:
  assumes "my_covered st \<subseteq> {..<length (api_functions g)}"
  shows "\<exists>g'. my_finish (reset_visited g) (st, True) = Some (g', True) \<and> same_crate g g' \<and>
    api_sequences g' = my_sequences st \<and> visited_set (api_sequences g', api_functions_visited g') = my_covered st"
  using assms by (auto simp: my_finish_def reset_visited_def visited_set_def same_crate_def)

lemma my_method_result:
  assumes "graph_wf g" and "edges_in_range g" and "\<forall>f \<in> set (api_functions g). pretty_print f \<noteq> None"
    and "corpus_readable depfile orderfile funcfile" and "extract_start_function g sg \<noteq> Some []"
  shows "\<exists>g' fin. my_method g depfile orderfile funcfile max_num max_len sg c n = Some (g', fin) \<and>
    same_crate g g' \<and>
    (fin \<longrightarrow> length (api_sequences g') = max_num \<and>
       (\<forall>s \<in> set (api_sequences g'). seq_safe g s \<and> seq_len s = max 1 max_len) \<and>
       visited_set (api_sequences g', api_functions_visited g') =
         (\<Union>s \<in> set (api_sequences g'). set (seq_calls s))) \<and>
    (\<not> fin \<longrightarrow> api_sequences g' = api_sequences g)"
proof -
  let ?st0 = "\<lparr>my_sequences = [], my_covered = {}, my_polling = 0, my_current = None, my_need_new = False\<rparr>"
  from my_method_unfold [OF assms(1-4), of sg max_num max_len c n] obtain starts weighted
    where starts: "extract_start_function g sg = Some starts" "set starts \<subseteq> {..<length (api_functions g)}"
      and ok: "tables_ok g weighted" and run: "my_method g depfile orderfile funcfile max_num max_len sg c n =
      do { r \<leftarrow> my_loop (reset_visited g) starts weighted max_num max_len c n ?st0;
           my_finish (reset_visited g) r }" by blast
  have same: "same_crate g (reset_visited g)" by simp
  have "graph_wf (reset_visited g)" "edges_in_range (reset_visited g)" "tables_ok (reset_visited g) weighted"
      "set starts \<subseteq> {..<length (api_functions (reset_visited g))}" "starts \<noteq> []"
    using assms(1,2,5) ok starts by (auto simp: same_crate_simps [OF same] edges_in_range_def tables_ok_def)
  moreover have "my_inv (reset_visited g) max_num max_len ?st0" by (simp add: my_inv_def)
  ultimately obtain st fin where st: "my_loop (reset_visited g) starts weighted max_num max_len c n ?st0 = Some (st, fin)"
      "my_inv (reset_visited g) max_num max_len st"
      "fin \<longrightarrow> my_current st = None \<and> length (my_sequences st) = max_num"
    using my_loop_inv [of "reset_visited g" starts weighted max_num max_len ?st0 c n] by blast
  show ?thesis
  proof (cases fin)
    case True
    have safe: "\<forall>s \<in> set (my_sequences st). seq_safe g s \<and> seq_len s = max 1 max_len"
      using st(2) by (simp add: my_inv_def same_seq_safe [OF same])
    have cov: "my_covered st = (\<Union>s \<in> set (my_sequences st). set (seq_calls s))"
      using st(2,3) True by (simp add: my_inv_def)
    moreover have "\<dots> \<subseteq> {..<length (api_functions g)}" using safe seq_safe_calls by auto
    ultimately obtain g' where "my_finish (reset_visited g) (st, True) = Some (g', True)" "same_crate g g'"
        "api_sequences g' = my_sequences st" "visited_set (api_sequences g', api_functions_visited g') = my_covered st"
      using my_finish_result [of st g] by auto
    with run st(1,3) True safe cov show ?thesis by (intro exI [of _ g'] exI [of _ True]) simp
  next
    case False
    with run st(1) show ?thesis
      by (intro exI [of _ "reset_visited g"] exI [of _ False]) (simp add: my_finish_def reset_visited_def)
  qed
qed

text \<open>C20. On a well-formed graph whose edges are in range and whose functions have printable names, with
  readable corpus files whose counts fit in a word and at least one start function, \<open>my_method\<close> does
  not panic, whatever the random numbers and after any number of steps. When its loops have ended, it
  has found exactly \<open>max_num\<close> safe sequences, each of \<open>max_len\<close> calls (of one call when \<open>max_len\<close> is
  zero), and the visited functions are exactly those that occur in them; before that it stores none.
  Without a start function, or on a file it cannot read, it does panic, and whether the loops end depends
  on the random numbers.\<close>

theorem my_method_correct:
  assumes "graph_wf g" and "edges_in_range g" and "\<forall>f \<in> set (api_functions g). pretty_print f \<noteq> None"
    and "corpus_readable depfile orderfile funcfile" and "extract_start_function g sg \<noteq> Some []"
  shows "\<exists>g' fin. my_method g depfile orderfile funcfile max_num max_len sg c n = Some (g', fin) \<and>
    same_crate g g' \<and>
    (fin \<longrightarrow> length (api_sequences g') = max_num \<and>
       (\<forall>s \<in> set (api_sequences g'). seq_safe g s \<and> seq_len s = max 1 max_len) \<and>
       visited_set (api_sequences g', api_functions_visited g') =
         (\<Union>s \<in> set (api_sequences g'). set (seq_calls s))) \<and>
    (\<not> fin \<longrightarrow> api_sequences g' = api_sequences g)"
  by (rule my_method_result [OF assms])

lemma crate_graph_edges_facts:
  "edges_in_range crate_graph_edges" "\<forall>f \<in> set (api_functions crate_graph_edges). pretty_print f \<noteq> None"
  by (simp_all add: edges_in_range_def crate_graph_edges_def crate_graph_def api_def pretty_print_def widget_def)

lemma no_corpus_readable: "corpus_readable None None None"
  by (simp add: corpus_readable_def read_pairs_def read_funcs_def counts_fit_def pair_count_def)

lemma crate_graph_edges_starts: "extract_start_function crate_graph_edges False = Some [0]"
proof -
  have cm: "graph_cache crate_graph_edges = empty_cache" "full_name_map crate_graph_edges = core_names"
    by (simp_all add: crate_graph_edges_def crate_graph_def ApiGraph_new_def)
  have ends: "is_end_type empty_cache core_names False widget = Some False"
    by (simp add: widget_def) (simp add: widget_def [symmetric])
  show ?thesis
    unfolding extract_start_function_def cm
    by (simp add: crate_graph_edges_def crate_graph_def api_def is_start_function_def ends)
qed

lemma crate_graph_edges_start: "extract_start_function crate_graph_edges False \<noteq> Some []"
  by (simp add: crate_graph_edges_starts)

text \<open>The constructor of the example crate can be called at any time.\<close>

lemma crate_graph_new_call:
  assumes "\<not> contains_multi_dynamic_length_fuzzable s"
  shows "\<exists>s'. is_fun_satisfied (reset_visited crate_graph_edges) BareFunction 0 s = Some (Some s') \<and>
    seq_len s' = Suc (seq_len s) \<and> \<not> contains_multi_dynamic_length_fuzzable s'"
  using assms
  by (simp add: is_fun_satisfied_def reset_visited_def crate_graph_edges_def crate_graph_def api_def
      satisfy_param_def satisfy_fuzzable_def is_fuzzable_type_def need_mut_tag_def Let_def add_fn_def
      contains_multi_dynamic_length_fuzzable_def seq_len_def)

text \<open>With the random number 0 throughout, two calls of the constructor are found in four steps.\<close>

lemma my_method_ends:
  "\<exists>g'. my_method crate_graph_edges None None None 1 2 False (\<lambda>n k. 0) 4 = Some (g', True)"
proof -
  let ?st0 = "\<lparr>my_sequences = [], my_covered = {}, my_polling = 0, my_current = None, my_need_new = False\<rparr>"
  obtain weighted where run: "my_method crate_graph_edges None None None 1 2 False (\<lambda>n k. 0) 4 =
      do { r \<leftarrow> my_loop (reset_visited crate_graph_edges) [0] weighted 1 2 (\<lambda>n k. 0) 4 ?st0;
           my_finish (reset_visited crate_graph_edges) r }"
    using my_method_unfold [OF crate_graph_edges_wf crate_graph_edges_facts no_corpus_readable, of False 1 2 "\<lambda>n k. 0" 4]
    by (auto simp: crate_graph_edges_starts)
  have "\<not> contains_multi_dynamic_length_fuzzable ApiSequence_new"
    by (simp add: contains_multi_dynamic_length_fuzzable_def ApiSequence_new_def)
  from crate_graph_new_call [OF this] obtain s1
    where s1: "is_fun_satisfied (reset_visited crate_graph_edges) BareFunction 0 ApiSequence_new = Some (Some s1)"
      "seq_len s1 = 1" "\<not> contains_multi_dynamic_length_fuzzable s1"
    by (auto simp: seq_len_def ApiSequence_new_def)
  from crate_graph_new_call [OF s1(3)] s1(2) obtain s2
    where s2: "is_fun_satisfied (reset_visited crate_graph_edges) BareFunction 0 s1 = Some (Some s2)" "seq_len s2 = 2"
    by auto
  have four: "4 = Suc (Suc (Suc (Suc 0)))" by simp
  have "my_loop (reset_visited crate_graph_edges) [0] weighted 1 2 (\<lambda>n k. 0) 4 ?st0 =
      Some (\<lparr>my_sequences = [s2], my_covered = {0}, my_polling = 0, my_current = None, my_need_new = False\<rparr>, True)"
    unfolding four by (simp add: my_start_step_def my_inner_step_def my_append_def rand_num_def index_m_def Let_def
        s1 s2)
  then show ?thesis
    unfolding run by (simp add: my_finish_def) (simp add: reset_visited_def crate_graph_edges_length)
qed

lemma my_method_correct_witness:
  "\<exists>g'. my_method crate_graph_edges None None None 1 2 False (\<lambda>n k. 0) 4 = Some (g', True) \<and>
    same_crate crate_graph_edges g' \<and> length (api_sequences g') = 1 \<and>
    (\<forall>s \<in> set (api_sequences g'). seq_safe crate_graph_edges s \<and> seq_len s = 2)"
  using my_method_correct [OF crate_graph_edges_wf crate_graph_edges_facts no_corpus_readable crate_graph_edges_start,
      of 1 2 "\<lambda>n k. 0" 4] my_method_ends
  by auto

text \<open>C40. Without a start function \<open>my_method\<close> panics as soon as a sequence is asked for: the index into
  the empty list of start functions is out of range.\<close>

theorem my_method_no_start:
  assumes "graph_wf g" and "edges_in_range g" and "\<forall>f \<in> set (api_functions g). pretty_print f \<noteq> None"
    and "corpus_readable depfile orderfile funcfile" and "extract_start_function g sg = Some []"
  shows "my_method g depfile orderfile funcfile (Suc max_num) max_len sg c (Suc n) = None"
proof -
  from my_method_unfold [OF assms(1-4), of sg "Suc max_num" max_len c "Suc n"] assms(5) obtain weighted
    where "my_method g depfile orderfile funcfile (Suc max_num) max_len sg c (Suc n) =
      do { r \<leftarrow> my_loop (reset_visited g) [] weighted (Suc max_num) max_len c (Suc n)
             \<lparr>my_sequences = [], my_covered = {}, my_polling = 0, my_current = None, my_need_new = False\<rparr>;
           my_finish (reset_visited g) r }" by auto
  then show ?thesis by (simp add: my_start_step_def Let_def index_m_def)
qed

lemma my_method_no_start_witness:
  "my_method (ApiGraph_new ''krate'' empty_cache) None None None (Suc 0) 3 False (\<lambda>n k. 0) (Suc 0) = None"
  by (rule my_method_no_start)
    (simp_all add: ApiGraph_new_def graph_wf_def resolved_graph_def edges_in_range_def no_corpus_readable
      extract_start_function_def)

end
