(* ===== verification/Sequence_Text.thy ===== *)
theory Sequence_Text
  imports Api_Graph
begin

text \<open>
  \<open>api_sequence.rs\<close>, the printing: a sequence becomes the text of a fuzz target. The target checks the
  length of the input, reads one value per fuzzed parameter out of it, and passes the values to a
  function that makes the calls one after the other. \<open>replay_util.rs\<close> gives the text that reads a
  crash file. Hash sets are printed in an order that is not specified; it is an argument here.
\<close>

section \<open>Small texts\<close>

definition generate_indent :: "nat \<Rightarrow> string" where
  "generate_indent n = replicate n CHR 0x20"

definition print_sequence :: "ApiGraph \<Rightarrow> ApiSequence \<Rightarrow> string run" where
  "print_sequence g s =
     do { names \<leftarrow> map_m (\<lambda>call. do { f \<leftarrow> index_m (api_functions g) (snd (func call));
                                    n \<leftarrow> pretty_print f;
                                    Some (''['' @ n @ ''] '') }) (seq_functions s);
          Some ([CHR 0xE6, CHR 0x89, CHR 0x93, CHR 0xE5, CHR 0x8D, CHR 0xB0] @ ''sequence: '' @
                concat names @ nl) }"

section \<open>The closure that reads the input\<close>

definition every_dynamic_length :: "ApiSequence \<Rightarrow> string" where
  "every_dynamic_length s =
     ''let dynamic_length = (data.len() - '' @ string_of_nat (fuzzable_fixed_part_length s) @ '') / '' @
     string_of_nat (seq_dynamic_length_param_number s)"

text \<open>The loop over the fuzzed parameters, with the position of the next fixed part and the number of
  the next dynamic part as its state.\<close>

fun closure_params :: "string \<Rightarrow> nat \<Rightarrow> nat \<Rightarrow> nat \<Rightarrow> nat \<Rightarrow> nat \<Rightarrow> FuzzableType list \<Rightarrow> string run" where
  "closure_params ind dyn_start tot i fixed dyn [] = Some ''''"
| "closure_params ind dyn_start tot i fixed dyn (p # ps) =
     do { line \<leftarrow> generate_param_initial_statement (new_from_fuzzable p) i fixed dyn_start dyn tot
                   ''dynamic_length'' p;
          rest \<leftarrow> closure_params ind dyn_start tot (i + 1) (fixed + fixed_part_length p)
                   (dyn + dynamic_length_param_number p) ps;
          Some (ind @ line @ nl @ rest) }"

definition test_function_call :: "ApiSequence \<Rightarrow> string \<Rightarrow> nat \<Rightarrow> string" where
  "test_function_call s ind test_index =
     ind @ ''test_function'' @ string_of_nat test_index @ ''('' @
     concat (map (\<lambda>i. (if i \<noteq> 0 then '' ,'' else '''') @ ''_param'' @ string_of_nat i)
       [0..<length (fuzzable_params s)]) @ '');'' @ nl"

definition afl_closure_body :: "ApiSequence \<Rightarrow> nat \<Rightarrow> nat \<Rightarrow> string run" where
  "afl_closure_body s outer_indent test_index =
     (let ind = generate_indent (outer_indent + 4);
          op = (if is_fuzzables_fixed_length s then ''!='' else ''<'');
          dyn_start = fuzzable_fixed_part_length s;
          tot = seq_dynamic_length_param_number s
      in do { reads \<leftarrow> closure_params ind dyn_start tot 0 0 0 (fuzzable_params s);
              Some (ind @ ''//actual body emit'' @ nl @
                ind @ ''if data.len() '' @ op @ '' '' @ string_of_nat (fuzzables_min_length s) @
                  '' {return;}'' @ nl @
                (if \<not> is_fuzzables_fixed_length s then ind @ every_dynamic_length s @ '';'' @ nl else '''') @
                reads @ test_function_call s ind test_index) })"

definition afl_main_function :: "ApiSequence \<Rightarrow> nat \<Rightarrow> string run" where
  "afl_main_function s test_index =
     do { body \<leftarrow> afl_closure_body s 4 test_index;
          Some (''fn main() {'' @ nl @ generate_indent 4 @ ''fuzz!(|data: &[u8]| {'' @ nl @ body @
            generate_indent 4 @ ''});'' @ nl @ ''}'' @ nl) }"

definition reproduce_main_function :: "ApiSequence \<Rightarrow> nat \<Rightarrow> string run" where
  "reproduce_main_function s test_index =
     do { body \<leftarrow> afl_closure_body s 0 test_index;
          Some (''fn main() {'' @ nl @
            ''    let _content = _read_data();'' @ nl @
            ''    let data = &_content;'' @ nl @
            ''    println!('' @ dq @ ''data = {:?}'' @ dq @ '', data);'' @ nl @
            ''    println!('' @ dq @ ''data len = {:?}'' @ dq @ '', data.len());'' @ nl @
            body @ nl @ ''}'') }"

definition libfuzzer_fuzz_main :: "ApiSequence \<Rightarrow> nat \<Rightarrow> string run" where
  "libfuzzer_fuzz_main s test_index =
     do { body \<leftarrow> afl_closure_body s 0 test_index;
          Some (''fuzz_target!(|data: &[u8]| {'' @ nl @ body @ ''});'' @ nl) }"

section \<open>The function that makes the calls\<close>

text \<open>A trait that several calls need is imported once.\<close>

fun using_traits_loop :: "string \<Rightarrow> string list \<Rightarrow> string set \<Rightarrow> string" where
  "using_traits_loop ind [] used = ''''"
| "using_traits_loop ind (t # ts) used =
     (if t \<in> used then using_traits_loop ind ts used
      else ind @ ''use '' @ t @ '';'' @ nl @ using_traits_loop ind ts (insert t used))"

definition generate_using_traits_string :: "ApiSequence \<Rightarrow> nat \<Rightarrow> string" where
  "generate_using_traits_string s indent_size =
     using_traits_loop (generate_indent indent_size) (using_traits s) {} @ nl"

definition header_param :: "ApiSequence \<Rightarrow> string \<Rightarrow> nat \<Rightarrow> FuzzableType \<Rightarrow> string" where
  "header_param s param_prefix i p =
     (if is_fuzzable_need_mut_tag s i then ''mut '' else '''') @ param_prefix @ string_of_nat i @
     '' :'' @ to_type_string p"

definition generate_function_header_string ::
  "ApiSequence \<Rightarrow> nat \<Rightarrow> nat \<Rightarrow> nat \<Rightarrow> string \<Rightarrow> string \<Rightarrow> string" where
  "generate_function_header_string s test_index outer_indent extra_indent title param_prefix =
     generate_indent (outer_indent + extra_indent) @ title @ string_of_nat test_index @ ''('' @
     (case fuzzable_params s of [] \<Rightarrow> '''' | p # _ \<Rightarrow> header_param s param_prefix 0 p) @
     concat (map (\<lambda>i. '' ,'' @ header_param s param_prefix i (fuzzable_params s ! i))
       [1..<length (fuzzable_params s)]) @ '') ''"

text \<open>One parameter of a call. Its call type is split at the unwraps, each piece but the last one is
  computed by a helper variable of its own; \<open>mut\<close> is taken away again from the line before when the
  piece does not need it. The state is the name that the next piece uses, the number of the next
  helper and the pending line.\<close>

definition drop_mut :: "CallType \<Rightarrow> string \<Rightarrow> string" where
  "drop_mut ct line = (if \<not> need_mut_tag ct then str_replace line ''let mut '' ''let '' else line)"

fun helper_lines ::
  "string \<Rightarrow> (nat \<Rightarrow> string) \<Rightarrow> CallType list \<Rightarrow> nat \<Rightarrow> string \<Rightarrow> string \<Rightarrow> (string \<times> string \<times> string) run" where
  "helper_lines ind helper_name [] k former line = Some ('''', former, line)"
| "helper_lines ind helper_name (ct # cts) k former line =
     do { rhs \<leftarrow> to_call_string ct former;
          let new_line = ind @ ''let mut '' @ helper_name k @ '' = '' @ rhs @ '';'' @ nl;
          let emitted = (if k > 1 then drop_mut ct line else '''');
          (rest, last_name, last_line) \<leftarrow> helper_lines ind helper_name cts (k + 1) (helper_name k) new_line;
          Some (emitted @ rest, last_name, last_line) }"

definition body_param_name :: "string \<Rightarrow> string \<Rightarrow> ParamType \<Rightarrow> nat \<Rightarrow> string" where
  "body_param_name param_prefix local_prefix pt index =
     (case pt of FuzzableParam \<Rightarrow> param_prefix @ string_of_nat index
               | FunctionReturn \<Rightarrow> local_prefix @ string_of_nat index)"

definition helper_name :: "string \<Rightarrow> nat \<Rightarrow> nat \<Rightarrow> nat \<Rightarrow> string" where
  "helper_name local_prefix i j k =
     local_prefix @ string_of_nat i @ ''_param'' @ string_of_nat j @ ''_helper'' @ string_of_nat k"

text \<open>The lines emitted for parameter \<open>j\<close> of call \<open>i\<close>, and the text of the argument.\<close>

definition body_param ::
  "string \<Rightarrow> string \<Rightarrow> string \<Rightarrow> nat \<Rightarrow> nat \<Rightarrow> ParamType \<times> nat \<times> CallType \<Rightarrow> (string \<times> string) run" where
  "body_param ind param_prefix local_prefix i j p = (case p of (pt, index, ct) \<Rightarrow>
     do { cts \<leftarrow> split_at_unwrap_call_type ct;
          let name = body_param_name param_prefix local_prefix pt index;
          if length cts = 1 then do { arg \<leftarrow> to_call_string (cts ! 0) name; Some ('''', arg) }
          else
            do { n \<leftarrow> sub_m (length cts) 1;
                 (lines, former, line) \<leftarrow>
                   helper_lines ind (helper_name local_prefix i j) (take n cts) 1 name '''';
                 arg \<leftarrow> to_call_string (last cts) former;
                 Some (lines @ drop_mut (last cts) line, arg) } })"

fun body_params ::
  "string \<Rightarrow> string \<Rightarrow> string \<Rightarrow> nat \<Rightarrow> nat \<Rightarrow> (ParamType \<times> nat \<times> CallType) list \<Rightarrow>
   (string \<times> string list) run" where
  "body_params ind param_prefix local_prefix i j [] = Some ('''', [])"
| "body_params ind param_prefix local_prefix i j (p # ps) =
     do { (lines, arg) \<leftarrow> body_param ind param_prefix local_prefix i j p;
          (rest, args) \<leftarrow> body_params ind param_prefix local_prefix i (j + 1) ps;
          Some (lines @ rest, arg # args) }"

text \<open>Whether the result of the call is unwrapped on the spot: \<open>if let Some(x) = \<dots>\<close>.\<close>

definition unwraps_output :: "ApiGraph \<Rightarrow> bool \<Rightarrow> ApiFunction \<Rightarrow> bool run" where
  "unwraps_output g dead f = (case output_type f of
     None \<Rightarrow> Some False
   | Some t \<Rightarrow> do { b \<leftarrow> prelude_type_need_special_dealing (graph_cache g) (full_name_map g) t;
                   Some (b \<and> \<not> dead) })"

definition output_pattern :: "ApiGraph \<Rightarrow> bool \<Rightarrow> ApiFunction \<Rightarrow> string run" where
  "output_pattern g dead f = (case output_type f of
     None \<Rightarrow> Some ''''
   | Some t \<Rightarrow>
       do { b \<leftarrow> unwraps_output g dead f;
            if b then
              do { p \<leftarrow> from_type (graph_cache g) (full_name_map g) t;
                   Some (if prelude_is_option p then ''if let Some(x) = ''
                         else if prelude_is_result p then ''if let Ok(x) = '' else '''') }
            else Some '''' })"

definition body_call ::
  "ApiGraph \<Rightarrow> ApiSequence \<Rightarrow> string \<Rightarrow> string \<Rightarrow> string \<Rightarrow> bool list \<Rightarrow> nat \<Rightarrow> ApiCall \<Rightarrow> string run" where
  "body_call g s ind param_prefix local_prefix dead i call =
     do { (lines, args) \<leftarrow> body_params ind param_prefix local_prefix i 0 (params call);
          f \<leftarrow> index_m (api_functions g) (snd (func call));
          d \<leftarrow> index_m dead i;
          let binding = (if d \<or> has_no_output f then ''let _ = ''
            else ''let '' @ (if is_function_need_mut_tag s i then ''mut '' else '''') @ local_prefix @
                 string_of_nat i @ '' = '');
          pat \<leftarrow> output_pattern g d f;
          name \<leftarrow> (case fst (func call) of BareFunction \<Rightarrow> Some (full_name f) | GenericFunction \<Rightarrow> None);
          u \<leftarrow> unwraps_output g d f;
          Some (lines @ ind @ binding @ pat @ name @ ''('' @ str_join '' ,'' args @ '')'' @
            (if u then ''{x} else {use std::process;process::exit(0);};'' else '';'') @ nl) }"

fun body_calls ::
  "ApiGraph \<Rightarrow> ApiSequence \<Rightarrow> string \<Rightarrow> string \<Rightarrow> string \<Rightarrow> bool list \<Rightarrow> nat \<Rightarrow> ApiCall list \<Rightarrow> string run" where
  "body_calls g s ind param_prefix local_prefix dead i [] = Some ''''"
| "body_calls g s ind param_prefix local_prefix dead i (call # calls) =
     do { line \<leftarrow> body_call g s ind param_prefix local_prefix dead i call;
          rest \<leftarrow> body_calls g s ind param_prefix local_prefix dead (i + 1) calls;
          Some (line @ rest) }"

definition generate_function_body_string ::
  "ApiGraph \<Rightarrow> ApiSequence \<Rightarrow> nat \<Rightarrow> string \<Rightarrow> string \<Rightarrow> string run" where
  "generate_function_body_string g s outer_indent param_prefix local_prefix =
     do { dead \<leftarrow> dead_code s;
          body_calls g s (generate_indent (outer_indent + 4)) param_prefix local_prefix dead 0
            (seq_functions s) }"

definition to_well_written_function :: "ApiGraph \<Rightarrow> ApiSequence \<Rightarrow> nat \<Rightarrow> nat \<Rightarrow> string run" where
  "to_well_written_function g s test_index indent_size =
     (let start = generate_using_traits_string s indent_size @
            generate_function_header_string s test_index indent_size 0 ''fn test_function'' ''_param'' @
            ''{'' @ nl;
          finish = generate_indent indent_size @ ''}'' @ nl
      in if seq_unsafe s then
           do { body \<leftarrow> generate_function_body_string g s (indent_size + 4) ''_param'' ''_local'';
                let ui = generate_indent (indent_size + 4);
                Some (start @ ui @ ''unsafe {'' @ nl @ body @ ui @ ''}'' @ nl @ finish) }
         else
           do { body \<leftarrow> generate_function_body_string g s indent_size ''_param'' ''_local'';
                Some (start @ body @ finish) })"

section \<open>The files\<close>

text \<open>The unwrap helpers the calls need, in the order \<open>order\<close> in which the hash set gives them.\<close>

definition prelude_helpers_of :: "ApiSequence \<Rightarrow> PreludeHelper set" where
  "prelude_helpers_of s =
     (\<Union>call \<in> set (seq_functions s). \<Union>p \<in> set (params call). helpers_from_call_type (snd (snd p)))"

definition prelude_helper_functions :: "PreludeHelper list \<Rightarrow> ApiSequence \<Rightarrow> string option" where
  "prelude_helper_functions order s =
     (let hs = filter (\<lambda>h. h \<in> prelude_helpers_of s) order
      in if length hs = 0 then None else Some (concat (map (\<lambda>h. to_helper_function h @ nl) hs)))"

definition afl_helper_functions :: "ApiSequence \<Rightarrow> string option" where
  "afl_helper_functions s =
     (case get_afl_helpers_functions_of_sequence (fuzzable_params s) of
        None \<Rightarrow> None
      | Some hs \<Rightarrow> Some (concat (map (\<lambda>h. h @ nl) hs)))"

definition to_afl_except_main :: "PreludeHelper list \<Rightarrow> ApiGraph \<Rightarrow> ApiSequence \<Rightarrow> nat \<Rightarrow> string run" where
  "to_afl_except_main order g s test_index =
     do { body \<leftarrow> to_well_written_function g s test_index 0;
          Some (''#[macro_use]'' @ nl @ ''extern crate afl;'' @ nl @
            ''extern crate '' @ crate_name g @ '';'' @ nl @
            (case prelude_helper_functions order s of None \<Rightarrow> '''' | Some t \<Rightarrow> t) @
            (case afl_helper_functions s of None \<Rightarrow> '''' | Some t \<Rightarrow> t) @ body @ nl) }"

definition read_crash_file_data :: string where
  "read_crash_file_data =
     ''fn _read_data()-> Vec<u8> {'' @ nl @
     ''    use std::env;'' @ nl @
     ''    use std::process::exit;'' @ nl @
     ''    let args:Vec<String> = env::args().collect();'' @ nl @
     ''    if args.len() < 2 {'' @ nl @
     ''        println!('' @ dq @ ''No crash filename provided'' @ dq @ '');'' @ nl @
     ''        exit(-1);'' @ nl @
     ''    }'' @ nl @
     ''    use std::path::PathBuf;'' @ nl @
     ''    let crash_file_name = &args[1];'' @ nl @
     ''    let crash_path = PathBuf::from(crash_file_name);'' @ nl @
     ''    if !crash_path.is_file() {'' @ nl @
     ''        println!('' @ dq @ ''Not a valid crash file'' @ dq @ '');'' @ nl @
     ''        exit(-1);'' @ nl @
     ''    }'' @ nl @
     ''    use std::fs;'' @ nl @
     ''    let data =  fs::read(crash_path).unwrap();'' @ nl @
     ''    data'' @ nl @ ''}'' @ nl"

definition to_replay_crash_file :: "PreludeHelper list \<Rightarrow> ApiGraph \<Rightarrow> ApiSequence \<Rightarrow> nat \<Rightarrow> string run" where
  "to_replay_crash_file order g s test_index =
     do { res \<leftarrow> to_afl_except_main order g s test_index;
          main \<leftarrow> reproduce_main_function s test_index;
          Some (str_replace res (''#[macro_use]'' @ nl @ ''extern crate afl;'' @ nl) '''' @
            read_crash_file_data @ nl @ main) }"

definition to_afl_test_file :: "PreludeHelper list \<Rightarrow> ApiGraph \<Rightarrow> ApiSequence \<Rightarrow> nat \<Rightarrow> string run" where
  "to_afl_test_file order g s test_index =
     do { res \<leftarrow> to_afl_except_main order g s test_index;
          main \<leftarrow> afl_main_function s test_index;
          Some (res @ main) }"

definition to_libfuzzer_test_file :: "PreludeHelper list \<Rightarrow> ApiGraph \<Rightarrow> ApiSequence \<Rightarrow> nat \<Rightarrow> string run" where
  "to_libfuzzer_test_file order g s test_index =
     do { res \<leftarrow> to_afl_except_main order g s test_index;
          main \<leftarrow> libfuzzer_fuzz_main s test_index;
          Some (str_replace res (''#[macro_use]'' @ nl @ ''extern crate afl;'' @ nl)
              (''#![no_main]'' @ nl @ ''#[macro_use]'' @ nl @ ''extern crate libfuzzer_sys;'' @ nl) @ main) }"

end
