(* ===== verification/Body_Scope.thy ===== *)
theory Body_Scope
  imports Search_Safety Sequence_Text
begin

text \<open>
  The body of a generated test function as a list of statements. \<open>body_stmts\<close> gives the statements of
  a sequence; the refinement lemma says that \<open>_generate_function_body_string\<close> prints them. On the
  statements it is shown that every variable is declared before it is used and once only, and that
  different variables have different names.
\<close>

section \<open>Variables and statements\<close>

text \<open>The fuzzed value \<open>i\<close>, the result of call \<open>i\<close>, and helper \<open>k\<close> of parameter \<open>j\<close> of call \<open>i\<close>.\<close>

datatype var = Param_Var nat | Local_Var nat | Helper_Var nat nat nat

fun var_name :: "var \<Rightarrow> string" where
  "var_name (Param_Var i) = ''_param'' @ string_of_nat i"
| "var_name (Local_Var i) = ''_local'' @ string_of_nat i"
| "var_name (Helper_Var i j k) = helper_name ''_local'' i j k"

text \<open>A helper is bound to a piece of a call type around a variable, mutably or not. A call binds its
  result to a variable, mutably or not, or to nothing, after unwrapping it or not.\<close>

datatype stmt =
    Let_Helper var bool CallType var
  | Call_Stmt "(var \<times> bool) option" "PreludeHelper option" string "(CallType \<times> var) list"

definition arg_text :: "CallType \<times> var \<Rightarrow> string" where
  "arg_text a = the (to_call_string (fst a) (var_name (snd a)))"

fun stmt_text :: "string \<Rightarrow> stmt \<Rightarrow> string" where
  "stmt_text ind (Let_Helper h mu ct v) =
     (let line = ind @ ''let mut '' @ var_name h @ '' = '' @ arg_text (ct, v) @ '';'' @ nl
      in if mu then line else str_replace line ''let mut '' ''let '')"
| "stmt_text ind (Call_Stmt b u f args) =
     ind @ (case b of None \<Rightarrow> ''let _ = ''
            | Some (v, mu) \<Rightarrow> ''let '' @ (if mu then ''mut '' else '''') @ var_name v @ '' = '') @
     (case u of None \<Rightarrow> '''' | Some OptionHelper \<Rightarrow> ''if let Some(x) = '' | Some ResultHelper \<Rightarrow> ''if let Ok(x) = '') @
     f @ ''('' @ str_join '' ,'' (map arg_text args) @ '')'' @
     (case u of None \<Rightarrow> '';'' | Some _ \<Rightarrow> ''{x} else {use std::process;process::exit(0);};'') @ nl"

section \<open>The statements of a sequence\<close>

text \<open>One helper per piece but the last, which is the argument.\<close>

fun piece_stmts :: "nat \<Rightarrow> nat \<Rightarrow> nat \<Rightarrow> var \<Rightarrow> CallType list \<Rightarrow> stmt list \<times> CallType \<times> var" where
  "piece_stmts i j k v (ct # ct' # cts) =
     (case piece_stmts i j (k + 1) (Helper_Var i j k) (ct' # cts) of (ss, a) \<Rightarrow>
        (Let_Helper (Helper_Var i j k) (need_mut_tag ct') ct v # ss, a))"
| "piece_stmts i j k v cts = ([], hd cts, v)"

definition param_var :: "ParamType \<Rightarrow> nat \<Rightarrow> var" where
  "param_var pt n = (case pt of FuzzableParam \<Rightarrow> Param_Var n | FunctionReturn \<Rightarrow> Local_Var n)"

definition param_stmts :: "nat \<Rightarrow> nat \<Rightarrow> ParamType \<times> nat \<times> CallType \<Rightarrow> stmt list \<times> CallType \<times> var" where
  "param_stmts i j p = (case p of (pt, n, ct) \<Rightarrow>
     piece_stmts i j 1 (param_var pt n) (the (split_at_unwrap_call_type ct)))"

definition args_stmts ::
  "nat \<Rightarrow> nat \<Rightarrow> (ParamType \<times> nat \<times> CallType) list \<Rightarrow> (stmt list \<times> CallType \<times> var) list" where
  "args_stmts i j ps = map (\<lambda>(j, p). param_stmts i j p) (enumerate j ps)"

definition unwrap_of :: "ApiGraph \<Rightarrow> bool \<Rightarrow> ApiFunction \<Rightarrow> PreludeHelper option" where
  "unwrap_of g dead f = (case output_type f of
     None \<Rightarrow> None
   | Some t \<Rightarrow>
       if dead then None
       else (case from_type (graph_cache g) (full_name_map g) t of
               Some (PreludeOption _) \<Rightarrow> Some OptionHelper
             | Some (PreludeResult _ _) \<Rightarrow> Some ResultHelper
             | _ \<Rightarrow> None))"

definition call_stmts :: "ApiGraph \<Rightarrow> ApiSequence \<Rightarrow> nat \<times> ApiCall \<Rightarrow> stmt list" where
  "call_stmts g s ic = (case ic of (i, call) \<Rightarrow>
     let f = api_functions g ! snd (func call);
         dead = \<not> list_ex (uses_result i) (seq_functions s);
         ps = args_stmts i 0 (params call)
     in concat (map fst ps) @
        [Call_Stmt (if dead \<or> has_no_output f then None else Some (Local_Var i, is_function_need_mut_tag s i))
           (unwrap_of g dead f) (full_name f) (map snd ps)])"

definition body_stmts :: "ApiGraph \<Rightarrow> ApiSequence \<Rightarrow> stmt list" where
  "body_stmts g s = concat (map (call_stmts g s) (enumerate 0 (seq_functions s)))"

section \<open>Names\<close>

lemma digit_value_char: "d < 10 \<Longrightarrow> digit_value (digit_char d) = Some d"
  by (simp add: digit_value_def digit_char_def Let_def)

lemma string_of_nat_digits: "\<forall>c \<in> set (string_of_nat n). is_digit c"
proof (induction n rule: string_of_nat.induct)
  case (1 n)
  then show ?case
    by (cases "n < 10") (auto simp: string_of_nat.simps [of n] is_digit_def digit_value_char)
qed

lemma number_value_string [simp]: "number_value (string_of_nat n) = n"
proof (induction n rule: string_of_nat.induct)
  case (1 n)
  then show ?case
    by (cases "n < 10") (simp_all add: string_of_nat.simps [of n] number_value_def digit_value_char)
qed

lemma string_of_nat_inj: "string_of_nat m = string_of_nat n \<longleftrightarrow> m = n"
  by (metis number_value_string)

text \<open>Digits followed by something else can be told apart.\<close>

lemma digits_prefix:
  assumes "string_of_nat m @ r = string_of_nat n @ r'"
    and "r = [] \<or> \<not> is_digit (hd r)" and "r' = [] \<or> \<not> is_digit (hd r')"
  shows "m = n \<and> r = r'"
proof -
  have "takeWhile is_digit (string_of_nat k @ x) = string_of_nat k" if "x = [] \<or> \<not> is_digit (hd x)" for k x
    using that string_of_nat_digits [of k] by (cases x) (auto simp: takeWhile_append2)
  with assms have "string_of_nat m = string_of_nat n" by metis
  with assms(1) show ?thesis by (simp add: string_of_nat_inj)
qed

lemma underscore_no_digit [simp]: "\<not> is_digit (CHR 0x5F)"
  by (simp add: is_digit_def digit_value_def)

lemma var_name_inj: "var_name v = var_name w \<longleftrightarrow> v = w"
proof
  assume "var_name v = var_name w"
  then show "v = w"
    by (cases v; cases w)
      (auto simp: helper_name_def string_of_nat_inj dest!: digits_prefix
        digits_prefix [of _ "[]", simplified] digits_prefix [of _ _ _ "[]", simplified])
qed simp

section \<open>Printing the statements\<close>

text \<open>The types a call type mentions can be printed.\<close>

fun named :: "CallType \<Rightarrow> bool" where
  "named (CT_ConstRawPointer c ty) = (named c \<and> type_name ty \<noteq> None)"
| "named (CT_MutRawPointer c ty) = (named c \<and> type_name ty \<noteq> None)"
| "named (CT_BorrowedRef c) = named c"
| "named (CT_MutBorrowedRef c) = named c"
| "named (CT_UnsafeDeref c) = named c"
| "named (CT_Deref c) = named c"
| "named (CT_UnwrapResult c) = named c"
| "named (CT_ToResult c) = named c"
| "named (CT_UnwrapOption c) = named c"
| "named (CT_ToOption c) = named c"
| "named _ = True"

lemma to_call_string_named: "(\<exists>s. to_call_string ct v = Some s) \<longleftrightarrow> named ct"
  by (induction ct arbitrary: v) (auto simp: bind_eq_Some_conv)

lemma named_arg_text: "named ct \<Longrightarrow> to_call_string ct (var_name v) = Some (arg_text (ct, v))"
  using to_call_string_named [of ct "var_name v"] by (auto simp: arg_text_def)

lemma run_pieces_named: "run_pieces ps v = Some s \<Longrightarrow> list_all named ps"
proof (induction ps arbitrary: v)
  case (Cons c ps)
  then obtain t where "to_call_string c v = Some t" "run_pieces ps t = Some s"
    by (auto simp: run_pieces_Cons bind_eq_Some_conv)
  with Cons.IH [of t] to_call_string_named [of c v] show ?case by simp
qed simp

lemma split_named:
  assumes "named ct"
  obtains cts where "split_at_unwrap_call_type ct = Some cts" "list_all named cts" "cts \<noteq> []"
proof -
  obtain cts where cts: "split_at_unwrap_call_type ct = Some cts" using split_no_panic by blast
  from assms obtain s where "to_call_string ct [] = Some s" using to_call_string_named by metis
  with split_run [OF cts, of "[]"] have "list_all named cts" by (metis run_pieces_named)
  moreover have "cts \<noteq> []" using cts by (auto simp: split_at_unwrap_call_type_def Let_def split: if_splits)
  ultimately show ?thesis using cts that by blast
qed

lemma drop_mut_Nil [simp]: "drop_mut ct [] = []"
  by (simp add: drop_mut_def str_replace_def str_split_def)

lemma stmt_text_helper:
  "stmt_text ind (Let_Helper h (need_mut_tag ct') ct v) =
     drop_mut ct' (ind @ ''let mut '' @ var_name h @ '' = '' @ arg_text (ct, v) @ '';'' @ nl)"
  by (simp add: drop_mut_def Let_def)

lemma helper_lines_stmts:
  assumes "list_all named cts" and "cts \<noteq> []" and "k = 1 \<longrightarrow> pend = []" and "0 < k"
  shows "do { (lines, former, line) \<leftarrow>
                helper_lines ind (helper_name ''_local'' i j) (butlast cts) k (var_name v) pend;
              arg \<leftarrow> to_call_string (last cts) former;
              Some (lines @ drop_mut (last cts) line, arg) } =
    (case piece_stmts i j k v cts of (ss, a) \<Rightarrow>
       Some (drop_mut (hd cts) pend @ concat (map (stmt_text ind) ss), arg_text a))"
  using assms
proof (induction i j k v cts arbitrary: pend rule: piece_stmts.induct)
  case (1 i j k v ct ct' cts)
  obtain ss a where sa: "piece_stmts i j (k + 1) (Helper_Var i j k) (ct' # cts) = (ss, a)"
    by (rule prod.exhaust)
  let ?line = "ind @ ''let mut '' @ helper_name ''_local'' i j k @ '' = '' @ arg_text (ct, v) @ '';'' @ nl"
  from 1(1) [of ?line] 1(2,5) sa
  have "do { (lines, former, line) \<leftarrow>
                helper_lines ind (helper_name ''_local'' i j) (butlast (ct' # cts)) (k + 1)
                  (helper_name ''_local'' i j k) ?line;
              arg \<leftarrow> to_call_string (last (ct' # cts)) former;
              Some (lines @ drop_mut (last (ct' # cts)) line, arg) } =
     Some (drop_mut ct' ?line @ concat (map (stmt_text ind) ss), arg_text a)"
    by simp
  then obtain lines former line
    where "helper_lines ind (helper_name ''_local'' i j) (butlast (ct' # cts)) (k + 1)
        (helper_name ''_local'' i j k) ?line = Some (lines, former, line)"
      and "to_call_string (last (ct' # cts)) former = Some (arg_text a)"
      and "lines @ drop_mut (last (ct' # cts)) line =
        stmt_text ind (Let_Helper (Helper_Var i j k) (need_mut_tag ct') ct v) @
          concat (map (stmt_text ind) ss)"
    unfolding stmt_text_helper by (auto simp: bind_eq_Some_conv)
  with sa 1(2,4,5) named_arg_text [of ct v] show ?case
    by (cases "k = 1") (simp_all del: stmt_text.simps)
qed (auto simp: named_arg_text)

lemma body_param_stmts:
  assumes "named (snd (snd p))"
  shows "body_param ind ''_param'' ''_local'' i j p =
    (case param_stmts i j p of (ss, a) \<Rightarrow> Some (concat (map (stmt_text ind) ss), arg_text a))"
proof -
  obtain pt n ct where p: "p = (pt, n, ct)" by (rule prod_cases3)
  with assms obtain cts where cts: "split_at_unwrap_call_type ct = Some cts" "list_all named cts" "cts \<noteq> []"
    by (auto elim: split_named)
  have name: "body_param_name ''_param'' ''_local'' pt n = var_name (param_var pt n)"
    by (cases pt) (simp_all add: body_param_name_def param_var_def)
  show ?thesis
  proof (cases "length cts = 1")
    case True
    then obtain c where "cts = [c]" by (auto simp: length_Suc_conv)
    with p cts name show ?thesis by (simp add: body_param_def param_stmts_def named_arg_text)
  next
    case False
    with cts(3) have "sub_m (length cts) 1 = Some (length cts - 1)" by (cases cts) auto
    with p cts name False helper_lines_stmts [OF cts(2,3), of 1 "[]" ind i j "param_var pt n"] show ?thesis
      by (simp add: body_param_def param_stmts_def butlast_conv_take split: prod.splits)
  qed
qed

lemma body_params_stmts:
  assumes "list_all (\<lambda>p. named (snd (snd p))) ps"
  shows "body_params ind ''_param'' ''_local'' i j ps =
    (let rs = args_stmts i j ps
     in Some (concat (map (stmt_text ind) (concat (map fst rs))), map (\<lambda>r. arg_text (snd r)) rs))"
  using assms
proof (induction ps arbitrary: j)
  case (Cons p ps)
  obtain ss a where "param_stmts i j p = (ss, a)" by (rule prod.exhaust)
  with Cons body_param_stmts [of p ind i j] show ?case by (simp add: Let_def args_stmts_def)
qed (simp add: args_stmts_def)

lemma from_type_final_iff:
  assumes "from_type c m t = Some p"
  shows "get_final_type p = t \<longleftrightarrow> p = NotPrelude t" "(\<exists>u. p = NotPrelude u) \<longleftrightarrow> p = NotPrelude t"
proof -
  from assms have "(get_final_type p = t \<longleftrightarrow> p = NotPrelude t) \<and> ((\<exists>u. p = NotPrelude u) \<longleftrightarrow> p = NotPrelude t)"
  proof (cases rule: from_type_cases)
    case (2 r segs s u)
    with path_args_size [OF 2(2,3), of r] show ?thesis by auto
  qed simp
  then show "get_final_type p = t \<longleftrightarrow> p = NotPrelude t" "(\<exists>u. p = NotPrelude u) \<longleftrightarrow> p = NotPrelude t"
    by blast+
qed

lemma unwraps_output_of:
  assumes "resolved_function f"
  shows "unwraps_output g dead f = Some (unwrap_of g dead f \<noteq> None)" (is ?u)
    and "output_pattern g dead f = Some (case unwrap_of g dead f of None \<Rightarrow> ''''
      | Some OptionHelper \<Rightarrow> ''if let Some(x) = '' | Some ResultHelper \<Rightarrow> ''if let Ok(x) = '')" (is ?p)
proof -
  have "?u \<and> ?p"
  proof (cases "output_type f")
    case (Some t)
    with assms have "resolved t" by (simp add: resolved_function_def)
    then obtain p where p: "from_type (graph_cache g) (full_name_map g) t = Some p"
      using from_type_no_panic by blast
    with Some from_type_final_iff [OF p] show ?thesis
      by (cases p) (auto simp: unwraps_output_def output_pattern_def unwrap_of_def
          prelude_type_need_special_dealing_def prelude_is_option_def prelude_is_result_def)
  qed (simp add: unwraps_output_def output_pattern_def unwrap_of_def)
  then show ?u ?p by blast+
qed

lemma body_call_stmts:
  assumes "resolved_function (api_functions g ! snd (func call))" and "i < length dead"
    and "snd (func call) < length (api_functions g)" and "fst (func call) = BareFunction"
    and "dead ! i = (\<not> list_ex (uses_result i) (seq_functions s))"
    and "list_all (\<lambda>p. named (snd (snd p))) (params call)"
  shows "body_call g s ind ''_param'' ''_local'' dead i call =
    Some (concat (map (stmt_text ind) (call_stmts g s (i, call))))"
proof -
  let ?f = "api_functions g ! snd (func call)" and ?d = "\<not> list_ex (uses_result i) (seq_functions s)"
  show ?thesis
    using assms unwraps_output_of [OF assms(1), of g ?d] body_params_stmts [OF assms(6), of ind i 0]
    by (cases "unwrap_of g ?d ?f")
      (auto simp: body_call_def call_stmts_def Let_def comp_def split: PreludeHelper.splits)
qed

lemma body_calls_stmts:
  assumes "\<And>k. k < length calls \<Longrightarrow> body_call g s ind ''_param'' ''_local'' dead (i + k) (calls ! k) =
    Some (concat (map (stmt_text ind) (call_stmts g s (i + k, calls ! k))))"
  shows "body_calls g s ind ''_param'' ''_local'' dead i calls =
    Some (concat (map (stmt_text ind) (concat (map (call_stmts g s) (enumerate i calls)))))"
  using assms
proof (induction calls arbitrary: i)
  case (Cons call calls)
  from Cons.IH [of "Suc i"] Cons.prems [of "Suc _"] Cons.prems [of 0] show ?case by simp
qed simp

definition names_known :: "ApiSequence \<Rightarrow> bool" where
  "names_known s \<longleftrightarrow> list_all (\<lambda>call. list_all (\<lambda>p. named (snd (snd p))) (params call)) (seq_functions s)"

lemma seq_safe_call:
  assumes "seq_safe g s" and "i < seq_len s"
  shows "call_ok g (take i (seq_functions s)) (seq_functions s ! i)"
  using assms by (simp add: seq_safe_def calls_ok_def seq_len_def)

lemma function_body_stmts:
  assumes "graph_wf g" and "seq_safe g s" and "names_known s"
  shows "generate_function_body_string g s outer ''_param'' ''_local'' =
    Some (concat (map (stmt_text (generate_indent (outer + 4))) (body_stmts g s)))"
proof -
  from assms(2) have "seq_wf s" by (simp add: seq_safe_def)
  from dead_code_flags [OF this] obtain dead where dead: "dead_code s = Some dead"
    "length dead = seq_len s" "\<forall>j < seq_len s. dead ! j = (\<not> list_ex (uses_result j) (seq_functions s))"
    by blast
  have "body_call g s ind ''_param'' ''_local'' dead k (seq_functions s ! k) =
      Some (concat (map (stmt_text ind) (call_stmts g s (k, seq_functions s ! k))))"
    if "k < length (seq_functions s)" for k ind
  proof (rule body_call_stmts)
    from seq_safe_call [OF assms(2)] that
    have ok: "call_ok g (take k (seq_functions s)) (seq_functions s ! k)" by (simp add: seq_len_def)
    then show "snd (func (seq_functions s ! k)) < length (api_functions g)"
      and "fst (func (seq_functions s ! k)) = BareFunction" by (simp_all add: call_ok_def)
    then show "resolved_function (api_functions g ! snd (func (seq_functions s ! k)))"
      using graph_wf_function(1) [OF assms(1)] by blast
    show "list_all (\<lambda>p. named (snd (snd p))) (params (seq_functions s ! k))"
      using assms(3) that by (simp add: names_known_def list_all_length)
  qed (use dead that in \<open>simp_all add: seq_len_def\<close>)
  then show ?thesis
    using body_calls_stmts [of "seq_functions s" g s _ dead 0] dead(1)
    by (simp add: generate_function_body_string_def body_stmts_def)
qed

section \<open>Scopes\<close>

fun declared :: "stmt \<Rightarrow> var set" where
  "declared (Let_Helper h _ _ _) = {h}"
| "declared (Call_Stmt b _ _ _) = (case b of None \<Rightarrow> {} | Some (v, _) \<Rightarrow> {v})"

fun used :: "stmt \<Rightarrow> var set" where
  "used (Let_Helper _ _ _ v) = {v}"
| "used (Call_Stmt _ _ _ args) = snd ` set args"

text \<open>Every variable read is declared before, and no variable is declared twice.\<close>

fun scoped :: "var set \<Rightarrow> stmt list \<Rightarrow> bool" where
  "scoped V [] = True"
| "scoped V (st # ss) = (used st \<subseteq> V \<and> declared st \<inter> V = {} \<and> scoped (V \<union> declared st) ss)"

lemma scoped_append:
  "scoped V (xs @ ys) \<longleftrightarrow> scoped V xs \<and> scoped (V \<union> \<Union> (declared ` set xs)) ys"
  by (induction xs arbitrary: V) (auto simp: Un_assoc)

lemma piece_scoped:
  assumes "piece_stmts i j k v cts = (ss, a)" and "v \<in> V" and "\<And>k'. k \<le> k' \<Longrightarrow> Helper_Var i j k' \<notin> V"
  shows "scoped V ss \<and> snd a \<in> V \<union> \<Union> (declared ` set ss) \<and>
    \<Union> (declared ` set ss) \<subseteq> {Helper_Var i j k' | k'. k \<le> k'}"
  using assms
proof (induction i j k v cts arbitrary: V ss a rule: piece_stmts.induct)
  case (1 i j k v ct ct' cts)
  obtain ss' where ss: "piece_stmts i j (k + 1) (Helper_Var i j k) (ct' # cts) = (ss', a)"
      "ss = Let_Helper (Helper_Var i j k) (need_mut_tag ct') ct v # ss'"
    using 1(2) by (auto split: prod.splits)
  from 1(1) [OF ss(1), of "insert (Helper_Var i j k) V"] 1(3,4) ss(2) show ?case
    by (auto dest: Suc_leD)
qed auto

lemma params_scoped:
  assumes "\<forall>p \<in> set ps. param_var (fst p) (fst (snd p)) \<in> V"
    and "\<And>j' k. j \<le> j' \<Longrightarrow> Helper_Var i j' k \<notin> V"
  shows "scoped V (concat (map fst (args_stmts i j ps))) \<and>
    (\<lambda>r. snd (snd r)) ` set (args_stmts i j ps) \<subseteq>
      V \<union> \<Union> (declared ` set (concat (map fst (args_stmts i j ps)))) \<and>
    \<Union> (declared ` set (concat (map fst (args_stmts i j ps)))) \<subseteq> {Helper_Var i j' k | j' k. j \<le> j'}"
  using assms
proof (induction ps arbitrary: V j)
  case (Cons p ps)
  obtain ss a where p: "param_stmts i j p = (ss, a)" by (rule prod.exhaust)
  obtain pt n ct where pt: "p = (pt, n, ct)" by (rule prod_cases3)
  let ?D = "\<Union> (declared ` set ss)" let ?V = "V \<union> ?D"
  let ?E = "\<Union> (declared ` set (concat (map fst (args_stmts i (Suc j) ps))))"
  have sc: "scoped V ss" "snd a \<in> ?V" "?D \<subseteq> {Helper_Var i j k' | k'. 1 \<le> k'}"
    using p pt Cons.prems piece_scoped [of i j 1 _ _ ss a V] by (auto simp: param_stmts_def)
  have V: "Helper_Var i j' k \<notin> ?V" if "Suc j \<le> j'" for j' k
    using sc(3) Cons.prems(2) [of j' k] that by auto
  have ps: "\<forall>p \<in> set ps. param_var (fst p) (fst (snd p)) \<in> ?V" using Cons.prems(1) by simp
  have args: "args_stmts i j (p # ps) = (ss, a) # args_stmts i (Suc j) ps"
    by (simp add: args_stmts_def p)
  then have D: "\<Union> (declared ` set (concat (map fst (args_stmts i j (p # ps))))) = ?D \<union> ?E" by simp
  have "scoped ?V (concat (map fst (args_stmts i (Suc j) ps)))"
      and used: "(\<lambda>r. snd (snd r)) ` set (args_stmts i (Suc j) ps) \<subseteq> ?V \<union> ?E"
      and E: "?E \<subseteq> {Helper_Var i j' k | j' k. Suc j \<le> j'}"
    using Cons.IH [of ?V "Suc j", OF ps V] by blast+
  then have "scoped V (concat (map fst (args_stmts i j (p # ps))))"
    using sc(1) by (simp add: args scoped_append)
  moreover have "(\<lambda>r. snd (snd r)) ` set (args_stmts i j (p # ps)) \<subseteq> V \<union> (?D \<union> ?E)"
    using used sc(2) by (simp only: args set_simps image_insert snd_conv) blast
  moreover have "?D \<union> ?E \<subseteq> {Helper_Var i j' k | j' k. j \<le> j'}"
    using E sc(3) by (blast dest: Suc_leD)
  ultimately show ?case unfolding D by blast
qed (simp add: args_stmts_def)

text \<open>The variables declared before call \<open>i\<close>: all fuzzed values, the results of earlier calls that are
  used and exist, and nothing of call \<open>i\<close> or later.\<close>

definition env_before :: "ApiGraph \<Rightarrow> ApiSequence \<Rightarrow> nat \<Rightarrow> var set \<Rightarrow> bool" where
  "env_before g s i V \<longleftrightarrow>
     Param_Var ` {..<length (fuzzable_params s)} \<subseteq> V \<and>
     (\<forall>k < i. list_ex (uses_result k) (seq_functions s) \<longrightarrow>
        \<not> has_no_output (call_fun g (seq_functions s ! k)) \<longrightarrow> Local_Var k \<in> V) \<and>
     (\<forall>v \<in> V. case v of Param_Var _ \<Rightarrow> True | Local_Var k \<Rightarrow> k < i | Helper_Var i' _ _ \<Rightarrow> i' < i)"

lemma param_declared:
  assumes "graph_wf g" and "seq_safe g s" and "i < seq_len s" and "env_before g s i V"
    and "p \<in> set (params (seq_functions s ! i))"
  shows "param_var (fst p) (fst (snd p)) \<in> V"
proof -
  obtain pt n ct where p: "p = (pt, n, ct)" by (rule prod_cases3)
  have wf: "param_wf i (length (fuzzable_params s)) p"
    using assms(2,3,5) by (auto simp: seq_safe_def seq_wf_def calls_wf_nth list_all_iff seq_len_def)
  show ?thesis
  proof (cases pt)
    case FuzzableParam
    with p wf assms(4) show ?thesis by (auto simp: param_var_def param_wf_def env_before_def)
  next
    case FunctionReturn
    let ?calls = "seq_functions s"
    from assms(5) p FunctionReturn obtain j where takes: "takes (?calls ! i) j n ct"
      by (auto simp: takes_def in_set_conv_nth)
    with seq_safe_call [OF assms(2,3)] have "n < length (take i ?calls)"
        "edge g (func (take i ?calls ! n)) (func (?calls ! i)) j ct"
      unfolding call_ok_def by blast+
    then have n: "n < i" "edge g (func (take i ?calls ! n)) (func (?calls ! i)) j ct" by simp_all
    then have "edge g (func (?calls ! n)) (func (?calls ! i)) j ct" by simp
    with graph_wf_edge(3) [OF assms(1)] have "\<not> has_no_output (call_fun g (?calls ! n))"
      by (metis has_no_output_def call_fun_def prod.collapse)
    moreover from takes have "uses_result n (?calls ! i)" unfolding uses_result_takes by blast
    then have "list_ex (uses_result n) ?calls"
      using assms(3) by (auto simp: list_ex_iff seq_len_def)
    ultimately show ?thesis using n(1) assms(4) p FunctionReturn by (simp add: env_before_def param_var_def)
  qed
qed

lemma env_before_Suc:
  assumes "env_before g s i V" and "W \<subseteq> insert (Local_Var i) {Helper_Var i j k | j k. 0 \<le> j}"
    and "list_ex (uses_result i) (seq_functions s) \<Longrightarrow>
      \<not> has_no_output (call_fun g (seq_functions s ! i)) \<Longrightarrow> Local_Var i \<in> W"
  shows "env_before g s (Suc i) (V \<union> W)"
proof -
  have "case v of Param_Var _ \<Rightarrow> True | Local_Var k \<Rightarrow> k < Suc i | Helper_Var i' _ _ \<Rightarrow> i' < Suc i"
    if "v \<in> V \<union> W" for v
    using that assms(1,2) by (cases v) (fastforce simp: env_before_def)+
  moreover have "Local_Var k \<in> V \<union> W"
    if "k < Suc i" "list_ex (uses_result k) (seq_functions s)"
      "\<not> has_no_output (call_fun g (seq_functions s ! k))" for k
    using that assms(1,3) by (cases "k = i") (auto simp: env_before_def)
  ultimately show ?thesis using assms(1) by (auto simp: env_before_def)
qed

lemma call_scoped:
  assumes "graph_wf g" and "seq_safe g s" and "i < seq_len s" and "env_before g s i V"
  shows "scoped V (call_stmts g s (i, seq_functions s ! i)) \<and>
    env_before g s (Suc i) (V \<union> \<Union> (declared ` set (call_stmts g s (i, seq_functions s ! i))))"
proof -
  let ?call = "seq_functions s ! i" let ?ps = "args_stmts i 0 (params ?call)"
  let ?D = "\<Union> (declared ` set (concat (map fst ?ps)))"
  let ?dead = "\<not> list_ex (uses_result i) (seq_functions s)" and ?f = "call_fun g ?call"
  let ?b = "if ?dead \<or> has_no_output ?f then None else Some (Local_Var i, is_function_need_mut_tag s i)"
  let ?st = "Call_Stmt ?b (unwrap_of g ?dead ?f) (full_name ?f) (map snd ?ps)"
  have stmts: "call_stmts g s (i, ?call) = concat (map fst ?ps) @ [?st]"
    by (simp add: call_stmts_def Let_def call_fun_def)
  have "Helper_Var i j k \<notin> V" "Local_Var i \<notin> V" for j k using assms(4) by (auto simp: env_before_def)
  moreover have "\<forall>p \<in> set (params ?call). param_var (fst p) (fst (snd p)) \<in> V"
    using param_declared [OF assms] by blast
  ultimately have sc: "scoped V (concat (map fst ?ps))" "(\<lambda>r. snd (snd r)) ` set ?ps \<subseteq> V \<union> ?D"
      "?D \<subseteq> {Helper_Var i j' k | j' k. 0 \<le> j'}" and new: "Local_Var i \<notin> V"
    using params_scoped [of "params ?call" V 0 i] by blast+
  have "used ?st \<subseteq> V \<union> ?D" using sc(2) by (auto simp: image_image)
  moreover have "declared ?st \<inter> (V \<union> ?D) = {}" using new sc(3) by auto
  ultimately have "scoped V (call_stmts g s (i, ?call))" using sc(1) by (simp only: stmts scoped_append scoped.simps)
  moreover have "env_before g s (Suc i) (V \<union> (?D \<union> declared ?st))"
  proof (rule env_before_Suc [OF assms(4)])
    show "?D \<union> declared ?st \<subseteq> insert (Local_Var i) {Helper_Var i j k | j k. 0 \<le> j}"
      by (rule Un_least, rule subset_trans [OF sc(3)]) auto
  qed simp
  moreover have "\<Union> (declared ` set (call_stmts g s (i, ?call))) = ?D \<union> declared ?st"
    unfolding stmts by (simp only: set_append set_simps image_Un image_insert image_empty Union_Un_distrib
        Union_insert Union_empty Un_empty_right)
  ultimately show ?thesis by (simp only: simp_thms)
qed

lemma calls_scoped:
  assumes "graph_wf g" and "seq_safe g s" and "env_before g s i V" and "i \<le> seq_len s"
  shows "scoped V (concat (map (call_stmts g s) (enumerate i (drop i (seq_functions s)))))"
  using assms(3,4)
proof (induction "seq_len s - i" arbitrary: i V)
  case (Suc n)
  then have i: "i < seq_len s" by simp
  then have "drop i (seq_functions s) = seq_functions s ! i # drop (Suc i) (seq_functions s)"
    by (simp add: Cons_nth_drop_Suc seq_len_def)
  with Suc(1) [of "Suc i"] Suc(2) i call_scoped [OF assms(1,2) i Suc(3)] show ?case
    by (simp add: scoped_append)
qed (simp add: seq_len_def)

lemma body_scoped:
  assumes "graph_wf g" and "seq_safe g s"
  shows "scoped (Param_Var ` {..<length (fuzzable_params s)}) (body_stmts g s)"
  using calls_scoped [OF assms, of 0 "Param_Var ` {..<length (fuzzable_params s)}"]
  by (simp add: body_stmts_def env_before_def)

section \<open>The properties of the body\<close>

text \<open>C12. For a safe sequence whose types can be printed, the body of the test function is generated, and
  it is the text of the statements of the sequence, in which every variable is declared before it is
  used and no variable is declared twice. Different variables have different names.\<close>

theorem function_body_correct:
  assumes "graph_wf g" and "seq_safe g s" and "names_known s"
  shows "generate_function_body_string g s outer_indent ''_param'' ''_local'' =
      Some (concat (map (stmt_text (generate_indent (outer_indent + 4))) (body_stmts g s))) \<and>
    scoped (Param_Var ` {..<length (fuzzable_params s)}) (body_stmts g s) \<and> inj var_name"
  using function_body_stmts [OF assms] body_scoped [OF assms(1,2)] by (simp add: inj_def var_name_inj)

lemma new_then_len_names: "names_known new_then_len"
  by (simp add: names_known_def new_then_len_def)

lemma function_body_correct_witness:
  "generate_function_body_string crate_graph_edges new_then_len 0 ''_param'' ''_local'' =
     Some (concat (map (stmt_text (generate_indent 4)) (body_stmts crate_graph_edges new_then_len)))"
  using function_body_correct [OF crate_graph_edges_wf new_then_len_safe new_then_len_names, of 0] by simp

end
