(* ===== verification/Closure_Reads.thy ===== *)
theory Closure_Reads
  imports Sequence_Text Afl_Helpers
begin

text \<open>
  What the closure of a fuzz target does with the input. \<open>closure_run\<close> is the meaning of the text
  that \<open>_afl_closure_body\<close> prints: the check of the length, the length of one dynamic part, and the
  reads. The refinement lemma says that the printed text is the text of these reads; the safety
  lemma, that no read panics and that together they use every byte of the input once.
\<close>

section \<open>The reads of a sequence\<close>

definition closure_plan :: "ApiSequence \<Rightarrow> read_plan list" where
  "closure_plan s = plan_reads (fuzzable_params s) 0 0 (seq_dynamic_length_param_number s)"

definition length_ok :: "ApiSequence \<Rightarrow> nat \<Rightarrow> bool" where
  "length_ok s n = (if is_fuzzables_fixed_length s then n = fuzzables_min_length s
                    else fuzzables_min_length s \<le> n)"

definition dynamic_length :: "ApiSequence \<Rightarrow> nat \<Rightarrow> nat run" where
  "dynamic_length s n =
     (if is_fuzzables_fixed_length s then Some 0
      else do { d \<leftarrow> sub_m n (fuzzable_fixed_part_length s);
                if seq_dynamic_length_param_number s = 0 then None
                else Some (d div seq_dynamic_length_param_number s) })"

text \<open>The inner \<open>None\<close> is the early return.\<close>

definition closure_run :: "ApiSequence \<Rightarrow> 8 word list \<Rightarrow> rvalue list outcome option run" where
  "closure_run s data =
     (if \<not> length_ok s (length data) then Some None
      else do { dl \<leftarrow> dynamic_length s (length data);
                vs \<leftarrow> run_plans (fuzzable_fixed_part_length s) dl data (closure_plan s);
                Some (Some vs) })"

text \<open>The text of the closure, from its reads.\<close>

definition closure_text :: "ApiSequence \<Rightarrow> nat \<Rightarrow> nat \<Rightarrow> string" where
  "closure_text s outer_indent test_index =
     (let ind = generate_indent (outer_indent + 4) in
      ind @ ''//actual body emit'' @ nl @
      ind @ ''if data.len() '' @ (if is_fuzzables_fixed_length s then ''!='' else ''<'') @ '' '' @
        string_of_nat (fuzzables_min_length s) @ '' {return;}'' @ nl @
      (if is_fuzzables_fixed_length s then '''' else ind @ every_dynamic_length s @ '';'' @ nl) @
      concat (map (\<lambda>(i, p). ind @ ''let _param'' @ string_of_nat i @ '' = '' @
          plan_text (fuzzable_fixed_part_length s) ''dynamic_length'' p @ '';'' @ nl)
        (enumerate 0 (closure_plan s))) @
      test_function_call s ind test_index)"

section \<open>Lengths of a sequence\<close>

lemma fold_add_eq: "fold (\<lambda>p n. n + f p) xs a = (a :: nat) + sum_list (map f xs)"
  by (induction xs arbitrary: a) auto

lemma sequence_lengths:
  "fuzzables_min_length s = sum_list (map min_length (fuzzable_params s))"
  "fuzzable_fixed_part_length s = sum_list (map fixed_part_length (fuzzable_params s))"
  "seq_dynamic_length_param_number s = sum_list (map dynamic_length_param_number (fuzzable_params s))"
  by (simp_all add: fuzzables_min_length_def fuzzable_fixed_part_length_def
      seq_dynamic_length_param_number_def fold_add_eq)

lemma fixed_part_le_min_length: "fuzzable_fixed_part_length s \<le> fuzzables_min_length s"
  by (simp add: sequence_lengths sum_list_mono fixed_part_le_min)

lemma fixed_length_iff: "is_fuzzables_fixed_length s \<longleftrightarrow> seq_dynamic_length_param_number s = 0"
  by (simp add: is_fuzzables_fixed_length_def sequence_lengths list_all_iff fixed_iff_no_dynamic)

lemma fixed_length_parts:
  "is_fuzzables_fixed_length s \<Longrightarrow> fuzzable_fixed_part_length s = fuzzables_min_length s"
  by (auto simp: is_fuzzables_fixed_length_def sequence_lengths list_all_iff fixed_part_fixed
      intro!: arg_cong [of _ _ sum_list])

section \<open>The text is the text of the reads\<close>

lemma readable_helper: "readable p \<Longrightarrow> new_from_fuzzable p \<noteq> H_NoHelper"
  by (cases p) auto

lemma closure_params_plan:
  assumes "list_all readable ps" and "0 < sum_list (map dynamic_length_param_number ps) \<longrightarrow> 0 < tot"
  shows "closure_params ind ds tot i fixed dyn ps = Some (concat (map (\<lambda>(i, p). ind @ ''let _param'' @
      string_of_nat i @ '' = '' @ plan_text ds ''dynamic_length'' p @ '';'' @ nl)
    (enumerate i (plan_reads ps fixed dyn tot))))"
  using assms
proof (induction ps arbitrary: i fixed dyn)
  case (Cons p ps)
  then show ?case
    using rhs_plan(1) [of p tot fixed ds dyn "''dynamic_length''"]
    by (simp add: generate_param_initial_statement_def readable_helper)
qed simp

lemma closure_body_text:
  assumes "list_all readable (fuzzable_params s)"
  shows "afl_closure_body s outer test_index = Some (closure_text s outer test_index)"
  using assms
  by (simp add: afl_closure_body_def closure_text_def Let_def closure_plan_def closure_params_plan
      sequence_lengths(3))

section \<open>The reads are in range and use the whole input\<close>

lemma dynamic_length_returns:
  assumes "length_ok s n"
  obtains dl where "dynamic_length s n = Some dl"
    and "fuzzable_fixed_part_length s + seq_dynamic_length_param_number s * dl \<le> n"
    and "is_fuzzables_fixed_length s \<Longrightarrow> n = fuzzable_fixed_part_length s"
proof (cases "is_fuzzables_fixed_length s")
  case True
  with assms that [of 0] show ?thesis
    by (auto simp: dynamic_length_def length_ok_def fixed_length_parts fixed_length_iff [symmetric])
next
  case False
  let ?d = "n - fuzzable_fixed_part_length s" and ?t = "seq_dynamic_length_param_number s"
  have "fuzzable_fixed_part_length s \<le> n"
    using False assms fixed_part_le_min_length [of s] by (auto simp: length_ok_def)
  moreover have "?t * (?d div ?t) \<le> ?d" by simp
  ultimately have "fuzzable_fixed_part_length s + ?t * (?d div ?t) \<le> n" "fuzzable_fixed_part_length s \<le> n"
    by linarith+
  with False that [of "?d div ?t"] show ?thesis by (simp add: dynamic_length_def fixed_length_iff)
qed

lemma closure_spans:
  assumes "fuzzable_fixed_part_length s + seq_dynamic_length_param_number s * dl \<le> n"
    and "is_fuzzables_fixed_length s \<Longrightarrow> n = fuzzable_fixed_part_length s"
  shows "tile 0 (fuzzable_fixed_part_length s) (concat (map fixed_spans (closure_plan s)))"
    and "tile (fuzzable_fixed_part_length s) n
      (concat (map (dynamic_spans (fuzzable_fixed_part_length s) dl n) (closure_plan s)))"
proof -
  let ?ds = "fuzzable_fixed_part_length s" and ?tot = "seq_dynamic_length_param_number s"
  show "tile 0 ?ds (concat (map fixed_spans (closure_plan s)))"
    using fixed_spans_tile(2) [of 0 "fuzzable_params s" 0 ?tot]
    by (simp add: closure_plan_def sequence_lengths(2))
  have "tile (dynamic_bound ?ds dl n ?tot 0) (dynamic_bound ?ds dl n ?tot ?tot)
      (concat (map (dynamic_spans ?ds dl n) (closure_plan s)))"
    using dynamic_spans_tile(2) [OF assms(1), of 0 "fuzzable_params s" 0]
    by (simp add: closure_plan_def sequence_lengths(3))
  moreover have "dynamic_bound ?ds dl n ?tot 0 = ?ds"
    using assms(2) by (auto simp: dynamic_bound_def fixed_length_iff)
  ultimately show "tile ?ds n (concat (map (dynamic_spans ?ds dl n) (closure_plan s)))"
    by (simp add: dynamic_bound_def)
qed

lemma closure_run_returns:
  assumes "list_all readable (fuzzable_params s)"
  shows "closure_run s data \<noteq> None"
proof (cases "length_ok s (length data)")
  case True
  let ?ds = "fuzzable_fixed_part_length s" and ?n = "length data"
  from True obtain dl where dl: "dynamic_length s ?n = Some dl"
      "?ds + seq_dynamic_length_param_number s * dl \<le> ?n"
      "is_fuzzables_fixed_length s \<Longrightarrow> ?n = ?ds"
    by (rule dynamic_length_returns) blast
  have "?ds \<le> ?n" using dl(2) by simp
  then have "run_plans ?ds dl data (closure_plan s) \<noteq> None"
    using tile_bounds [OF closure_spans(1) [OF dl(2,3)]] tile_bounds [OF closure_spans(2) [OF dl(2,3)]]
      readable_runnable(2) [OF assms]
    by (intro run_plan_in_range(2)) (fastforce simp: closure_plan_def)+
  with True dl(1) show ?thesis by (auto simp: closure_run_def)
qed (simp add: closure_run_def)

section \<open>The values have the declared types\<close>

fun rvalue_has :: "rvalue \<Rightarrow> FuzzableType \<Rightarrow> bool" where
  "rvalue_has (V_u8 _) t = (t = FT_Primitive P_U8)"
| "rvalue_has (V_i8 _) t = (t = FT_Primitive P_I8)"
| "rvalue_has (V_u16 _) t = (t = FT_Primitive P_U16)"
| "rvalue_has (V_i16 _) t = (t = FT_Primitive P_I16)"
| "rvalue_has (V_u32 _) t = (t = FT_Primitive P_U32)"
| "rvalue_has (V_i32 _) t = (t = FT_Primitive P_I32)"
| "rvalue_has (V_u64 _) t = (t = FT_Primitive P_U64)"
| "rvalue_has (V_i64 _) t = (t = FT_Primitive P_I64)"
| "rvalue_has (V_u128 _) t = (t = FT_Primitive P_U128)"
| "rvalue_has (V_i128 _) t = (t = FT_Primitive P_I128)"
| "rvalue_has (V_usize _) t = (t = FT_Primitive P_Usize)"
| "rvalue_has (V_isize _) t = (t = FT_Primitive P_Isize)"
| "rvalue_has (V_f32 _) t = (t = FT_Primitive P_F32)"
| "rvalue_has (V_f64 _) t = (t = FT_Primitive P_F64)"
| "rvalue_has (V_char _) t = (t = FT_Primitive P_Char)"
| "rvalue_has (V_bool _) t = (t = FT_Primitive P_Bool)"
| "rvalue_has (V_str _) t = (t = FT_RefStr)"
| "rvalue_has (V_slice h _) t = (\<exists>u. t = FT_RefSlice u \<and> h = new_from_fuzzable u)"
| "rvalue_has (V_tuple vs) t = (\<exists>ts. t = FT_Tuple ts \<and> list_all2 rvalue_has vs ts)"

lemma outcome_Returned [simp]:
  "(case r of Returned v \<Rightarrow> Returned (f v) | Exited \<Rightarrow> Exited) = Returned w \<longleftrightarrow> (\<exists>v. r = Returned v \<and> w = f v)"
  "(case r of Returned v \<Rightarrow> g v | Exited \<Rightarrow> Some Exited) = Some (Returned w) \<longleftrightarrow>
     (\<exists>v. r = Returned v \<and> g v = Some (Returned w))"
  by (cases r; auto)+

lemma run_fixed_type:
  "run_fixed data (primitive_helper p) i = Some (Returned v) \<Longrightarrow> rvalue_has v (FT_Primitive p)"
  by (cases p) (auto simp: returned_def)

lemma run_plan_type:
  "run_plan ds dl data (plan_read t fixed dyn tot) = Some (Returned v) \<Longrightarrow> rvalue_has v t"
  "run_plans ds dl data (plan_reads ts fixed dyn tot) = Some (Returned vs) \<Longrightarrow> list_all2 rvalue_has vs ts"
proof (induction t fixed dyn tot and ts fixed dyn tot arbitrary: v and vs rule: plan_read_plan_reads.induct)
  case (2 p fixed dyn tot)
  then show ?case by (auto intro: run_fixed_type split: if_splits)
next
  case (7 t ts fixed dyn tot)
  then show ?case by (auto simp: bind_eq_Some_conv)
qed (auto simp: run_dynamic_def returned_def bind_eq_Some_conv)

section \<open>The helpers a target needs\<close>

lemma helper_functions_map: "helper_functions_loop hs seen = map to_full_function hs"
  by (induction hs seen rule: helper_functions_loop.induct) auto

lemma sequence_helpers_closed:
  assumes "h \<in> set (get_all_dependent_afl_helpers_of_sequence ps)"
  shows "set (called_helpers h) \<subseteq> set (get_all_dependent_afl_helpers_of_sequence ps)"
  using assms dependent_closed by (fastforce simp: get_all_dependent_afl_helpers_of_sequence_def)

lemma closure_helpers_there:
  "set (concat (map plan_helpers (closure_plan s))) \<subseteq>
   set (get_all_dependent_afl_helpers_of_sequence (fuzzable_params s))"
  using plan_helpers_dependent(2) [of _ "fuzzable_params s" 0 0]
  by (auto simp: closure_plan_def get_all_dependent_afl_helpers_of_sequence_def)

text \<open>How often a helper function is printed. The head of a text names the function it defines.\<close>

lemma full_function_head:
  assumes "\<not> is_tuple h"
  shows "takeWhile (\<lambda>c. c \<noteq> CHR ''('' \<and> c \<noteq> CHR ''<'') (to_full_function h)
    = (if h = H_NoHelper then helper_type_name h else ''fn _to_'' @ helper_type_name h)"
  using assms
  by (cases h) (simp_all add: is_tuple_def data_to_u8_def data_to_i8_def data_to_u16_def data_to_i16_def
      data_to_u32_def data_to_i32_def data_to_u64_def data_to_i64_def data_to_u128_def data_to_i128_def
      data_to_usize_def data_to_isize_def data_to_double_def data_to_float_def data_to_f32_def
      data_to_f64_def data_to_char_def data_to_bool_def data_to_str_def data_to_slice_def)

lemma helper_type_name_eq:
  assumes "\<not> is_tuple h" and "\<not> is_tuple k" and "helper_type_name h = helper_type_name k"
  shows "h = k \<or> is_slice h \<and> is_slice k"
  using assms by (cases h; cases k) (simp_all add: is_tuple_def is_slice_def)

lemma full_function_eq:
  assumes "\<not> is_tuple h" and "\<not> is_tuple k"
  shows "to_full_function h = to_full_function k \<longleftrightarrow> h = k \<or> is_slice h \<and> is_slice k"
proof
  assume "to_full_function h = to_full_function k"
  then have "(if h = H_NoHelper then helper_type_name h else ''fn _to_'' @ helper_type_name h) =
      (if k = H_NoHelper then helper_type_name k else ''fn _to_'' @ helper_type_name k)"
    by (simp only: full_function_head [OF assms(1), symmetric] full_function_head [OF assms(2), symmetric])
  then have "helper_type_name h = helper_type_name k" by (simp split: if_splits)
  then show "h = k \<or> is_slice h \<and> is_slice k" by (rule helper_type_name_eq [OF assms])
qed (auto simp: is_slice_def split: AflHelpers.splits)

lemma dependent_no_tuple: "k \<in> set (get_all_dependent_afl_helpers h) \<Longrightarrow> \<not> is_tuple k"
  by (induction h rule: get_all_dependent_afl_helpers.induct) (auto simp: is_tuple_def)

lemma sequence_helpers_no_tuple: "k \<in> set (get_all_dependent_afl_helpers_of_sequence ps) \<Longrightarrow> \<not> is_tuple k"
  using dependent_no_tuple by (auto simp: get_all_dependent_afl_helpers_of_sequence_def)

lemma count_list_map_distinct:
  "distinct xs \<Longrightarrow> count_list (map f xs) y = card {x \<in> set xs. f x = y}"
proof (induction xs)
  case (Cons a xs)
  have "{x \<in> set (a # xs). f x = y} = (if f a = y then insert a else id) {x \<in> set xs. f x = y}" by auto
  with Cons show ?case by simp
qed simp

lemma helper_text_count:
  fixes ps defines "hs \<equiv> get_all_dependent_afl_helpers_of_sequence ps"
  assumes "h \<in> set hs"
  shows "count_list (map to_full_function hs) (to_full_function h)
    = (if is_slice h then card {x. H_Slice x \<in> set hs} else 1)"
proof -
  have "distinct hs" by (simp add: hs_def get_all_dependent_afl_helpers_of_sequence_def)
  then have "count_list (map to_full_function hs) (to_full_function h)
      = card {k \<in> set hs. to_full_function k = to_full_function h}" by (rule count_list_map_distinct)
  also have "{k \<in> set hs. to_full_function k = to_full_function h}
      = (if is_slice h then H_Slice ` {x. H_Slice x \<in> set hs} else {h})"
  proof -
    have slice: "is_slice k \<longleftrightarrow> (\<exists>x. k = H_Slice x)" for k by (cases k) (simp_all add: is_slice_def)
    have "to_full_function k = to_full_function h \<longleftrightarrow> k = h \<or> is_slice k \<and> is_slice h" if "k \<in> set hs" for k
      using assms(2) that unfolding hs_def by (intro full_function_eq sequence_helpers_no_tuple)
    then have "{k \<in> set hs. to_full_function k = to_full_function h}
        = {k \<in> set hs. k = h \<or> is_slice k \<and> is_slice h}" by blast
    moreover have "{k \<in> set hs. is_slice k} = H_Slice ` {x. H_Slice x \<in> set hs}"
      using slice by auto
    moreover have "{k \<in> set hs. k = h \<or> is_slice k \<and> is_slice h}
        = (if is_slice h then {k \<in> set hs. is_slice k} else {h})" using assms(2) by auto
    ultimately show ?thesis by simp
  qed
  also have "card \<dots> = (if is_slice h then card {x. H_Slice x \<in> set hs} else 1)"
    by (simp add: card_image inj_on_def)
  finally show ?thesis .
qed

section \<open>The properties of the closure\<close>

text \<open>C26. The text of the closure that \<open>_afl_closure_body\<close> prints is the text of the reads of
  \<open>closure_plan\<close>, whenever there is a helper for the type of every parameter: printing refines the
  reads whose safety is shown next.\<close>

theorem closure_text_refines:
  assumes "list_all readable (fuzzable_params s)"
  shows "afl_closure_body s outer_indent test_index = Some (closure_text s outer_indent test_index)"
  using assms by (rule closure_body_text)

definition sample_sequence :: ApiSequence where
  "sample_sequence = ApiSequence_new\<lparr>fuzzable_params :=
     [FT_Primitive P_U16, FT_RefStr, FT_Tuple [FT_Primitive P_U8, FT_RefSlice (FT_Primitive P_U32)]]\<rparr>"

lemma sample_readable: "list_all readable (fuzzable_params sample_sequence)"
  by (simp add: sample_sequence_def)

lemma sample_lengths:
  "is_fuzzables_fixed_length sample_sequence = False" "fuzzables_min_length sample_sequence = 8"
  by (simp_all add: sample_sequence_def is_fuzzables_fixed_length_def fuzzables_min_length_def)

lemma closure_text_refines_witness:
  "list_all readable (fuzzable_params sample_sequence) \<and>
   afl_closure_body sample_sequence 0 0 = Some (closure_text sample_sequence 0 0)"
  using closure_text_refines [OF sample_readable] sample_readable by simp

text \<open>C4. Running the closure on any input ends without a panic: it returns early exactly when the length
  check fails, and otherwise the values it passes on, when no helper exits, are one for each
  parameter and of its type.\<close>

theorem closure_never_panics:
  assumes "list_all readable (fuzzable_params s)"
  shows "\<exists>r. closure_run s data = Some r \<and> (r = None \<longleftrightarrow> \<not> length_ok s (length data)) \<and>
    (\<forall>vs. r = Some (Returned vs) \<longrightarrow> list_all2 rvalue_has vs (fuzzable_params s))"
  using closure_run_returns [OF assms, of data]
  by (auto simp: closure_run_def bind_eq_Some_conv closure_plan_def intro: run_plan_type(2) split: if_splits)

lemma closure_never_panics_witness:
  "\<exists>r. closure_run sample_sequence (replicate 12 65) = Some r \<and> (r = None \<longleftrightarrow> \<not> (8 :: nat) \<le> 12)"
  using closure_never_panics [OF sample_readable, of "replicate 12 65"]
  by (auto simp: length_ok_def sample_lengths)

text \<open>C8. The reads use every byte of an input that passes the length check, and no byte twice: the fixed
  parts and then the dynamic parts lie one after the other from the first byte to the last.\<close>

theorem closure_uses_every_byte:
  assumes "length_ok s n"
  shows "\<exists>dl. dynamic_length s n = Some dl \<and>
    tile 0 n (concat (map fixed_spans (closure_plan s)) @
      concat (map (dynamic_spans (fuzzable_fixed_part_length s) dl n) (closure_plan s)))"
  using assms by (rule dynamic_length_returns) (use closure_spans in \<open>blast intro: tile_append\<close>)

lemma closure_uses_every_byte_witness:
  "\<exists>dl. dynamic_length sample_sequence 12 = Some dl \<and>
    tile 0 12 (concat (map fixed_spans (closure_plan sample_sequence)) @
      concat (map (dynamic_spans (fuzzable_fixed_part_length sample_sequence) dl 12)
        (closure_plan sample_sequence)))"
  by (rule closure_uses_every_byte) (simp add: length_ok_def sample_lengths)

text \<open>C39. The file has every helper function it needs: the texts printed are those of a list of distinct
  helpers that contains the helpers the reads call and, with a helper, the helpers its text calls. The
  definition of a helper is printed exactly once, except that of the generic \<open>_to_slice\<close>: it is printed
  once for every element type of a slice, so that a file with two such types defines it twice, although
  the comment above \<open>_get_afl_helpers_functions_of_sequence\<close> says that once is enough.\<close>

theorem helpers_complete:
  "let hs = get_all_dependent_afl_helpers_of_sequence (fuzzable_params s) in
   distinct hs \<and>
   set (concat (map plan_helpers (closure_plan s))) \<subseteq> set hs \<and>
   set (concat (map called_helpers hs)) \<subseteq> set hs \<and>
   afl_helper_functions s =
     (if hs = [] then None else Some (concat (map (\<lambda>h. to_full_function h @ nl) hs))) \<and>
   (\<forall>h \<in> set hs. count_list (map to_full_function hs) (to_full_function h)
      = (if is_slice h then card {x. H_Slice x \<in> set hs} else 1))"
proof -
  let ?hs = "get_all_dependent_afl_helpers_of_sequence (fuzzable_params s)"
  have "distinct ?hs" by (simp add: get_all_dependent_afl_helpers_of_sequence_def)
  moreover have "set (concat (map called_helpers ?hs)) \<subseteq> set ?hs" using sequence_helpers_closed by auto
  moreover have "afl_helper_functions s =
      (if ?hs = [] then None else Some (concat (map (\<lambda>h. to_full_function h @ nl) ?hs)))"
    by (simp add: afl_helper_functions_def get_afl_helpers_functions_of_sequence_def Let_def
        helper_functions_map comp_def)
  ultimately show ?thesis using closure_helpers_there [of s] helper_text_count [of _ "fuzzable_params s"]
    unfolding Let_def by blast
qed

text \<open>Two slices of different element types: the file defines \<open>_to_slice\<close> twice, and \<open>_to_u16\<close> once.\<close>

lemma helpers_complete_witness:
  "let hs = get_all_dependent_afl_helpers_of_sequence
       [FT_RefSlice (FT_Primitive P_U8), FT_RefSlice (FT_Primitive P_U32), FT_Primitive P_U16]
   in count_list (map to_full_function hs) data_to_slice = 2 \<and>
      count_list (map to_full_function hs) data_to_u16 = 1"
proof -
  let ?s = "ApiSequence_new\<lparr>fuzzable_params :=
    [FT_RefSlice (FT_Primitive P_U8), FT_RefSlice (FT_Primitive P_U32), FT_Primitive P_U16]\<rparr>"
  let ?hs = "get_all_dependent_afl_helpers_of_sequence (fuzzable_params ?s)"
  have hs: "set ?hs = {H_Slice H_U8, H_Slice H_U32, H_U16, H_U8}"
    by (auto simp: get_all_dependent_afl_helpers_of_sequence_def)
  have count: "\<forall>h \<in> set ?hs. count_list (map to_full_function ?hs) (to_full_function h)
      = (if is_slice h then card {x. H_Slice x \<in> set ?hs} else 1)"
    using helpers_complete [of ?s] unfolding Let_def by blast
  have "{x. H_Slice x \<in> set ?hs} = {H_U8, H_U32}" unfolding hs by auto
  with bspec [OF count, of "H_Slice H_U8"] bspec [OF count, of H_U16] show ?thesis
    unfolding Let_def hs by (simp add: is_slice_def)
qed

end
