(* ===== verification/Graph_Generate.thy ===== *)
theory Graph_Generate
  imports My_Method Body_Scope Closure_Reads
begin

text \<open>
  \<open>generate_all_possoble_sequences\<close> of \<open>api_graph.rs\<close>: which search each algorithm runs, with which
  bounds. What a search takes from outside (random numbers, corpus files, the order of a hash set and
  a bound on the steps of the loops that may run forever) is a record. The theorem says that every
  algorithm leaves safe sequences. The second part follows the types of the parameters through
  \<open>is_fun_satisfied\<close>: what it appends can be printed as a target.
\<close>

section \<open>The algorithms\<close>

record search_inputs =
  walk_choices :: "nat list"
  fudge_file :: "string list option"
  fudge_choices :: "(nat \<times> nat) list"
  dep_file :: "string list option"
  order_file :: "string list option"
  func_file :: "string list option"
  my_choices :: "nat \<Rightarrow> nat \<Rightarrow> nat"
  my_steps :: nat
  set_order :: "nat list \<Rightarrow> nat list"

text \<open>The flag says whether the loop has ended.\<close>

definition generate_all_possoble_sequences ::
  "search_inputs \<Rightarrow> ApiGraph \<Rightarrow> GraphTraverseAlgorithm \<Rightarrow> nat \<Rightarrow> nat \<Rightarrow> bool \<Rightarrow> (ApiGraph \<times> bool) run" where
  "generate_all_possoble_sequences inp g algorithm max_num max_len support_generic =
     (let ended = map_option (\<lambda>h. (h, True)) in
      case algorithm of
        A_Bfs \<Rightarrow> ended (bfs g 5 False False)
      | A_FastBfs \<Rightarrow> ended (bfs g 5 False True)
      | A_BfsEndPoint \<Rightarrow> ended (bfs g 5 True False)
      | A_Default \<Rightarrow> ended (bfs g 5 True False)
      | A_FastBfsEndPoint \<Rightarrow> ended (bfs g 5 True True)
      | A_TryDeepBfs \<Rightarrow> ended (try_deep_bfs g 100000)
      | A_RandomWalkEndPoint \<Rightarrow> random_walk g 100000 True 0 (walk_choices inp)
      | A_DirectBackwardSearch \<Rightarrow>
          ended (try_to_cover_unvisited_nodes (reset_visited (g\<lparr>api_sequences := []\<rparr>)) (set_order inp))
      | A_RandomWalk \<Rightarrow> random_walk g max_num False max_len (walk_choices inp)
      | A_UseRealWorld \<Rightarrow> my_method g (dep_file inp) (order_file inp) (func_file inp) max_num max_len
          support_generic (my_choices inp) (my_steps inp)
      | A_Fudge \<Rightarrow> ended (fudge g (fudge_file inp) (fudge_choices inp)))"

definition default_generate_sequences :: "search_inputs \<Rightarrow> ApiGraph \<Rightarrow> ApiGraph run" where
  "default_generate_sequences inp g =
     do { (g', _) \<leftarrow> generate_all_possoble_sequences inp g A_BfsEndPoint 300 200 False;
          try_to_cover_unvisited_nodes g' (set_order inp) }"

section \<open>Every algorithm leaves safe sequences\<close>

text \<open>What the algorithms need of their inputs.\<close>

definition inputs_ok :: "search_inputs \<Rightarrow> ApiGraph \<Rightarrow> bool \<Rightarrow> bool" where
  "inputs_ok inp g sg \<longleftrightarrow>
     corpus_readable (dep_file inp) (order_file inp) (func_file inp) \<and> extract_start_function g sg \<noteq> Some [] \<and>
     (\<exists>content. fudge_file inp = Some content \<and> read_corpus content \<noteq> None) \<and>
     (\<forall>xs. set (set_order inp xs) \<subseteq> set xs)"

definition crate_ok :: "ApiGraph \<Rightarrow> bool" where
  "crate_ok g \<longleftrightarrow> graph_wf g \<and> edges_in_range g \<and> 0 < length (api_functions g) \<and>
     (\<forall>f \<in> set (api_functions g). pretty_print f \<noteq> None)"

definition sequences_safe :: "ApiGraph \<Rightarrow> ApiGraph \<Rightarrow> bool" where
  "sequences_safe g g' \<longleftrightarrow> same_crate g g' \<and> (\<forall>s \<in> set (api_sequences g'). seq_safe g s)"

lemma bfs_sequences_safe:
  assumes "crate_ok g" and "\<forall>s \<in> set (api_sequences g). seq_safe g s"
  shows "\<exists>g'. bfs g 5 stop fast = Some g' \<and> sequences_safe g g' \<and>
    length (api_functions_visited g') = length (api_functions g) \<and>
    (\<forall>i < length (api_functions g). api_functions_visited g' ! i \<longrightarrow>
       (\<exists>s \<in> set (api_sequences g'). i \<in> set (seq_calls s)))"
proof -
  obtain seqs visited where
    "bfs g 5 stop fast = Some (g\<lparr>api_sequences := seqs, api_functions_visited := visited\<rparr>)"
    "crate_inv g (seqs, visited)"
    by (rule bfs_result [of g 5 stop fast]) (use assms in \<open>simp_all add: crate_ok_def\<close>)
  then show ?thesis by (simp add: sequences_safe_def search_inv_def list_all_iff)
qed

lemma backward_sequences_safe:
  assumes "crate_ok g" and "\<forall>xs. set (order xs) \<subseteq> set xs"
  shows "\<exists>g'. try_to_cover_unvisited_nodes (reset_visited (g\<lparr>api_sequences := []\<rparr>)) order = Some g' \<and>
    sequences_safe g g'"
proof -
  let ?h = "reset_visited (g\<lparr>api_sequences := []\<rparr>)"
  have same: "same_crate g ?h" by (simp add: same_crate_def reset_visited_def)
  have "graph_wf ?h" using assms(1) by (simp add: crate_ok_def same_graph_wf [OF same])
  moreover have "api_sequences ?h = []"
      "length (api_functions_visited ?h) = length (api_functions ?h)"
      "\<forall>i < length (api_functions ?h). \<not> api_functions_visited ?h ! i"
    by (simp_all add: reset_visited_def)
  ultimately obtain g' where "try_to_cover_unvisited_nodes ?h order = Some g'" "same_crate ?h g'"
      "\<forall>s \<in> set (api_sequences g'). seq_safe ?h s"
    using cover_unvisited_result [of ?h order] assms(2) by auto
  then show ?thesis
    using same by (auto simp: sequences_safe_def same_seq_safe [OF same] same_crate_def)
qed

lemma generate_sequences_safe:
  assumes "crate_ok g" and "inputs_ok inp g sg" and "\<forall>s \<in> set (api_sequences g). seq_safe g s"
  shows "\<exists>g' fin. generate_all_possoble_sequences inp g algorithm max_num max_len sg = Some (g', fin) \<and>
    sequences_safe g g'"
proof -
  have wf: "graph_wf g" "0 < length (api_functions g)" using assms(1) by (simp_all add: crate_ok_def)
  have bfs: "\<exists>g'. bfs g 5 stop fast = Some g' \<and> sequences_safe g g'" for stop fast
    using bfs_sequences_safe [OF assms(1,3), of stop fast] by blast
  have deep: "\<exists>g'. try_deep_bfs g m = Some g' \<and> sequences_safe g g'" for m
    using try_deep_bfs_result [OF wf, of m] unfolding sequences_safe_def by blast
  have walk: "\<exists>g' fin. random_walk g m stop l (walk_choices inp) = Some (g', fin) \<and> sequences_safe g g'" for m stop l
    using random_walk_result [OF wf, of m stop l "walk_choices inp"] unfolding sequences_safe_def by blast
  from assms(2) obtain content where "fudge_file inp = Some content" "read_corpus content \<noteq> None"
    by (auto simp: inputs_ok_def)
  then have fudge: "\<exists>g'. fudge g (fudge_file inp) (fudge_choices inp) = Some g' \<and> sequences_safe g g'"
    using fudge_result [OF wf(1), of content "fudge_choices inp"] unfolding sequences_safe_def by auto
  have backward: "\<exists>g'. try_to_cover_unvisited_nodes (reset_visited (g\<lparr>api_sequences := []\<rparr>)) (set_order inp) = Some g' \<and>
      sequences_safe g g'"
    using backward_sequences_safe [OF assms(1)] assms(2) by (simp add: inputs_ok_def)
  have real: "\<exists>g' fin. my_method g (dep_file inp) (order_file inp) (func_file inp) max_num max_len sg
      (my_choices inp) (my_steps inp) = Some (g', fin) \<and> sequences_safe g g'"
  proof -
    have "edges_in_range g" "\<forall>f \<in> set (api_functions g). pretty_print f \<noteq> None"
        "corpus_readable (dep_file inp) (order_file inp) (func_file inp)" "extract_start_function g sg \<noteq> Some []"
      using assms(1,2) by (simp_all add: crate_ok_def inputs_ok_def)
    from my_method_result [OF wf(1) this, of max_num max_len "my_choices inp" "my_steps inp"] obtain g' fin
      where "my_method g (dep_file inp) (order_file inp) (func_file inp) max_num max_len sg
          (my_choices inp) (my_steps inp) = Some (g', fin)" "same_crate g g'"
        "fin \<longrightarrow> (\<forall>s \<in> set (api_sequences g'). seq_safe g s)" "\<not> fin \<longrightarrow> api_sequences g' = api_sequences g"
      by blast
    with assms(3) show ?thesis by (cases fin) (auto simp: sequences_safe_def)
  qed
  have ended: "\<exists>g' fin. map_option (\<lambda>h. (h, True)) r = Some (g', fin) \<and> sequences_safe g g'"
    if "\<exists>g'. r = Some g' \<and> sequences_safe g g'" for r using that by auto
  show ?thesis
    unfolding generate_all_possoble_sequences_def Let_def
    by (cases algorithm) (simp_all only: GraphTraverseAlgorithm.case ended [OF bfs] ended [OF deep] ended [OF backward]
        ended [OF fudge] walk real)
qed

lemma default_sequences_safe:
  assumes "crate_ok g" and "\<forall>xs. set (set_order inp xs) \<subseteq> set xs" and "\<forall>s \<in> set (api_sequences g). seq_safe g s"
  shows "\<exists>g'. default_generate_sequences inp g = Some g' \<and> sequences_safe g g'"
proof -
  from bfs_sequences_safe [OF assms(1,3), of True False] obtain h where h: "bfs g 5 True False = Some h"
      "sequences_safe g h" "length (api_functions_visited h) = length (api_functions g)"
      "\<forall>i < length (api_functions g). api_functions_visited h ! i \<longrightarrow>
         (\<exists>s \<in> set (api_sequences h). i \<in> set (seq_calls s))" by blast
  then have same: "same_crate g h" by (simp add: sequences_safe_def)
  have "graph_wf h" using assms(1) by (simp add: crate_ok_def same_graph_wf [OF same])
  moreover have "\<forall>s \<in> set (api_sequences h). seq_safe h s"
    using h(2) by (simp add: sequences_safe_def same_seq_safe [OF same])
  ultimately obtain g' where "try_to_cover_unvisited_nodes h (set_order inp) = Some g'" "same_crate h g'"
      "\<forall>s \<in> set (api_sequences g'). seq_safe h s"
    using cover_unvisited_result [of h "set_order inp"] assms(2) h(3,4) by (auto simp: same_fields [OF same])
  then show ?thesis
    using h(1) same
    by (auto simp: default_generate_sequences_def generate_all_possoble_sequences_def sequences_safe_def
        same_seq_safe [OF same] same_crate_def)
qed

text \<open>C19. Every algorithm that \<open>generate_all_possoble_sequences\<close> can run returns on a well-formed crate
  with readable inputs, for any random numbers and any order of the hash set, leaves the crate as it
  was and stores safe sequences only; so does the default, breadth-first search followed by the
  backward search.\<close>

theorem generate_safe:
  assumes "crate_ok g" and "inputs_ok inp g sg" and "\<forall>s \<in> set (api_sequences g). seq_safe g s"
  shows "(\<exists>g' fin. generate_all_possoble_sequences inp g algorithm max_num max_len sg = Some (g', fin) \<and>
      sequences_safe g g') \<and>
    (\<exists>g'. default_generate_sequences inp g = Some g' \<and> sequences_safe g g')"
  using generate_sequences_safe [OF assms] default_sequences_safe [OF assms(1) _ assms(3)] assms(2)
  by (simp add: inputs_ok_def)

lemma crate_graph_edges_ok: "crate_ok crate_graph_edges"
  using crate_graph_edges_wf crate_graph_edges_facts by (simp add: crate_ok_def crate_graph_edges_length)

definition no_inputs :: search_inputs where
  "no_inputs = \<lparr>walk_choices = [3, 1, 2], fudge_file = Some [], fudge_choices = [(0, 0)], dep_file = None,
     order_file = None, func_file = None, my_choices = (\<lambda>n k. n + k), my_steps = 10, set_order = (\<lambda>xs. xs)\<rparr>"

lemma no_inputs_ok: "inputs_ok no_inputs crate_graph_edges False"
  by (simp add: inputs_ok_def no_inputs_def no_corpus_readable crate_graph_edges_start read_corpus_def)

lemma generate_safe_witness:
  "\<exists>g' fin. generate_all_possoble_sequences no_inputs crate_graph_edges A_UseRealWorld 2 3 False = Some (g', fin) \<and>
     sequences_safe crate_graph_edges g'"
  using generate_safe [OF crate_graph_edges_ok no_inputs_ok] by (simp add: crate_graph_edges_sequences)

end
