(* ===== verification/Sequence_Typing.thy ===== *)
theory Sequence_Typing
  imports Graph_Generate
begin

text \<open>
  The types of the arguments in a generated sequence. \<open>seq_origin\<close> says where the fuzzed arguments come
  from: each has the call type that the generator computed for the type of its parameter.
  \<open>is_fun_satisfied\<close> keeps it, so that it is a second instance of the interface \<open>sequence_search\<close>, and
  the searches carry it along. With the edges of the graph it gives that all arguments are well typed
  and that the sequences can be printed as targets.
\<close>

section \<open>Where fuzzed arguments come from\<close>

definition fuzz_from :: "ApiGraph \<Rightarrow> ApiFunction \<Rightarrow> nat \<Rightarrow> FuzzableType \<Rightarrow> CallType \<Rightarrow> bool" where
  "fuzz_from g f i ft ct \<longleftrightarrow> ft \<noteq> FT_NoFuzzable \<and>
     (\<exists>fct. fuzzable_call_type (graph_cache g) (full_name_map g) (Some (generic_substitutions f)) (actual_type f i)
        = Some fct \<and> generate_fuzzable_type_and_call_type fct = (ft, ct))"

definition fuzz_source :: "ApiGraph \<Rightarrow> FuzzableType \<Rightarrow> bool" where
  "fuzz_source g ft \<longleftrightarrow> (\<exists>f \<in> set (api_functions g). \<exists>i < length (inputs f). \<exists>ct. fuzz_from g f i ft ct)"

definition args_origin :: "ApiGraph \<Rightarrow> ApiFunction \<Rightarrow> FuzzableType list \<Rightarrow> (ParamType \<times> nat \<times> CallType) list \<Rightarrow> bool" where
  "args_origin g f fps ps \<longleftrightarrow> (\<forall>i < length ps. \<forall>k ct. ps ! i = (FuzzableParam, k, ct) \<longrightarrow>
     k < length fps \<and> fuzz_from g f i (fps ! k) ct)"

definition seq_origin :: "ApiGraph \<Rightarrow> ApiSequence \<Rightarrow> bool" where
  "seq_origin g s \<longleftrightarrow>
     (\<forall>call \<in> set (seq_functions s). args_origin g (call_fun g call) (fuzzable_params s) (params call)) \<and>
     (\<forall>ft \<in> set (fuzzable_params s). fuzz_source g ft)"

lemma args_origin_more: "args_origin g f fps ps \<Longrightarrow> args_origin g f (fps @ rest) ps"
  by (auto simp: args_origin_def nth_append)

lemma args_origin_snoc:
  "args_origin g f fps (ps @ [(pt, k, ct)]) \<longleftrightarrow> args_origin g f fps ps \<and>
     (pt = FuzzableParam \<longrightarrow> k < length fps \<and> fuzz_from g f (length ps) (fps ! k) ct)"
  by (auto simp: args_origin_def nth_append less_Suc_eq split: if_splits)

section \<open>One call\<close>

text \<open>Taking a result adds a parameter and no fuzzed value.\<close>

definition takes_one :: "SatState \<Rightarrow> SatState \<Rightarrow> bool" where
  "takes_one st st' \<longleftrightarrow> fuzzable_params (new_sequence st') = fuzzable_params (new_sequence st) \<and>
     (\<exists>k ct. params (api_call st') = params (api_call st) @ [(FunctionReturn, k, ct)])"

lemma satisfy_search_takes:
  "satisfy_search g fi i ty ks st = Some (Some st') \<Longrightarrow> takes_one st st'"
proof (induction ks arbitrary: st)
  case (Cons k ks)
  have chk: "takes_one st1 (use_result ct k st2)"
    if "borrow_check g fi ty ct k index st1 = Some (Some st2)" for ct index st1 st2
    using that by (cases rule: borrow_check_cases) (auto simp: takes_one_def use_result_def Let_def add_param_def)
  have dep: "takes_one (st\<lparr>new_sequence := add_dependency (new_sequence st) d\<rparr>) u \<Longrightarrow> takes_one st u"
    for d u by (simp add: takes_one_def)
  from Cons show ?case
    by (auto simp: Let_def bind_eq_Some_conv split: if_splits option.splits prod.splits
        dest!: chk dest: dep)
qed simp

definition sat_origin :: "ApiGraph \<Rightarrow> ApiFunction \<Rightarrow> FuzzableType list \<Rightarrow> nat \<Rightarrow> SatState \<Rightarrow> bool" where
  "sat_origin g f fps i st \<longleftrightarrow> length (params (api_call st)) = i \<and>
     (\<exists>rest. fuzzable_params (new_sequence st) = fps @ rest) \<and>
     args_origin g f (fuzzable_params (new_sequence st)) (params (api_call st)) \<and>
     (\<forall>ft \<in> set (fuzzable_params (new_sequence st)). fuzz_source g ft)"

lemma satisfy_param_origin:
  assumes "satisfy_param g fi f n (i, inputs f ! i) st = Some (Some st')" and "sat_origin g f fps i st"
    and "f \<in> set (api_functions g)" and "i < length (inputs f)"
  shows "sat_origin g f fps (Suc i) st'"
proof -
  have ty: "(case substitute_type (generic_substitutions f) (inputs f ! i) of
      None \<Rightarrow> inputs f ! i | Some t \<Rightarrow> t) = actual_type f i" by (simp add: actual_type_def)
  from assms(1) consider "satisfy_fuzzable g f (actual_type f i) st = Some (Some st')"
    | "satisfy_search g fi i (actual_type f i) [0..<n] st = Some (Some st')"
    by (auto simp: satisfy_param_def ty Let_def bind_eq_Some_conv split: if_splits)
  then show ?thesis
  proof cases
    case 1
    then show ?thesis
    proof (cases rule: satisfy_fuzzable_cases)
      case (1 fct ft ct)
      then have from_i: "fuzz_from g f i ft ct" by (auto simp: fuzz_from_def)
      with assms(3,4) have "fuzz_source g ft" by (auto simp: fuzz_source_def)
      with 1(4) assms(2) from_i show ?thesis
        by (auto simp: sat_origin_def add_param_def args_origin_snoc args_origin_more)
    qed
  next
    case 2
    with satisfy_search_takes [OF 2] assms(2) show ?thesis
      by (auto simp: sat_origin_def takes_one_def args_origin_snoc)
  qed
qed

lemma satisfy_params_origin:
  assumes "satisfy_params g fi f n (enumerate i (drop i (inputs f))) st = Some (Some st')"
    and "sat_origin g f fps i st" and "f \<in> set (api_functions g)" and "i \<le> length (inputs f)"
  shows "sat_origin g f fps (length (inputs f)) st'"
  using assms
proof (induction "length (inputs f) - i" arbitrary: i st)
  case (Suc m)
  then have i: "i < length (inputs f)" by simp
  then have "enumerate i (drop i (inputs f)) =
      (i, inputs f ! i) # enumerate (Suc i) (drop (Suc i) (inputs f))"
    by (simp add: Cons_nth_drop_Suc [symmetric])
  with Suc.prems(1) obtain st1 where s1: "satisfy_param g fi f n (i, inputs f ! i) st = Some (Some st1)"
      "satisfy_params g fi f n (enumerate (Suc i) (drop (Suc i) (inputs f))) st1 = Some (Some st')"
    by (auto simp: bind_eq_Some_conv split: option.splits)
  from satisfy_param_origin [OF s1(1) Suc.prems(2,3) i] have "sat_origin g f fps (Suc i) st1" .
  with Suc.hyps(1) [of "Suc i" st1] Suc.hyps(2) s1(2) Suc.prems i show ?case by simp
qed simp

lemma is_fun_satisfied_origin:
  assumes "seq_origin g s" and "is_fun_satisfied g t fi s = Some (Some s')"
  shows "seq_origin g s'"
  using assms(2)
proof (cases rule: is_fun_satisfied_cases)
  case (1 f s2)
  have f: "f \<in> set (api_functions g)" using 1(2,3) by simp
  from 1(10) consider "inputs f = []" "s' = add_fn s2 (ApiCall_new fi)"
    | st where "satisfy_params g fi f (length (seq_functions s)) (enumerate 0 (inputs f))
          \<lparr>new_sequence = s2, api_call = ApiCall_new fi, moved_indexes = moved s2, multi_mut = {},
           immutable_borrow = {}\<rparr> = Some (Some st)"
        "s' = (add_fn (new_sequence st) (api_call st))\<lparr>moved := moved_indexes st\<rparr>" by blast
  then show ?thesis
  proof cases
    case 1
    with assms(1) \<open>seq_functions s2 = seq_functions s\<close> \<open>fuzzable_params s2 = fuzzable_params s\<close> show ?thesis
      by (simp add: seq_origin_def add_fn_def ApiCall_new_def args_origin_def)
  next
    case (2 st)
    let ?st0 = "\<lparr>new_sequence = s2, api_call = ApiCall_new fi, moved_indexes = moved s2, multi_mut = {},
           immutable_borrow = {}\<rparr>"
    have "sat_origin g f (fuzzable_params s) 0 ?st0"
      using assms(1) 1(5) by (simp add: sat_origin_def seq_origin_def ApiCall_new_def args_origin_def)
    with satisfy_params_origin [of g fi f _ 0 ?st0 st] 2(1) f
    have st: "sat_origin g f (fuzzable_params s) (length (inputs f)) st" by simp
    from satisfy_params_shape [OF 2(1)] 1(4) have shape: "seq_functions (new_sequence st) = seq_functions s"
        "func (api_call st) = (BareFunction, fi)"
      by (simp_all add: same_shape_def ApiCall_new_def)
    from st obtain rest where rest: "fuzzable_params (new_sequence st) = fuzzable_params s @ rest"
      by (auto simp: sat_origin_def)
    have "call_fun g (api_call st) = f" using shape(2) 1(3) by (simp add: call_fun_def)
    with 2(2) shape(1) st rest assms(1) show ?thesis
      by (auto simp: seq_origin_def sat_origin_def add_fn_def args_origin_more)
  qed
qed

section \<open>The searches keep the origin\<close>

text \<open>A second instance of the interface of the searches, with the stronger condition.\<close>

interpretation typed: sequence_search "is_fun_satisfied g BareFunction" "stop_here g stop"
  "\<lambda>s. graph_wf g \<and> seq_safe g s \<and> seq_origin g s" seq_calls seq_len "length (api_functions g)" for g stop
proof
  show "graph_wf g \<and> seq_safe g s' \<and> seq_origin g s'"
    if "graph_wf g \<and> seq_safe g s \<and> seq_origin g s" "is_fun_satisfied g BareFunction i s = Some (Some s')"
    for g s i s'
    using that is_fun_satisfied_safe is_fun_satisfied_origin by blast
qed (use crate.ext_returns crate.ext_calls crate.ended_returns crate.len_calls in blast)+

lemma empty_origin [simp]: "seq_origin g ApiSequence_new"
  by (simp add: seq_origin_def ApiSequence_new_def)

lemma bfs_origin:
  assumes "graph_wf g" and "\<forall>s \<in> set (api_sequences g). seq_safe g s \<and> seq_origin g s" and "max_len \<ge> 1"
  shows "\<exists>g'. bfs g max_len stop fast = Some g' \<and> same_crate g g' \<and>
    (\<forall>s \<in> set (api_sequences g'). seq_safe g s \<and> seq_origin g s)"
proof -
  let ?ok = "\<lambda>s. graph_wf g \<and> seq_safe g s \<and> seq_origin g s"
  have "search_inv ?ok seq_calls (length (api_functions g))
      (api_sequences g @ [ApiSequence_new], replicate (length (api_functions g)) False)"
    using assms(1,2) by (simp add: search_inv_def list_all_iff)
  from typed.bfs_rounds_inv [OF this, of stop fast "[0..<max_len]"] show ?thesis
    unfolding bfs_unfold [OF assms(3)] by (auto simp: search_inv_def list_all_iff)
qed

section \<open>Types of the arguments\<close>

lemma fuzzable_no_substitution: "fuzzable_call_type c m (Some Map.empty) t = fuzzable_call_type c m None t"
proof (induction c m "None :: (string \<rightharpoonup> Type) option" t rule: fuzzable_call_type.induct)
  case (5 c m ts)
  then have "map_until (fuzzable_call_type c m (Some Map.empty)) (\<lambda>f. f = FCT_NoFuzzable) ts =
      map_until (fuzzable_call_type c m None) (\<lambda>f. f = FCT_NoFuzzable) ts"
    by (intro map_until_cong) auto
  then show ?case by simp
qed (auto split: option.splits PreludeType.splits)

lemma result_argument_typed:
  assumes "find_all_dependencies g False = Some g'" and "edge g' (func out_call) (BareFunction, j) i ct"
    and "printable ct"
  shows "\<exists>t out. output_type (api_functions g ! snd (func out_call)) = Some t \<and> stripped_output g t = Some out \<and>
    arg_has_type (graph_cache g) (full_name_map g) out ct (inputs (api_functions g ! j) ! i)"
proof -
  let ?d = "\<lparr>output_fun = func out_call, input_fun = (BareFunction, j), input_param_index = i, dep_call_type = ct\<rparr>"
  have "?d \<in> set (api_dependencies g')" using assms(2) by (simp add: edge_def)
  from dependency_typed [OF assms(1) this] assms(3) show ?thesis by auto
qed

lemma fuzzed_argument_typed:
  assumes "fuzz_from g f i ft ct" and "generic_substitutions f = Map.empty"
  shows "\<exists>fct. fuzzable_call_type (graph_cache g) (full_name_map g) None (actual_type f i) = Some fct \<and>
    generate_fuzzable_type_and_call_type fct = (ft, ct) \<and>
    (slices_direct fct \<longrightarrow> printable ct \<longrightarrow>
       (\<exists>a. value_type ft a \<and> arg_has_type (graph_cache g) (full_name_map g) a ct (actual_type f i)))"
proof -
  from assms obtain fct where fct: "fuzzable_call_type (graph_cache g) (full_name_map g) None (actual_type f i) = Some fct"
      "generate_fuzzable_type_and_call_type fct = (ft, ct)" "ft \<noteq> FT_NoFuzzable"
    by (auto simp: fuzz_from_def fuzzable_no_substitution)
  with fuzzable_sound [OF fct(1)] show ?thesis by (auto simp: fuzz_typed_def)
qed

lemma find_all_dependencies_fields:
  assumes "find_all_dependencies g sg = Some g'"
  shows "api_functions g' = api_functions g" "graph_cache g' = graph_cache g" "full_name_map g' = full_name_map g"
  using assms by (auto simp: find_all_dependencies_def split: bind_splits)

text \<open>The argument at position \<open>i\<close> of the call at position \<open>b\<close> has the type of its parameter: a result is
  used at that type after unwrapping an \<open>Option\<close> or \<open>Result\<close>, and a fuzzed value is the one that
  \<open>fuzzable_call_type\<close> chooses for the parameter, used at the type of the parameter if the elements of
  slices are passed as they are. Paths are compared without their generic arguments.\<close>

definition argument_typed :: "ApiGraph \<Rightarrow> ApiSequence \<Rightarrow> nat \<Rightarrow> nat \<Rightarrow> bool" where
  "argument_typed g s b i \<longleftrightarrow>
     (let f = call_fun g (seq_functions s ! b) in
      case params (seq_functions s ! b) ! i of
        (FunctionReturn, k, ct) \<Rightarrow> \<exists>t out. output_type (call_fun g (seq_functions s ! k)) = Some t \<and>
          stripped_output g t = Some out \<and>
          arg_has_type (graph_cache g) (full_name_map g) out ct (inputs f ! i)
      | (FuzzableParam, k, ct) \<Rightarrow>
          \<exists>fct. fuzzable_call_type (graph_cache g) (full_name_map g) None (actual_type f i) = Some fct \<and>
            generate_fuzzable_type_and_call_type fct = (fuzzable_params s ! k, ct) \<and>
            (slices_direct fct \<longrightarrow> (\<exists>a. value_type (fuzzable_params s ! k) a \<and>
               arg_has_type (graph_cache g) (full_name_map g) a ct (actual_type f i))))"

text \<open>The arguments that the development can say something about: the call type prints its layers in
  order, and the function is not generic.\<close>

definition args_typed :: "ApiGraph \<Rightarrow> ApiSequence \<Rightarrow> bool" where
  "args_typed g s \<longleftrightarrow> (\<forall>b < seq_len s. \<forall>i < length (params (seq_functions s ! b)).
     printable (snd (snd (params (seq_functions s ! b) ! i))) \<and>
     generic_substitutions (call_fun g (seq_functions s ! b)) = Map.empty \<longrightarrow> argument_typed g s b i)"

lemma call_argument_typed:
  assumes "find_all_dependencies g False = Some g'" and "seq_safe g' s" and "seq_origin g' s"
    and "b < seq_len s" and "i < length (params (seq_functions s ! b))"
    and "printable (snd (snd (params (seq_functions s ! b) ! i)))"
    and "generic_substitutions (call_fun g (seq_functions s ! b)) = Map.empty"
  shows "argument_typed g s b i"
proof -
  let ?calls = "seq_functions s" let ?call = "?calls ! b"
  obtain pt k ct where p: "params ?call ! i = (pt, k, ct)" by (rule prod_cases3)
  with assms(6) have ct: "printable ct" by simp
  note fields = find_all_dependencies_fields [OF assms(1)]
  have same: "call_fun g' = call_fun g" by (simp add: call_fun_def fun_eq_iff fields)
  have ok: "call_ok g' (take b ?calls) ?call" by (rule seq_safe_call [OF assms(2,4)])
  show ?thesis
  proof (cases pt)
    case FunctionReturn
    with assms(5) p have "takes ?call i k ct" by (simp add: takes_def)
    with ok have "k < length (take b ?calls)" "edge g' (func (take b ?calls ! k)) (func ?call) i ct"
      unfolding call_ok_def by blast+
    then have "edge g' (func (?calls ! k)) (func ?call) i ct" by simp
    moreover have "func ?call = (BareFunction, snd (func ?call))" using ok by (simp add: call_ok_def prod_eq_iff)
    ultimately have "edge g' (func (?calls ! k)) (BareFunction, snd (func ?call)) i ct" by simp
    from result_argument_typed [OF assms(1) this ct] FunctionReturn p show ?thesis
      by (simp add: argument_typed_def call_fun_def)
  next
    case FuzzableParam
    have "?call \<in> set ?calls" using assms(4) by (simp add: seq_len_def)
    with assms(3,5) p FuzzableParam have "fuzz_from g' (call_fun g ?call) i (fuzzable_params s ! k) ct"
      by (auto simp: seq_origin_def args_origin_def same)
    from fuzzed_argument_typed [OF this assms(7)] ct p FuzzableParam show ?thesis
      by (simp add: argument_typed_def fields)
  qed
qed

lemma sequence_args_typed:
  assumes "find_all_dependencies g False = Some g'" and "seq_safe g' s" and "seq_origin g' s"
  shows "args_typed g s"
  using call_argument_typed [OF assms] by (simp add: args_typed_def)

text \<open>C3. The generated calls are well typed, under four conditions. In a safe sequence over the
  dependencies that \<open>find_all_dependencies\<close> found, take an argument of a function without generic
  substitutions, whose call type is \<open>printable\<close>: dereferences and unwraps are applied to the variable
  itself, and there is no cast to \<open>*mut\<close>. A result is used at the type of the parameter, after unwrapping an \<open>Option\<close> or
  \<open>Result\<close>; a fuzzed value is the one chosen for the parameter, and it gives an expression of the
  parameter type if the elements of slices are passed as they are. Types are compared up to the generic
  arguments of paths, as the generator does. Outside these conditions the generator does choose
  ill-typed arguments: see \<open>deref_cast_ill_typed\<close> and \<open>slice_of_references_ill_typed\<close>.\<close>

theorem arguments_well_typed:
  assumes "find_all_dependencies g False = Some g'" and "seq_safe g' s" and "seq_origin g' s"
    and "b < seq_len s" and "i < length (params (seq_functions s ! b))"
    and "params (seq_functions s ! b) ! i = (pt, k, ct)" and "printable ct"
    and "generic_substitutions (call_fun g (seq_functions s ! b)) = Map.empty"
  shows "case pt of
      FunctionReturn \<Rightarrow> \<exists>t out. output_type (call_fun g (seq_functions s ! k)) = Some t \<and>
        stripped_output g t = Some out \<and>
        arg_has_type (graph_cache g) (full_name_map g) out ct (inputs (call_fun g (seq_functions s ! b)) ! i)
    | FuzzableParam \<Rightarrow> \<exists>fct. fuzzable_call_type (graph_cache g) (full_name_map g) None
          (actual_type (call_fun g (seq_functions s ! b)) i) = Some fct \<and>
        generate_fuzzable_type_and_call_type fct = (fuzzable_params s ! k, ct) \<and>
        (slices_direct fct \<longrightarrow> (\<exists>a. value_type (fuzzable_params s ! k) a \<and>
           arg_has_type (graph_cache g) (full_name_map g) a ct (actual_type (call_fun g (seq_functions s ! b)) i)))"
  using call_argument_typed [OF assms(1-5) _ assms(8)] assms(6,7)
  by (cases pt) (simp_all add: argument_typed_def Let_def)

lemma new_then_len_origin: "seq_origin crate_graph_edges new_then_len"
proof -
  let ?f = "api ''krate::new'' [T_Primitive P_U32] (Some widget)"
  have f: "?f \<in> set (api_functions crate_graph_edges)" "inputs ?f = [T_Primitive P_U32]"
    by (simp_all add: crate_graph_edges_def crate_graph_def api_def)
  have "fuzz_from crate_graph_edges ?f 0 (FT_Primitive P_U32) CT_DirectCall"
    by (simp add: fuzz_from_def actual_type_def api_def)
  moreover from this f have "fuzz_source crate_graph_edges (FT_Primitive P_U32)"
    unfolding fuzz_source_def by (intro bexI [of _ ?f] exI [of _ 0]) auto
  moreover have "api_functions crate_graph_edges ! 0 = ?f" by (simp add: crate_graph_edges_def crate_graph_def)
  ultimately show ?thesis
    by (auto simp: seq_origin_def new_then_len_def args_origin_def call_fun_def)
qed

lemma arguments_well_typed_witness:
  "(\<exists>t out. output_type (call_fun crate_graph (seq_functions new_then_len ! 0)) = Some t \<and>
     stripped_output crate_graph t = Some out \<and>
     arg_has_type (graph_cache crate_graph) (full_name_map crate_graph) out (CT_BorrowedRef CT_DirectCall)
       (inputs (call_fun crate_graph (seq_functions new_then_len ! 1)) ! 0)) \<and>
   (\<exists>a. value_type (FT_Primitive P_U32) a \<and>
     arg_has_type (graph_cache crate_graph) (full_name_map crate_graph) a CT_DirectCall (T_Primitive P_U32))"
proof -
  note typed = arguments_well_typed [OF crate_graph_dependencies new_then_len_safe new_then_len_origin]
  have "\<exists>a. value_type (FT_Primitive P_U32) a \<and>
     arg_has_type (graph_cache crate_graph) (full_name_map crate_graph) a CT_DirectCall (T_Primitive P_U32)"
    using typed [of 0 0 FuzzableParam 0 CT_DirectCall]
    by (simp add: new_then_len_def seq_len_def call_fun_def crate_graph_def api_def actual_type_def)
  with typed [of 1 0 FunctionReturn 0 "CT_BorrowedRef CT_DirectCall"] show ?thesis
    by (simp add: new_then_len_def seq_len_def call_fun_def crate_graph_def api_def)
qed

section \<open>The searches give sequences that can be printed\<close>

text \<open>The types of the crate that can occur in a target can be printed and read.\<close>

definition printable_types :: "ApiGraph \<Rightarrow> bool" where
  "printable_types g \<longleftrightarrow> (\<forall>d \<in> set (api_dependencies g). named (dep_call_type d)) \<and>
     (\<forall>f \<in> set (api_functions g). \<forall>i < length (inputs f). \<forall>ft ct.
        fuzz_from g f i ft ct \<longrightarrow> readable ft \<and> named ct)"

lemma origin_printable:
  assumes "printable_types g" and "seq_safe g s" and "seq_origin g s"
  shows "names_known s" and "list_all readable (fuzzable_params s)"
proof -
  show "list_all readable (fuzzable_params s)"
    using assms(1,3) by (auto simp: list_all_iff seq_origin_def fuzz_source_def printable_types_def)
  show "names_known s"
    unfolding names_known_def list_all_length
  proof (intro allI impI)
    fix b i assume b: "b < length (seq_functions s)" and i: "i < length (params (seq_functions s ! b))"
    let ?call = "seq_functions s ! b"
    obtain pt k ct where p: "params ?call ! i = (pt, k, ct)" by (rule prod_cases3)
    have ok: "call_ok g (take b (seq_functions s)) ?call"
      using seq_safe_call [OF assms(2)] b by (simp add: seq_len_def)
    show "named (snd (snd (params ?call ! i)))"
    proof (cases pt)
      case FunctionReturn
      with p i have "takes ?call i k ct" by (simp add: takes_def)
      with ok have "edge g (func (take b (seq_functions s) ! k)) (func ?call) i ct"
        unfolding call_ok_def by blast
      with assms(1) p show ?thesis by (fastforce simp: printable_types_def edge_def)
    next
      case FuzzableParam
      have "?call \<in> set (seq_functions s)" using b by simp
      with assms(3) i p FuzzableParam have "fuzz_from g (call_fun g ?call) i (fuzzable_params s ! k) ct"
        by (auto simp: seq_origin_def args_origin_def)
      moreover have "call_fun g ?call \<in> set (api_functions g)" "i < length (inputs (call_fun g ?call))"
        using ok i by (simp_all add: call_ok_def call_fun_def)
      ultimately have "named ct" using assms(1) unfolding printable_types_def by blast
      with p show ?thesis by simp
    qed
  qed
qed

end
