(* ===== verification/File_Util.thy ===== *)
theory File_Util
  imports Graph_Choose My_Method Body_Scope Closure_Reads "HOL-Library.List_Lexorder" "HOL-Library.Char_ord"
    "HOL-Library.Sublist"
begin

text \<open>
  \<open>file_util.rs\<close>: which sequences become files, under which names and in which directory. Equal call
  chains are written once, ordered by their printed form. The file system is a map from paths to
  nodes; of its errors the model has those that come from the tree itself.
\<close>

section \<open>Directories\<close>

definition generate_fuzz_file_path :: "string \<Rightarrow> string \<Rightarrow> string" where
  "generate_fuzz_file_path lib_name test_dir_path =
     ''/home/yxz/workspace/fuzz/experiment_root/'' @ lib_name @ ''/fuzz_file_dir/'' @ test_dir_path"

definition DEFAULT_CRATE_TEST_DIR :: "string \<rightharpoonup> string" where
  "DEFAULT_CRATE_TEST_DIR = [''url'' \<mapsto> generate_fuzz_file_path ''url'' ''default_url_afl_work'']"

definition get_real_world_crate_test_dir :: "string \<Rightarrow> string" where
  "get_real_world_crate_test_dir lib_name = generate_fuzz_file_path lib_name ''real_world_afl_work''"

definition get_bfs_crate_test_dir :: "string \<Rightarrow> string" where
  "get_bfs_crate_test_dir lib_name = generate_fuzz_file_path lib_name ''bfs_afl_work''"

definition get_fudge_crate_test_dir :: "string \<Rightarrow> string" where
  "get_fudge_crate_test_dir lib_name = generate_fuzz_file_path lib_name ''fudge_afl_work''"

definition get_randwalk_crate_test_dir :: "string \<Rightarrow> string" where
  "get_randwalk_crate_test_dir lib_name = generate_fuzz_file_path lib_name ''random_afl_work''"

definition MAX_TEST_FILE_NUMBER :: nat where
  "MAX_TEST_FILE_NUMBER = 300"

definition can_write_to_file :: "string \<Rightarrow> GraphTraverseAlgorithm \<Rightarrow> bool" where
  "can_write_to_file crate strategy = (case strategy of
     A_Default \<Rightarrow> DEFAULT_CRATE_TEST_DIR crate \<noteq> None
   | A_RandomWalk \<Rightarrow> True | A_Fudge \<Rightarrow> True | A_UseRealWorld \<Rightarrow> True
   | _ \<Rightarrow> False)"

section \<open>The files of a graph\<close>

record FileHelper =
  fh_crate_name :: string
  test_dir :: string
  test_files :: "string list"
  reproduce_files :: "string list"

definition test_dir_of :: "GraphTraverseAlgorithm \<Rightarrow> string \<Rightarrow> string" where
  "test_dir_of strategy crate = (case strategy of
     A_UseRealWorld \<Rightarrow> get_real_world_crate_test_dir crate
   | A_RandomWalk \<Rightarrow> get_randwalk_crate_test_dir crate
   | A_Fudge \<Rightarrow> get_fudge_crate_test_dir crate
   | _ \<Rightarrow> '''')"

text \<open>The hash map keeps, for a printed form, the last sequence with it; its entries are sorted by
  that form. Strings are compared byte by byte.\<close>

definition sequences_by_text :: "ApiGraph \<Rightarrow> ApiSequence list \<Rightarrow> ApiSequence list run" where
  "sequences_by_text g seqs =
     do { printed \<leftarrow> map_m (\<lambda>s. do { t \<leftarrow> print_sequence g s; Some (t, s) }) seqs;
          let sequence_map = fold (\<lambda>(t, s) m. m(t \<mapsto> s)) printed Map.empty;
          Some (map (\<lambda>t. the (sequence_map t)) (sort (remdups (map fst printed)))) }"

text \<open>The loop over the sequences, up to the bound on the number of files. The text for \<open>libFuzzer\<close> is
  generated too and not kept.\<close>

fun file_loop ::
  "PreludeHelper list \<Rightarrow> ApiGraph \<Rightarrow> ApiSequence list \<Rightarrow> nat \<Rightarrow> string list \<times> string list \<Rightarrow>
   (string list \<times> string list) run" where
  "file_loop order g [] sequence_count files = Some files"
| "file_loop order g (s # seqs) sequence_count (tests, replays) =
     (if sequence_count \<ge> MAX_TEST_FILE_NUMBER then Some (tests, replays)
      else
        do { test_file \<leftarrow> to_afl_test_file order g s sequence_count;
             reproduce_file \<leftarrow> to_replay_crash_file order g s sequence_count;
             libfuzzer_file \<leftarrow> to_libfuzzer_test_file order g s sequence_count;
             file_loop order g seqs (sequence_count + 1) (tests @ [test_file], replays @ [reproduce_file]) })"

definition FileHelper_new ::
  "PreludeHelper list \<Rightarrow> ApiGraph \<Rightarrow> GraphTraverseAlgorithm \<Rightarrow> nat \<Rightarrow> nat \<Rightarrow> FileHelper run" where
  "FileHelper_new order g strategy max_size max_len =
     do { let crate = str_replace (crate_name g) ''_'' ''-'';
          chosen \<leftarrow> (if strategy = A_Bfs then heuristic_choose g max_size True
                     else first_choose g max_size max_len);
          seqs \<leftarrow> sequences_by_text g chosen;
          (tests, replays) \<leftarrow> file_loop order g seqs 0 ([], []);
          Some \<lparr>fh_crate_name = crate, test_dir = test_dir_of strategy crate,
                test_files = tests, reproduce_files = replays\<rparr> }"

section \<open>Writing\<close>

datatype node = Dir_Node | File_Node string
type_synonym path = "string list"
type_synonym file_system = "path \<rightharpoonup> node"

text \<open>\<open>PathBuf::from\<close>: the components, with the root as one of them.\<close>

definition path_of :: "string \<Rightarrow> path" where
  "path_of s = (if starts_with s ''/'' then [''/''] else []) @ filter (\<lambda>c. c \<noteq> []) (str_split ''/'' s)"

definition is_file :: "file_system \<Rightarrow> path \<Rightarrow> bool" where
  "is_file fs p = (case fs p of Some (File_Node _) \<Rightarrow> True | _ \<Rightarrow> False)"

definition is_dir :: "file_system \<Rightarrow> path \<Rightarrow> bool" where
  "is_dir fs p = (fs p = Some Dir_Node)"

definition remove_dir_all :: "file_system \<Rightarrow> path \<Rightarrow> file_system" where
  "remove_dir_all fs p = (\<lambda>q. if prefix p q then None else fs q)"

definition create_dir_all :: "file_system \<Rightarrow> path \<Rightarrow> file_system run" where
  "create_dir_all fs p =
     (if list_ex (is_file fs) (prefixes p) then None
      else Some (\<lambda>q. if prefix q p \<and> q \<noteq> [] then Some Dir_Node else fs q))"

text \<open>\<open>File::create\<close> and \<open>write_all\<close>: the directory has to be there, and no directory of the name.\<close>

definition write_file :: "file_system \<Rightarrow> path \<Rightarrow> string \<Rightarrow> file_system run" where
  "write_file fs p content =
     (if is_dir fs p \<or> \<not> is_dir fs (butlast p) then None else Some (fs(p \<mapsto> File_Node content)))"

definition ensure_empty_dir :: "path \<Rightarrow> file_system \<Rightarrow> file_system run" where
  "ensure_empty_dir p fs =
     (let fs1 = (if is_file fs p then fs(p := None) else fs);
          fs2 = (if is_dir fs1 p then remove_dir_all fs1 p else fs1)
      in create_dir_all fs2 p)"

definition padded_index :: "nat \<Rightarrow> string" where
  "padded_index i = replicate (5 - length (string_of_nat i)) CHR 0x30 @ string_of_nat i"

definition file_name :: "string \<Rightarrow> string \<Rightarrow> nat \<Rightarrow> string" where
  "file_name pre crate i = pre @ ''_'' @ crate @ padded_index i @ ''.rs''"

definition write_to_files :: "string \<Rightarrow> path \<Rightarrow> string list \<Rightarrow> string \<Rightarrow> file_system \<Rightarrow> file_system run" where
  "write_to_files crate p contents pre fs =
     fold_m (\<lambda>(i, content) fs. write_file fs (p @ [file_name pre crate i]) content) (enumerate 0 contents) fs"

definition write_files :: "FileHelper \<Rightarrow> file_system \<Rightarrow> file_system run" where
  "write_files fh fs =
     do { let test_path = path_of (test_dir fh);
          let fs0 = (if is_file fs test_path then fs(test_path := None) else fs);
          fs1 \<leftarrow> ensure_empty_dir (test_path @ [''afl_files'']) fs0;
          fs2 \<leftarrow> ensure_empty_dir (test_path @ [''replay_files'']) fs1;
          fs3 \<leftarrow> write_to_files (fh_crate_name fh) (test_path @ [''afl_files'']) (test_files fh) ''test'' fs2;
          write_to_files (fh_crate_name fh) (test_path @ [''replay_files'']) (reproduce_files fh) ''replay'' fs3 }"

section \<open>The three targets of a sequence\<close>

lemma str_replace_prefix:
  assumes "a \<noteq> []"
  shows "str_replace (a @ r) a b = b @ str_replace r a b"
proof -
  obtain c cs where a: "a = c # cs" using assms by (cases a) auto
  have "str_split a (a @ r) = [] # str_split a r"
    using starts_with_append [of a r] by (simp add: str_split_def a)
  then show ?thesis by (simp add: str_replace_def join_Cons)
qed

text \<open>The part of a file that all targets share, after the line that names the fuzzer.\<close>

definition shared_text :: "PreludeHelper list \<Rightarrow> ApiGraph \<Rightarrow> ApiSequence \<Rightarrow> nat \<Rightarrow> string" where
  "shared_text order g s test_index =
     (let body = \<lambda>ind. concat (map (stmt_text (generate_indent (ind + 4))) (body_stmts g s)) in
      ''extern crate '' @ crate_name g @ '';'' @ nl @
      (case prelude_helper_functions order s of None \<Rightarrow> '''' | Some t \<Rightarrow> t) @
      (case afl_helper_functions s of None \<Rightarrow> '''' | Some t \<Rightarrow> t) @
      generate_using_traits_string s 0 @
      generate_function_header_string s test_index 0 0 ''fn test_function'' ''_param'' @ ''{'' @ nl @
      (if seq_unsafe s
       then generate_indent 4 @ ''unsafe {'' @ nl @ body 4 @ generate_indent 4 @ ''}'' @ nl
       else body 0) @
      generate_indent 0 @ ''}'' @ nl @ nl)"

definition extern_afl :: string where
  "extern_afl = ''#[macro_use]'' @ nl @ ''extern crate afl;'' @ nl"

lemma except_main_text:
  assumes "graph_wf g" and "seq_safe g s" and "names_known s"
  shows "to_afl_except_main order g s test_index = Some (extern_afl @ shared_text order g s test_index)"
  using function_body_stmts [OF assms, of 4] function_body_stmts [OF assms, of 0]
  by (simp add: to_afl_except_main_def to_well_written_function_def shared_text_def extern_afl_def Let_def)

lemma main_texts:
  assumes "list_all readable (fuzzable_params s)"
  shows "afl_main_function s test_index = Some (''fn main() {'' @ nl @ ''    fuzz!(|data: &[u8]| {'' @ nl @
      closure_text s 4 test_index @ ''    });'' @ nl @ ''}'' @ nl)"
    and "libfuzzer_fuzz_main s test_index = Some (''fuzz_target!(|data: &[u8]| {'' @ nl @
      closure_text s 0 test_index @ ''});'' @ nl)"
    and "reproduce_main_function s test_index \<noteq> None"
  by (simp_all add: afl_main_function_def libfuzzer_fuzz_main_def reproduce_main_function_def
      closure_body_text [OF assms] generate_indent_def numeral_eq_Suc)

section \<open>Which files there are\<close>

text \<open>A sequence that can be printed as a target.\<close>

definition writable :: "ApiGraph \<Rightarrow> ApiSequence \<Rightarrow> bool" where
  "writable g s \<longleftrightarrow> seq_safe g s \<and> names_known s \<and> list_all readable (fuzzable_params s)"

lemma targets_text:
  assumes "graph_wf g" and "writable g s"
  shows "to_afl_test_file order g s i = Some (extern_afl @ shared_text order g s i @
      ''fn main() {'' @ nl @ ''    fuzz!(|data: &[u8]| {'' @ nl @ closure_text s 4 i @ ''    });'' @ nl @ ''}'' @ nl)"
    and "to_libfuzzer_test_file order g s i = Some (''#![no_main]'' @ nl @ ''#[macro_use]'' @ nl @
      ''extern crate libfuzzer_sys;'' @ nl @
      str_replace (shared_text order g s i) extern_afl
        (''#![no_main]'' @ nl @ ''#[macro_use]'' @ nl @ ''extern crate libfuzzer_sys;'' @ nl) @
      ''fuzz_target!(|data: &[u8]| {'' @ nl @ closure_text s 0 i @ ''});'' @ nl)"
    and "\<exists>main. to_replay_crash_file order g s i =
      Some (str_replace (shared_text order g s i) extern_afl '''' @ read_crash_file_data @ nl @ main)"
proof -
  have s: "seq_safe g s" "names_known s" "list_all readable (fuzzable_params s)"
    using assms(2) by (simp_all add: writable_def)
  note texts = except_main_text [OF assms(1) s(1,2)] main_texts [OF s(3)]
  have extern: "''#[macro_use]'' @ nl @ ''extern crate afl;'' @ nl = extern_afl" "extern_afl \<noteq> []"
    by (simp_all add: extern_afl_def)
  show "to_afl_test_file order g s i = Some (extern_afl @ shared_text order g s i @
      ''fn main() {'' @ nl @ ''    fuzz!(|data: &[u8]| {'' @ nl @ closure_text s 4 i @ ''    });'' @ nl @ ''}'' @ nl)"
    by (simp add: to_afl_test_file_def texts)
  show "to_libfuzzer_test_file order g s i = Some (''#![no_main]'' @ nl @ ''#[macro_use]'' @ nl @
      ''extern crate libfuzzer_sys;'' @ nl @
      str_replace (shared_text order g s i) extern_afl
        (''#![no_main]'' @ nl @ ''#[macro_use]'' @ nl @ ''extern crate libfuzzer_sys;'' @ nl) @
      ''fuzz_target!(|data: &[u8]| {'' @ nl @ closure_text s 0 i @ ''});'' @ nl)"
    unfolding to_libfuzzer_test_file_def texts extern Option.bind.simps str_replace_prefix [OF extern(2)]
    by (simp only: append.assoc)
  show "\<exists>main. to_replay_crash_file order g s i =
      Some (str_replace (shared_text order g s i) extern_afl '''' @ read_crash_file_data @ nl @ main)"
    using texts(4) [of i]
    unfolding to_replay_crash_file_def texts extern Option.bind.simps str_replace_prefix [OF extern(2)]
    by auto
qed

lemma fold_map_last:
  "fold (\<lambda>(t, s) m. m(t \<mapsto> s)) ps m t = (case map_of (rev ps) t of Some s \<Rightarrow> Some s | None \<Rightarrow> m t)"
  by (induction ps arbitrary: m) (auto simp: map_add_def split: option.splits)

lemma sequences_by_text_result:
  assumes "\<And>s. s \<in> set seqs \<Longrightarrow> print_sequence g s = Some (line s)"
  shows "\<exists>seqs'. sequences_by_text g seqs = Some seqs' \<and> set seqs' \<subseteq> set seqs \<and>
    map line seqs' = sort (remdups (map line seqs))"
proof -
  let ?ps = "map (\<lambda>s. (line s, s)) seqs"
  let ?m = "fold (\<lambda>(t, s) m. m(t \<mapsto> s)) ?ps Map.empty"
  have run: "map_m (\<lambda>s. do { t \<leftarrow> print_sequence g s; Some (t, s) }) seqs = Some ?ps"
    using assms by (induction seqs) auto
  have found: "\<exists>s \<in> set seqs. ?m t = Some s \<and> line s = t" if "t \<in> set (map line seqs)" for t
  proof -
    have "map_of (rev ?ps) t \<noteq> None" using that by (auto simp: map_of_eq_None_iff image_image)
    then obtain s where s: "map_of (rev ?ps) t = Some s" by blast
    then have "(t, s) \<in> set ?ps" using map_of_SomeD by fastforce
    with s show ?thesis by (auto simp: fold_map_last)
  qed
  let ?res = "map (\<lambda>t. the (?m t)) (sort (remdups (map fst ?ps)))"
  have "sequences_by_text g seqs = Some ?res" by (simp add: sequences_by_text_def run Let_def)
  moreover have "set ?res \<subseteq> set seqs"
  proof
    fix s assume "s \<in> set ?res"
    then obtain t where "t \<in> set (map line seqs)" "s = the (?m t)" by (auto simp: comp_def)
    with found [of t] show "s \<in> set seqs" by auto
  qed
  moreover have "map line ?res = sort (remdups (map line seqs))"
  proof -
    have "line (the (?m t)) = t" if "t \<in> set (map line seqs)" for t using found [OF that] by auto
    then have "map (\<lambda>t. line (the (?m t))) (sort (remdups (map line seqs))) = sort (remdups (map line seqs))"
      by (intro map_idI) auto
    then show ?thesis by (simp add: comp_def)
  qed
  ultimately show ?thesis by blast
qed

lemma file_loop_result:
  assumes "graph_wf g" and "\<forall>s \<in> set seqs. writable g s" and "length tests = n" and "length replays = n"
    and "n \<le> MAX_TEST_FILE_NUMBER"
  shows "\<exists>ts rs. file_loop order g seqs n (tests, replays) = Some (tests @ ts, replays @ rs) \<and>
    length ts = min (MAX_TEST_FILE_NUMBER - n) (length seqs) \<and> length rs = length ts \<and>
    (\<forall>i < length ts. to_afl_test_file order g (seqs ! i) (n + i) = Some (ts ! i) \<and>
       to_replay_crash_file order g (seqs ! i) (n + i) = Some (rs ! i))"
  using assms(2-)
proof (induction seqs arbitrary: n tests replays)
  case (Cons s seqs)
  show ?case
  proof (cases "n < MAX_TEST_FILE_NUMBER")
    case True
    from Cons.prems(1) have "writable g s" by simp
    with targets_text [OF assms(1) this, of order n] obtain t r l
      where files: "to_afl_test_file order g s n = Some t" "to_replay_crash_file order g s n = Some r"
        "to_libfuzzer_test_file order g s n = Some l" by blast
    from Cons.IH [of "tests @ [t]" "Suc n" "replays @ [r]"] Cons.prems True obtain ts rs
      where ih: "file_loop order g seqs (Suc n) (tests @ [t], replays @ [r]) =
          Some ((tests @ [t]) @ ts, (replays @ [r]) @ rs)"
        "length ts = min (MAX_TEST_FILE_NUMBER - Suc n) (length seqs)" "length rs = length ts"
        "\<forall>i < length ts. to_afl_test_file order g (seqs ! i) (Suc n + i) = Some (ts ! i) \<and>
           to_replay_crash_file order g (seqs ! i) (Suc n + i) = Some (rs ! i)" by auto
    have "\<forall>i < length (t # ts). to_afl_test_file order g ((s # seqs) ! i) (n + i) = Some ((t # ts) ! i) \<and>
           to_replay_crash_file order g ((s # seqs) ! i) (n + i) = Some ((r # rs) ! i)"
      using ih(3,4) files by (auto simp: less_Suc_eq_0_disj)
    with ih True files show ?thesis
      by (intro exI [of _ "t # ts"] exI [of _ "r # rs"]) auto
  next
    case False
    with Cons.prems show ?thesis by simp
  qed
qed simp

lemma print_sequence_returns:
  assumes "seq_safe g s" and "\<forall>f \<in> set (api_functions g). pretty_print f \<noteq> None"
  shows "\<exists>t. print_sequence g s = Some t"
proof -
  have "do { f \<leftarrow> index_m (api_functions g) (snd (func call)); n \<leftarrow> pretty_print f; Some (''['' @ n @ ''] '') }
      \<noteq> None" if "call \<in> set (seq_functions s)" for call
  proof -
    from that have "snd (func call) \<in> set (seq_calls s)" by (simp add: seq_calls_def)
    with seq_safe_calls [OF assms(1)] have "snd (func call) < length (api_functions g)" by blast
    with assms(2) show ?thesis using nth_mem by fastforce
  qed
  then have "map_m (\<lambda>call. do { f \<leftarrow> index_m (api_functions g) (snd (func call));
      n \<leftarrow> pretty_print f; Some (''['' @ n @ ''] '') }) (seq_functions s) \<noteq> None"
    by (rule map_m_no_panic)
  then obtain names where "map_m (\<lambda>call. do { f \<leftarrow> index_m (api_functions g) (snd (func call));
      n \<leftarrow> pretty_print f; Some (''['' @ n @ ''] '') }) (seq_functions s) = Some names" by blast
  then show ?thesis by (simp add: print_sequence_def)
qed

lemma chosen_sequences:
  assumes "graph_wf g" and "\<forall>s \<in> set (api_sequences g). seq_safe g s"
    and "\<forall>f \<in> set (api_functions g). pretty_print f \<noteq> None"
  shows "\<exists>chosen. (if strategy = A_Bfs then heuristic_choose g max_size True
      else first_choose g max_size max_len) = Some chosen \<and>
    set chosen \<subseteq> set (api_sequences g) \<and> length chosen \<le> max_size + 1"
proof (cases "strategy = A_Bfs")
  case True
  from heuristic_choose_result [OF assms(1,2), of max_size True] obtain js
    where js: "heuristic_choose g max_size True = Some (map ((!) (api_sequences g)) js)"
      "set js \<subseteq> valid_indexes (api_sequences g)" "length js \<le> max_size + 1" by blast
  then have "set (map ((!) (api_sequences g)) js) \<subseteq> set (api_sequences g)"
    by (auto simp: valid_indexes_def)
  with True js show ?thesis by simp
next
  case False
  let ?all = "filter (\<lambda>s. \<not> has_no_fuzzables s \<and> max_len \<le> seq_len s) (api_sequences g)"
  have "set (take (max 1 max_size) ?all) \<subseteq> set (api_sequences g)"
    using set_take_subset [of _ ?all] by auto
  with False first_choose_filter [OF assms] show ?thesis by simp
qed

section \<open>The properties of the files\<close>

lemma file_helper_result:
  assumes "graph_wf g" and "\<forall>s \<in> set (api_sequences g). writable g s"
    and "\<forall>f \<in> set (api_functions g). pretty_print f \<noteq> None"
  shows "\<exists>fh seqs line. FileHelper_new order g strategy max_size max_len = Some fh \<and>
    set seqs \<subseteq> set (api_sequences g) \<and> map (print_sequence g) seqs = map Some (map line seqs) \<and>
    sorted_wrt (<) (map line seqs) \<and>
    length (test_files fh) = min 300 (length seqs) \<and> length (test_files fh) \<le> max_size + 1 \<and>
    map Some (test_files fh) = map (\<lambda>(i, s). to_afl_test_file order g s i) (enumerate 0 (take 300 seqs)) \<and>
    map Some (reproduce_files fh) =
      map (\<lambda>(i, s). to_replay_crash_file order g s i) (enumerate 0 (take 300 seqs))"
proof -
  let ?line = "\<lambda>s. the (print_sequence g s)"
  have safe: "\<forall>s \<in> set (api_sequences g). seq_safe g s" using assms(2) by (simp add: writable_def)
  from chosen_sequences [OF assms(1) safe assms(3), of strategy max_size max_len] obtain chosen
    where chosen: "(if strategy = A_Bfs then heuristic_choose g max_size True
        else first_choose g max_size max_len) = Some chosen"
      "set chosen \<subseteq> set (api_sequences g)" "length chosen \<le> max_size + 1" by blast
  have line: "print_sequence g s = Some (?line s)" if "s \<in> set chosen" for s
    using print_sequence_returns [OF _ assms(3), of s] safe chosen(2) that by auto
  from sequences_by_text_result [OF line] obtain seqs
    where seqs: "sequences_by_text g chosen = Some seqs" "set seqs \<subseteq> set chosen"
      "map ?line seqs = sort (remdups (map ?line chosen))" by blast
  have "length seqs = length (sort (remdups (map ?line chosen)))" using seqs(3) by (metis length_map)
  also have "\<dots> \<le> length chosen" using length_remdups_leq [of "map ?line chosen"] by simp
  finally have len: "length seqs \<le> max_size + 1" using chosen(3) by simp
  from seqs(2) chosen(2) assms(2) have "\<forall>s \<in> set seqs. writable g s" by blast
  from file_loop_result [OF assms(1) this, of "[]" 0 "[]" order] obtain ts rs
    where files: "file_loop order g seqs 0 ([], []) = Some (ts, rs)" "length ts = min 300 (length seqs)"
      "length rs = length ts"
      "\<forall>i < length ts. to_afl_test_file order g (seqs ! i) i = Some (ts ! i) \<and>
         to_replay_crash_file order g (seqs ! i) i = Some (rs ! i)"
    by (auto simp: MAX_TEST_FILE_NUMBER_def)
  have texts: "map Some ts = map (\<lambda>(i, s). to_afl_test_file order g s i) (enumerate 0 (take 300 seqs))"
    "map Some rs = map (\<lambda>(i, s). to_replay_crash_file order g s i) (enumerate 0 (take 300 seqs))"
    using files(2-4) by (auto intro!: nth_equalityI simp: nth_enumerate_eq)
  let ?crate = "str_replace (crate_name g) ''_'' ''-''"
  have "FileHelper_new order g strategy max_size max_len =
      Some \<lparr>fh_crate_name = ?crate, test_dir = test_dir_of strategy ?crate, test_files = ts, reproduce_files = rs\<rparr>"
    unfolding FileHelper_new_def Let_def chosen(1) using seqs(1) files(1) by simp
  moreover have "sorted_wrt (<) (map ?line seqs)"
    unfolding seqs(3) by (simp add: strict_sorted_iff)
  moreover have "map (print_sequence g) seqs = map Some (map ?line seqs)"
    using line seqs(2) by (simp add: map_eq_conv subset_iff)
  ultimately show ?thesis
    using seqs(2) chosen(2) files(2) len texts
    by (intro exI [of _ "\<lparr>fh_crate_name = ?crate, test_dir = test_dir_of strategy ?crate,
        test_files = ts, reproduce_files = rs\<rparr>"] exI [of _ seqs] exI [of _ ?line]) auto
qed

text \<open>C22. The files of a graph: when every sequence can be written, \<open>FileHelper::new\<close> returns. The files
  belong to sequences of the graph with strictly increasing printed forms, so that no call chain is
  written twice; file \<open>i\<close> is the target with number \<open>i\<close>, there is a replay file for each, and there are
  at most 300 files and at most one more than asked for.\<close>

theorem file_helper_correct:
  assumes "graph_wf g" and "\<forall>s \<in> set (api_sequences g). writable g s"
    and "\<forall>f \<in> set (api_functions g). pretty_print f \<noteq> None"
  shows "\<exists>fh seqs line. FileHelper_new order g strategy max_size max_len = Some fh \<and>
    set seqs \<subseteq> set (api_sequences g) \<and> map (print_sequence g) seqs = map Some (map line seqs) \<and>
    sorted_wrt (<) (map line seqs) \<and>
    length (test_files fh) = min 300 (length seqs) \<and> length (test_files fh) \<le> max_size + 1 \<and>
    map Some (test_files fh) = map (\<lambda>(i, s). to_afl_test_file order g s i) (enumerate 0 (take 300 seqs)) \<and>
    map Some (reproduce_files fh) =
      map (\<lambda>(i, s). to_replay_crash_file order g s i) (enumerate 0 (take 300 seqs))"
  by (rule file_helper_result [OF assms])

lemma one_sequence_graph_facts:
  "graph_wf one_sequence_graph" "\<forall>s \<in> set (api_sequences one_sequence_graph). writable one_sequence_graph s"
  "\<forall>f \<in> set (api_functions one_sequence_graph). pretty_print f \<noteq> None"
proof -
  have same: "same_crate crate_graph_edges one_sequence_graph" by (simp add: one_sequence_graph_def)
  show "graph_wf one_sequence_graph" by (rule one_sequence_graph_wf)
  show "\<forall>s \<in> set (api_sequences one_sequence_graph). writable one_sequence_graph s"
  proof -
    have "list_all readable (fuzzable_params new_then_len)" by (simp add: new_then_len_def)
    then show ?thesis unfolding writable_def same_seq_safe [OF same]
      by (simp add: one_sequence_graph_def new_then_len_safe new_then_len_names)
  qed
  show "\<forall>f \<in> set (api_functions one_sequence_graph). pretty_print f \<noteq> None"
    by (simp add: one_sequence_graph_def crate_graph_edges_def crate_graph_def api_def pretty_print_def widget_def)
qed

lemma file_helper_correct_witness:
  "\<exists>fh. FileHelper_new [OptionHelper, ResultHelper] one_sequence_graph A_Fudge 10 2 = Some fh \<and>
    length (test_files fh) \<le> 11"
  using file_helper_correct [OF one_sequence_graph_facts, of "[OptionHelper, ResultHelper]" A_Fudge 10 2] by auto

section \<open>Writing the files\<close>

lemma number_value_zeros: "number_value (replicate n CHR 0x30 @ s) = number_value s"
proof (induction n)
  case (Suc n)
  have "digit_value CHR 0x30 = Some 0" by (simp add: digit_value_def)
  with Suc show ?case by (simp add: number_value_def)
qed simp

lemma file_name_inj: "file_name pre crate i = file_name pre crate j \<longleftrightarrow> i = j"
proof
  assume "file_name pre crate i = file_name pre crate j"
  then have "number_value (padded_index i) = number_value (padded_index j)" by (simp add: file_name_def)
  then show "i = j" by (simp add: padded_index_def number_value_zeros)
qed simp

text \<open>The directory \<open>p\<close> with exactly the given files in it.\<close>

definition dir_with :: "path \<Rightarrow> (string \<times> string) list \<Rightarrow> file_system \<Rightarrow> bool" where
  "dir_with p files fs \<longleftrightarrow> is_dir fs p \<and>
     (\<forall>q. q \<noteq> [] \<longrightarrow> fs (p @ q) = (case q of [name] \<Rightarrow> map_option File_Node (map_of files name) | _ \<Rightarrow> None))"

lemma ensure_empty_dir_result:
  assumes "\<forall>q. strict_prefix q p \<longrightarrow> \<not> is_file fs q" and "p \<noteq> []"
    and "fs p = None \<or> is_file fs p \<Longrightarrow> \<forall>q. q \<noteq> [] \<longrightarrow> fs (p @ q) = None"
  shows "\<exists>fs'. ensure_empty_dir p fs = Some fs' \<and> dir_with p [] fs' \<and>
    (\<forall>q. \<not> prefix p q \<and> \<not> prefix q p \<longrightarrow> fs' q = fs q) \<and>
    (\<forall>q. prefix q p \<and> q \<noteq> [] \<longrightarrow> is_dir fs' q) \<and> fs' [] = fs []"
proof -
  let ?fs1 = "if is_file fs p then fs(p := None) else fs"
  let ?fs2 = "if is_dir ?fs1 p then remove_dir_all ?fs1 p else ?fs1"
  have gone: "?fs2 (p @ q) = None" for q
  proof (cases "is_dir fs p")
    case True
    then show ?thesis by (simp add: is_file_def is_dir_def remove_dir_all_def)
  next
    case False
    then have "fs p = None \<or> is_file fs p"
      by (auto simp: is_dir_def is_file_def split: option.splits node.splits)
    with assms(3) False show ?thesis
      by (cases "q = []") (auto simp: is_file_def is_dir_def split: option.splits node.splits)
  qed
  have rest: "?fs2 q = fs q" if "\<not> prefix p q" for q
    using that by (auto simp: remove_dir_all_def)
  have nofile: "\<not> is_file ?fs2 q" if "prefix q p" for q
  proof (cases "q = p")
    case True
    with gone [of "[]"] show ?thesis by (simp add: is_file_def)
  next
    case False
    with that assms(1) have "\<not> is_file fs q" "\<not> prefix p q"
      by (auto simp: strict_prefix_def dest: prefix_order.antisym)
    with rest [of q] show ?thesis by (simp add: is_file_def)
  qed
  let ?fs' = "\<lambda>q. if prefix q p \<and> q \<noteq> [] then Some Dir_Node else ?fs2 q"
  have "ensure_empty_dir p fs = Some ?fs'"
    using nofile by (simp add: ensure_empty_dir_def create_dir_all_def Let_def list_ex_iff)
  moreover have "dir_with p [] ?fs'"
    unfolding dir_with_def using gone assms(2) by (auto simp: is_dir_def split: list.splits)
  moreover have "?fs' [] = fs []" using rest [of "[]"] assms(2) by simp
  ultimately show ?thesis
    using rest by (intro exI [of _ ?fs']) (auto simp: is_dir_def)
qed

definition named_files :: "string \<Rightarrow> string \<Rightarrow> nat \<Rightarrow> string list \<Rightarrow> (string \<times> string) list" where
  "named_files pre crate n contents = map (\<lambda>(i, content). (file_name pre crate i, content)) (enumerate n contents)"

lemma write_file_result:
  assumes "dir_with p files fs" and "name \<notin> fst ` set files"
  shows "write_file fs (p @ [name]) content = Some (fs(p @ [name] \<mapsto> File_Node content))"
    and "dir_with p (files @ [(name, content)]) (fs(p @ [name] \<mapsto> File_Node content))"
proof -
  have new: "map_of files name = None" using assms(2) by (simp add: map_of_eq_None_iff)
  have "fs (p @ [name]) = None" using assms(1) new by (simp add: dir_with_def)
  then show "write_file fs (p @ [name]) content = Some (fs(p @ [name] \<mapsto> File_Node content))"
    using assms(1) by (simp add: write_file_def is_dir_def dir_with_def)
  show "dir_with p (files @ [(name, content)]) (fs(p @ [name] \<mapsto> File_Node content))"
    unfolding dir_with_def
  proof (intro conjI allI impI)
    show "is_dir (fs(p @ [name] \<mapsto> File_Node content)) p" using assms(1) by (simp add: dir_with_def is_dir_def)
    fix q :: path assume "q \<noteq> []"
    with assms(1) new show "(fs(p @ [name] \<mapsto> File_Node content)) (p @ q) =
        (case q of [n] \<Rightarrow> map_option File_Node (map_of (files @ [(name, content)]) n) | _ \<Rightarrow> None)"
      by (auto simp: dir_with_def map_add_def split: list.splits option.splits)
  qed
qed

lemma write_to_files_loop:
  assumes "dir_with p files fs" and "fst ` set files \<subseteq> file_name pre crate ` {..<n}"
  shows "\<exists>fs'. fold_m (\<lambda>(i, content) fs. write_file fs (p @ [file_name pre crate i]) content)
      (enumerate n contents) fs = Some fs' \<and>
    dir_with p (files @ named_files pre crate n contents) fs' \<and> (\<forall>q. \<not> strict_prefix p q \<longrightarrow> fs' q = fs q)"
  using assms
proof (induction contents arbitrary: n files fs)
  case (Cons c contents)
  let ?name = "file_name pre crate n" let ?fs = "fs(p @ [?name] \<mapsto> File_Node c)"
  have new: "?name \<notin> fst ` set files" using Cons.prems(2) by (auto simp: file_name_inj)
  have "fst ` set (files @ [(?name, c)]) \<subseteq> file_name pre crate ` {..<Suc n}"
    using Cons.prems(2) by (auto simp: lessThan_Suc)
  with Cons.IH [OF write_file_result(2) [OF Cons.prems(1) new]] obtain fs'
    where "fold_m (\<lambda>(i, content) fs. write_file fs (p @ [file_name pre crate i]) content)
        (enumerate (Suc n) contents) ?fs = Some fs'"
      "dir_with p ((files @ [(?name, c)]) @ named_files pre crate (Suc n) contents) fs'"
      "\<forall>q. \<not> strict_prefix p q \<longrightarrow> fs' q = ?fs q" by blast
  then show ?case
    by (intro exI [of _ fs']) (auto simp: write_file_result(1) [OF Cons.prems(1) new] named_files_def strict_prefix_def)
qed (simp add: named_files_def)

lemma write_to_files_result:
  assumes "dir_with p [] fs"
  shows "\<exists>fs'. write_to_files crate p contents pre fs = Some fs' \<and>
    dir_with p (named_files pre crate 0 contents) fs' \<and> (\<forall>q. \<not> strict_prefix p q \<longrightarrow> fs' q = fs q)"
  using write_to_files_loop [OF assms, of pre crate 0 contents] by (simp add: write_to_files_def)

lemma dir_with_unchanged:
  assumes "dir_with p files fs" and "\<And>q. fs' (p @ q) = fs (p @ q)"
  shows "dir_with p files fs'"
  using assms(1) assms(2) [of "[]"] by (simp add: dir_with_def is_dir_def assms(2))

text \<open>A node that is not at the top is in a directory.\<close>

definition tree :: "file_system \<Rightarrow> bool" where
  "tree fs \<longleftrightarrow> (\<forall>q r. q \<noteq> [] \<longrightarrow> r \<noteq> [] \<longrightarrow> fs (q @ r) \<noteq> None \<longrightarrow> is_dir fs q)"

lemma sibling_prefix:
  assumes "a \<noteq> b"
  shows "\<not> prefix (p @ [a]) (p @ b # q)" "\<not> prefix (p @ b # q) (p @ [a])"
  using assms by (auto simp: prefix_def append_eq_append_conv2 Cons_eq_append_conv)

lemma make_both_dirs:
  assumes "tree fs" and "\<forall>q. strict_prefix q p \<longrightarrow> \<not> is_file fs q" and "\<not> is_file fs p"
    and "a \<noteq> b"
  shows "\<exists>fs1 fs2. ensure_empty_dir (p @ [a]) fs = Some fs1 \<and> ensure_empty_dir (p @ [b]) fs1 = Some fs2 \<and>
    dir_with (p @ [a]) [] fs2 \<and> dir_with (p @ [b]) [] fs2 \<and>
    (\<forall>q. \<not> prefix (p @ [a]) q \<and> \<not> prefix (p @ [b]) q \<and> \<not> prefix q p \<longrightarrow> fs2 q = fs q)"
proof -
  have top: "\<not> is_file fs q" if "prefix q p" for q
    using that assms(2,3) by (cases "q = p") (auto simp: strict_prefix_def)
  have below: "\<forall>q. q \<noteq> [] \<longrightarrow> fs ((p @ [c]) @ q) = None" if "fs (p @ [c]) = None \<or> is_file fs (p @ [c])" for c
  proof (intro allI impI, rule ccontr)
    fix q :: path assume "q \<noteq> []" "fs ((p @ [c]) @ q) \<noteq> None"
    with assms(1) have "is_dir fs (p @ [c])" unfolding tree_def by blast
    with that show False by (simp add: is_dir_def is_file_def)
  qed
  have above: "\<forall>q. strict_prefix q (p @ [a]) \<longrightarrow> \<not> is_file fs q"
    using top by (auto simp: strict_prefix_def prefix_snoc)
  obtain fs1 where fs1: "ensure_empty_dir (p @ [a]) fs = Some fs1" "dir_with (p @ [a]) [] fs1"
      "\<forall>q. \<not> prefix (p @ [a]) q \<and> \<not> prefix q (p @ [a]) \<longrightarrow> fs1 q = fs q"
      "\<forall>q. prefix q (p @ [a]) \<and> q \<noteq> [] \<longrightarrow> is_dir fs1 q" "fs1 [] = fs []"
    using ensure_empty_dir_result [of "p @ [a]" fs, OF above _ below] by blast
  have same: "fs1 ((p @ [b]) @ q) = fs ((p @ [b]) @ q)" for q
    using fs1(3) sibling_prefix [OF assms(4), of p q] by simp
  have "\<not> is_file fs1 q" if "strict_prefix q (p @ [b])" for q
  proof (cases "q = []")
    case True
    with fs1(5) top [of "[]"] show ?thesis by (simp add: is_file_def)
  next
    case False
    from that have "prefix q (p @ [a])" by (auto simp: strict_prefix_def prefix_snoc)
    with False fs1(4) have "is_dir fs1 q" by blast
    then show ?thesis by (simp add: is_file_def is_dir_def)
  qed
  moreover have "\<forall>q. q \<noteq> [] \<longrightarrow> fs1 ((p @ [b]) @ q) = None" if "fs1 (p @ [b]) = None \<or> is_file fs1 (p @ [b])"
  proof -
    from that same [of "[]"] have "fs (p @ [b]) = None \<or> is_file fs (p @ [b])" by (simp add: is_file_def)
    from below [OF this] show ?thesis by (simp only: same)
  qed
  ultimately obtain fs2 where fs2: "ensure_empty_dir (p @ [b]) fs1 = Some fs2" "dir_with (p @ [b]) [] fs2"
      "\<forall>q. \<not> prefix (p @ [b]) q \<and> \<not> prefix q (p @ [b]) \<longrightarrow> fs2 q = fs1 q"
    using ensure_empty_dir_result [of "p @ [b]" fs1] by auto
  have "fs2 ((p @ [a]) @ q) = fs1 ((p @ [a]) @ q)" for q
    using fs2(3) sibling_prefix [OF assms(4) [symmetric], of p q] by simp
  with fs1(2) have "dir_with (p @ [a]) [] fs2" by (rule dir_with_unchanged)
  moreover have "fs2 q = fs q" if "\<not> prefix (p @ [a]) q" "\<not> prefix (p @ [b]) q" "\<not> prefix q p" for q
    using that fs1(3) fs2(3) by (auto simp: prefix_snoc)
  ultimately show ?thesis using fs1(1) fs2(1,2) by blast
qed

lemma write_files_result:
  assumes "tree fs" and "\<forall>q. strict_prefix q (path_of (test_dir fh)) \<longrightarrow> \<not> is_file fs q"
  shows "\<exists>fs'. write_files fh fs = Some fs' \<and>
    dir_with (path_of (test_dir fh) @ [''afl_files'']) (named_files ''test'' (fh_crate_name fh) 0 (test_files fh)) fs' \<and>
    dir_with (path_of (test_dir fh) @ [''replay_files''])
      (named_files ''replay'' (fh_crate_name fh) 0 (reproduce_files fh)) fs' \<and>
    (\<forall>q. \<not> prefix (path_of (test_dir fh) @ [''afl_files'']) q \<and>
       \<not> prefix (path_of (test_dir fh) @ [''replay_files'']) q \<and> \<not> prefix q (path_of (test_dir fh)) \<longrightarrow> fs' q = fs q)"
proof -
  let ?p = "path_of (test_dir fh)" let ?a = "?p @ [''afl_files'']" and ?b = "?p @ [''replay_files'']"
  let ?fs0 = "if is_file fs ?p then fs(?p := None) else fs"
  have "tree ?fs0"
    unfolding tree_def
  proof (intro allI impI)
    fix q r :: path assume "q \<noteq> []" "r \<noteq> []" and there: "?fs0 (q @ r) \<noteq> None"
    moreover from there have "fs (q @ r) \<noteq> None" by (simp split: if_splits)
    ultimately have "is_dir fs q" using assms(1) unfolding tree_def by blast
    then show "is_dir ?fs0 q" by (auto simp: is_dir_def is_file_def)
  qed
  moreover have "\<forall>q. strict_prefix q ?p \<longrightarrow> \<not> is_file ?fs0 q" "\<not> is_file ?fs0 ?p"
    using assms(2) by (auto simp: is_file_def)
  ultimately obtain fs1 fs2 where dirs: "ensure_empty_dir ?a ?fs0 = Some fs1" "ensure_empty_dir ?b fs1 = Some fs2"
      "dir_with ?a [] fs2" "dir_with ?b [] fs2"
      "\<forall>q. \<not> prefix ?a q \<and> \<not> prefix ?b q \<and> \<not> prefix q ?p \<longrightarrow> fs2 q = ?fs0 q"
    using make_both_dirs [of ?fs0 ?p "''afl_files''" "''replay_files''"] by auto
  from write_to_files_result [OF dirs(3), of "fh_crate_name fh" "test_files fh" "''test''"] obtain fs3
    where fs3: "write_to_files (fh_crate_name fh) ?a (test_files fh) ''test'' fs2 = Some fs3"
      "dir_with ?a (named_files ''test'' (fh_crate_name fh) 0 (test_files fh)) fs3"
      "\<forall>q. \<not> strict_prefix ?a q \<longrightarrow> fs3 q = fs2 q" by blast
  have "fs3 (?b @ q) = fs2 (?b @ q)" for q
    using fs3(3) sibling_prefix(1) [of "''afl_files''" "''replay_files''" ?p q] by (simp add: strict_prefix_def)
  with dirs(4) have "dir_with ?b [] fs3" by (rule dir_with_unchanged)
  from write_to_files_result [OF this, of "fh_crate_name fh" "reproduce_files fh" "''replay''"] obtain fs4
    where fs4: "write_to_files (fh_crate_name fh) ?b (reproduce_files fh) ''replay'' fs3 = Some fs4"
      "dir_with ?b (named_files ''replay'' (fh_crate_name fh) 0 (reproduce_files fh)) fs4"
      "\<forall>q. \<not> strict_prefix ?b q \<longrightarrow> fs4 q = fs3 q" by blast
  have "fs4 (?a @ q) = fs3 (?a @ q)" for q
    using fs4(3) sibling_prefix(1) [of "''replay_files''" "''afl_files''" ?p q] by (simp add: strict_prefix_def)
  with fs3(2) have "dir_with ?a (named_files ''test'' (fh_crate_name fh) 0 (test_files fh)) fs4"
    by (rule dir_with_unchanged)
  moreover have "fs4 q = fs q" if "\<not> prefix ?a q" "\<not> prefix ?b q" "\<not> prefix q ?p" for q
    using that dirs(5) fs3(3) fs4(3) by (auto simp: strict_prefix_def)
  moreover have "write_files fh fs = Some fs4"
    unfolding write_files_def Let_def using dirs(1,2) fs3(1) fs4(1) by simp
  ultimately show ?thesis using fs4(2) by blast
qed

text \<open>C21. Writing the files: unless a file is in the way above the test directory, \<open>write_files\<close> returns
  and leaves in \<open>afl_files\<close> and in \<open>replay_files\<close> exactly the generated files under pairwise different
  names, whatever was there before, and changes nothing outside.\<close>

theorem write_files_correct:
  assumes "tree fs" and "\<forall>q. strict_prefix q (path_of (test_dir fh)) \<longrightarrow> \<not> is_file fs q"
  shows "\<exists>fs'. write_files fh fs = Some fs' \<and>
    dir_with (path_of (test_dir fh) @ [''afl_files'']) (named_files ''test'' (fh_crate_name fh) 0 (test_files fh)) fs' \<and>
    dir_with (path_of (test_dir fh) @ [''replay_files''])
      (named_files ''replay'' (fh_crate_name fh) 0 (reproduce_files fh)) fs' \<and>
    (\<forall>q. \<not> prefix (path_of (test_dir fh) @ [''afl_files'']) q \<and>
       \<not> prefix (path_of (test_dir fh) @ [''replay_files'']) q \<and> \<not> prefix q (path_of (test_dir fh)) \<longrightarrow> fs' q = fs q)"
  by (rule write_files_result [OF assms])

lemma write_files_correct_witness:
  "\<exists>fs'. write_files \<lparr>fh_crate_name = ''url'', test_dir = '''', test_files = [''t''], reproduce_files = [''r'']\<rparr>
      (Map.empty([''afl_files''] \<mapsto> Dir_Node, [''afl_files'', ''old''] \<mapsto> File_Node ''x'')) = Some fs' \<and>
    dir_with [''afl_files''] [(''test_url00000.rs'', ''t'')] fs'"
proof -
  have "tree (Map.empty([''afl_files''] \<mapsto> Dir_Node, [''afl_files'', ''old''] \<mapsto> File_Node ''x''))"
    by (auto simp: tree_def is_dir_def append_eq_Cons_conv split: if_splits)
  moreover have "path_of '''' = []" by (simp add: path_of_def str_split_def starts_with_def)
  moreover have four: "replicate 4 c = [c, c, c, c]" for c :: char by (simp add: numeral_eq_Suc)
  have zero: "string_of_nat 0 = ''0''" by code_simp
  have "file_name ''test'' ''url'' 0 = ''test_url00000.rs''"
    by (simp add: file_name_def padded_index_def zero four)
  ultimately show ?thesis
    using write_files_correct [of "Map.empty([''afl_files''] \<mapsto> Dir_Node, [''afl_files'', ''old''] \<mapsto> File_Node ''x'')"
      "\<lparr>fh_crate_name = ''url'', test_dir = '''', test_files = [''t''], reproduce_files = [''r'']\<rparr>"]
    by (simp add: named_files_def) blast
qed

end
