(* ===== verification/Clean_Items.thy ===== *)
theory Clean_Items
  imports Api_Graph
begin

text \<open>
  The items of rustdoc's cleaned crate (\<open>clean/types.rs\<close>) as far as the generator visits them:
  modules, functions and methods. An item carries what the compiler answers about it, its visibility
  and the unsafety of its signature; every other kind of item is kept by its \<open>ItemType\<close> only
  (\<open>formats/item_type.rs\<close>), under the name that \<open>ItemType::as_str\<close> gives it.
\<close>

record FnDecl =
  decl_inputs :: "Argument list"
  decl_output :: FnRetTy

record Function =
  fn_decl :: FnDecl
  fn_generics :: "GenericParamDef list"

datatype ItemKind =
    FunctionItem Function
  | ModuleItem "Item list"
  | TyMethodItem Function
  | MethodItem Function
  | ForeignFunctionItem Function
  | StrippedItem ItemKind
  | OtherItem ItemType
and Item = MkItem (item_name: "Symbol option") (item_visibility: "Visibility option")
    (item_unsafety: ApiUnsafety) (item_kind: ItemKind)

text \<open>\<open>ItemType::from\<close>: one layer of \<open>StrippedItem\<close> is looked through, a second one is unreachable.\<close>

fun kind_type :: "ItemKind \<Rightarrow> ItemType run" where
  "kind_type (ModuleItem _) = Some ''mod''"
| "kind_type (FunctionItem _) = Some ''fn''"
| "kind_type (TyMethodItem _) = Some ''tymethod''"
| "kind_type (MethodItem _) = Some ''method''"
| "kind_type (ForeignFunctionItem _) = Some ''fn''"
| "kind_type (OtherItem t) = Some t"
| "kind_type (StrippedItem _) = None"

definition item_type :: "Item \<Rightarrow> ItemType run" where
  "item_type it = (case item_kind it of StrippedItem k \<Rightarrow> kind_type k | k \<Rightarrow> kind_type k)"

definition is_mod :: "Item \<Rightarrow> bool run" where
  "is_mod it = do { t \<leftarrow> item_type it; Some (t = ''mod'') }"

text \<open>\<open>fn_header\<close>, of which the generator reads the unsafety.\<close>

definition fn_header :: "Item \<Rightarrow> ApiUnsafety option" where
  "fn_header it = (case item_kind it of
     ForeignFunctionItem _ \<Rightarrow> Some (item_unsafety it)
   | FunctionItem _ \<Rightarrow> Some (item_unsafety it)
   | MethodItem _ \<Rightarrow> Some (item_unsafety it)
   | TyMethodItem _ \<Rightarrow> Some (item_unsafety it)
   | _ \<Rightarrow> None)"

text \<open>\<open>Visibility::expect_local\<close> panics on a definition of another crate; the local crate has number 0.\<close>

definition expect_local :: "Visibility \<Rightarrow> Visibility run" where
  "expect_local v = (case v of
     Public \<Rightarrow> Some Public
   | Restricted d \<Rightarrow> if fst d = 0 then Some v else None)"

lemma expect_local_Some: "expect_local v = Some w \<Longrightarrow> w = v"
  by (auto simp: expect_local_def split: Visibility.splits if_splits)

end
