(* ===== verification/Impl_Util.thy ===== *)
theory Impl_Util
  imports Clean_Items
begin

text \<open>
  \<open>impl_util.rs\<close>: the methods of the crate. rustdoc's cache lists the impl blocks of every type; the
  methods of the types with a known full name become functions of the graph, with \<open>Self\<close> replaced by
  the type of the block. Hash maps of the cache are lists of their entries, in the order in which the
  source happens to iterate over them.
\<close>

section \<open>The impl blocks of the crate\<close>

record Impl =
  impl_trait :: "Path option"
  impl_for :: Type
  impl_items :: "Item list"

record CrateImplCollection =
  impl_types :: "Impl list"
  impl_trait_for_types :: "Impl list"
  generic_impl :: "Impl list"
  generic_impl_for_traits :: "Impl list"

definition CrateImplCollection_new :: CrateImplCollection where
  "CrateImplCollection_new = \<lparr>impl_types = [], impl_trait_for_types = [], generic_impl = [],
     generic_impl_for_traits = []\<rparr>"

definition add_impl :: "CrateImplCollection \<Rightarrow> Impl \<Rightarrow> CrateImplCollection" where
  "add_impl coll i = (case impl_trait i of
     None \<Rightarrow> coll\<lparr>impl_types := impl_types coll @ [i]\<rparr>
   | Some _ \<Rightarrow> coll\<lparr>impl_trait_for_types := impl_trait_for_types coll @ [i]\<rparr>)"

text \<open>The other fields of \<open>Cache\<close> that the generator reads.\<close>

record CrateCache = Cache +
  cache_paths :: "(DefId \<times> Symbol list \<times> ItemType) list"
  cache_external_paths :: "(DefId \<times> Symbol list \<times> ItemType) list"
  cache_impls :: "(DefId \<times> Impl list) list"

definition full_path :: "Symbol list \<Rightarrow> string" where
  "full_path paths = (case paths of
     [] \<Rightarrow> []
   | path # rest \<Rightarrow> fold (\<lambda>current_path full. full @ ''::'' @ current_path) rest path)"

section \<open>Replacing Self\<close>

fun is_param_self_type :: "Type \<Rightarrow> bool" where
  "is_param_self_type (T_BorrowedRef l mu t) = is_param_self_type t"
| "is_param_self_type (T_Path (MkPath r segs)) =
     list_ex (\<lambda>s. case s of MkPathSegment _ ga \<Rightarrow>
       (case ga of
          AngleBracketed args _ \<Rightarrow> list_ex (\<lambda>a. case a of GA_Type t \<Rightarrow> is_param_self_type t | _ \<Rightarrow> False) args
        | Parenthesized ins out \<Rightarrow>
            list_ex is_param_self_type ins \<or>
            (case out of None \<Rightarrow> False | Some t \<Rightarrow> is_param_self_type t))) segs"
| "is_param_self_type t = is_self_type t"

fun replace_self_type :: "Type \<Rightarrow> Type \<Rightarrow> Type" where
  "replace_self_type (T_BorrowedRef l mu t) impl_type =
     (if is_param_self_type t then T_BorrowedRef l mu (replace_self_type t impl_type)
      else T_BorrowedRef l mu t)"
| "replace_self_type (T_Path (MkPath r segs)) impl_type =
     (if \<not> is_param_self_type (T_Path (MkPath r segs)) then T_Path (MkPath r segs)
      else T_Path (MkPath r (map (\<lambda>s. case s of MkPathSegment n ga \<Rightarrow> MkPathSegment n
       (case ga of
          AngleBracketed args bindings \<Rightarrow>
            AngleBracketed (map (\<lambda>a. case a of
                GA_Type t \<Rightarrow> if is_param_self_type t then GA_Type (replace_self_type t impl_type) else a
              | _ \<Rightarrow> a) args) bindings
        | Parenthesized ins out \<Rightarrow>
            Parenthesized
              (map (\<lambda>t. if is_param_self_type t then replace_self_type t impl_type else t) ins)
              (case out of None \<Rightarrow> None
               | Some t \<Rightarrow> Some (if is_param_self_type t then replace_self_type t impl_type else t)))) segs)))"
| "replace_self_type t impl_type = (if is_self_type t then impl_type else t)"

section \<open>The methods of an impl block\<close>

text \<open>The name of the type, when it has one; the same for the trait.\<close>

definition trait_full_name :: "FullNameMap \<Rightarrow> Impl \<Rightarrow> string option run" where
  "trait_full_name m i = (case impl_trait i of
     None \<Rightarrow> Some None
   | Some p \<Rightarrow> do { d \<leftarrow> path_def_id p; Some (get_full_name m d) })"

definition type_full_name :: "Cache \<Rightarrow> FullNameMap \<Rightarrow> Impl \<Rightarrow> string option run" where
  "type_full_name c m i =
     do { od \<leftarrow> type_def_id c (impl_for i);
          Some (case od of None \<Rightarrow> None | Some d \<Rightarrow> get_full_name m d) }"

text \<open>The signature with \<open>Self\<close> replaced, and whether a parameter mentions \<open>Self\<close>.\<close>

definition replaced :: "Type \<Rightarrow> Type \<Rightarrow> Type" where
  "replaced impl_type t = (if is_param_self_type t then replace_self_type t impl_type else t)"

text \<open>One method. \<open>None\<close> is the \<open>return\<close> that leaves the whole block: the type or the trait is not of the
  crate.\<close>

definition method_type_name :: "string option \<Rightarrow> string option \<Rightarrow> bool \<Rightarrow> string option" where
  "method_type_name trait_name ty_name contains_self_type =
     (if contains_self_type then (case trait_name of Some n \<Rightarrow> Some n | None \<Rightarrow> ty_name) else ty_name)"

definition analyse_method ::
  "string option \<Rightarrow> string option \<Rightarrow> Impl \<Rightarrow> Item \<Rightarrow> Function \<Rightarrow> ApiFunction option run" where
  "analyse_method trait_name ty_name i it f =
     (let ins = extract_input_types (decl_inputs (fn_decl f));
          out = extract_output_type (decl_output (fn_decl f));
          contains_self_type = list_ex is_param_self_type ins
      in case method_type_name trait_name ty_name contains_self_type of
           None \<Rightarrow> Some None
         | Some owner \<Rightarrow>
             do { n \<leftarrow> item_name it;
                  api_unsafety \<leftarrow> fn_header it;
                  vis \<leftarrow> (case item_visibility it of Some v \<Rightarrow> expect_local v | None \<Rightarrow> Some Public);
                  Some (if impl_trait i \<noteq> None \<and> trait_name = None then None
                    else Some \<lparr>full_name = owner @ ''::'' @ n, generics = fn_generics f,
                      generic_substitutions = Map.empty, inputs = map (replaced (impl_for i)) ins,
                      output_type = map_option (replaced (impl_for i)) out,
                      trait_full_path = trait_name, unsafe_tag = api_unsafety, visibility = vis\<rparr>) })"

fun analyse_items ::
  "string option \<Rightarrow> string option \<Rightarrow> Impl \<Rightarrow> Item list \<Rightarrow> ApiGraph \<Rightarrow> ApiGraph run" where
  "analyse_items trait_name ty_name i [] g = Some g"
| "analyse_items trait_name ty_name i (it # items) g =
     (case item_kind it of
        MethodItem f \<Rightarrow>
          do { r \<leftarrow> analyse_method trait_name ty_name i it f;
               case r of
                 None \<Rightarrow> Some g
               | Some api_function \<Rightarrow>
                   do { g' \<leftarrow> add_api_function g api_function; analyse_items trait_name ty_name i items g' } }
      | _ \<Rightarrow> analyse_items trait_name ty_name i items g)"

definition analyse_impl :: "Cache \<Rightarrow> FullNameMap \<Rightarrow> Impl \<Rightarrow> ApiGraph \<Rightarrow> ApiGraph run" where
  "analyse_impl c m i g =
     do { trait_name \<leftarrow> trait_full_name m i;
          ty_name \<leftarrow> type_full_name c m i;
          analyse_items trait_name ty_name i (impl_items i) g }"

section \<open>All impl blocks\<close>

definition crate_names :: "CrateCache \<Rightarrow> FullNameMap \<Rightarrow> FullNameMap" where
  "crate_names c m =
     (let m1 = fold (\<lambda>(d, path, ty) m. push_mapping m d (full_path path) ty) (cache_paths c) m
      in fold (\<lambda>(d, path, ty) m. if is_preluded_type (full_path path)
                then push_mapping m d (full_path path) ty else m) (cache_external_paths c) m1)"

definition collect_impls :: "CrateCache \<Rightarrow> FullNameMap \<Rightarrow> CrateImplCollection" where
  "collect_impls c m =
     fold (\<lambda>(d, is) coll. if get_full_name m d \<noteq> None then fold (\<lambda>i coll. add_impl coll i) is coll else coll)
       (cache_impls c) CrateImplCollection_new"

definition extract_impls_from_cache ::
  "CrateCache \<Rightarrow> FullNameMap \<Rightarrow> ApiGraph \<Rightarrow> (FullNameMap \<times> ApiGraph) run" where
  "extract_impls_from_cache c m0 g =
     do { let m = crate_names c m0;
          let g0 = set_full_name_map g m;
          let coll = collect_impls c m;
          g1 \<leftarrow> fold_m (analyse_impl (Cache.truncate c) m) (impl_types coll) g0;
          g2 \<leftarrow> fold_m (analyse_impl (Cache.truncate c) m) (impl_trait_for_types coll) g1;
          Some (m, g2) }"

section \<open>Replacing Self is a substitution\<close>

text \<open>The specification: \<open>Self\<close> is replaced below references and in the arguments of paths.\<close>

fun subst_self :: "Type \<Rightarrow> Type \<Rightarrow> Type" where
  "subst_self u (T_BorrowedRef l mu t) = T_BorrowedRef l mu (subst_self u t)"
| "subst_self u (T_Path (MkPath r segs)) =
     T_Path (MkPath r (map (\<lambda>s. case s of MkPathSegment n ga \<Rightarrow> MkPathSegment n
       (case ga of
          AngleBracketed args bindings \<Rightarrow>
            AngleBracketed (map (\<lambda>a. case a of GA_Type t \<Rightarrow> GA_Type (subst_self u t) | _ \<Rightarrow> a) args) bindings
        | Parenthesized ins out \<Rightarrow>
            Parenthesized (map (subst_self u) ins) (case out of None \<Rightarrow> None | Some t \<Rightarrow> Some (subst_self u t)))) segs))"
| "subst_self u t = (if t = T_Generic ''Self'' then u else t)"

text \<open>The types in a segment of a path, and the segment with a function applied to them.\<close>

fun garg_types :: "GenericArg \<Rightarrow> Type set" where
  "garg_types (GA_Type t) = {t}"
| "garg_types _ = {}"

fun seg_types :: "PathSegment \<Rightarrow> Type set" where
  "seg_types (MkPathSegment n (AngleBracketed args b)) = (\<Union>a \<in> set args. garg_types a)"
| "seg_types (MkPathSegment n (Parenthesized ins out)) = set ins \<union> set_option out"

fun map_arg :: "(Type \<Rightarrow> Type) \<Rightarrow> GenericArg \<Rightarrow> GenericArg" where
  "map_arg f (GA_Type t) = GA_Type (f t)"
| "map_arg f a = a"

fun map_seg :: "(Type \<Rightarrow> Type) \<Rightarrow> PathSegment \<Rightarrow> PathSegment" where
  "map_seg f (MkPathSegment n (AngleBracketed args b)) = MkPathSegment n (AngleBracketed (map (map_arg f) args) b)"
| "map_seg f (MkPathSegment n (Parenthesized ins out)) = MkPathSegment n (Parenthesized (map f ins) (map_option f out))"

lemma garg_types_map [simp]: "garg_types (map_arg f a) = f ` garg_types a"
  by (cases a) auto

lemma seg_types_map [simp]: "seg_types (map_seg f s) = f ` seg_types s"
  by (cases "(f, s)" rule: map_seg.cases) (auto simp: image_UN option.set_map)

lemma map_arg_cong: "(\<And>t. t \<in> garg_types a \<Longrightarrow> f t = g t) \<Longrightarrow> map_arg f a = map_arg g a"
  by (cases a) auto

lemma map_seg_cong: "(\<And>t. t \<in> seg_types s \<Longrightarrow> f t = g t) \<Longrightarrow> map_seg f s = map_seg g s"
  by (cases "(f, s)" rule: map_seg.cases) (auto intro!: map_arg_cong option.map_cong)

lemma map_seg_idI:
  assumes "\<And>t. t \<in> seg_types s \<Longrightarrow> f t = t" shows "map_seg f s = s"
proof -
  have "map_arg (\<lambda>t. t) a = a" for a by (cases a) auto
  then have "map_seg (\<lambda>t. t) s = s"
    by (cases "(f, s)" rule: map_seg.cases) (auto simp: map_idI option.map_ident)
  with map_seg_cong [of s f "\<lambda>t. t"] assms show ?thesis by simp
qed

lemma subst_self_path: "subst_self u (T_Path (MkPath r segs)) = T_Path (MkPath r (map (map_seg (subst_self u)) segs))"
proof -
  have arg: "(case a of GA_Type t \<Rightarrow> GA_Type (subst_self u t) | _ \<Rightarrow> a) = map_arg (subst_self u) a" for a
    by (cases a) auto
  have "(case s of MkPathSegment n ga \<Rightarrow> MkPathSegment n
       (case ga of
          AngleBracketed args bindings \<Rightarrow>
            AngleBracketed (map (\<lambda>a. case a of GA_Type t \<Rightarrow> GA_Type (subst_self u t) | _ \<Rightarrow> a) args) bindings
        | Parenthesized ins out \<Rightarrow>
            Parenthesized (map (subst_self u) ins) (case out of None \<Rightarrow> None | Some t \<Rightarrow> Some (subst_self u t)))) =
     map_seg (subst_self u) s" for s
    unfolding arg by (cases "(subst_self u, s)" rule: map_seg.cases) (auto split: option.splits)
  then show ?thesis by simp
qed

lemma self_in_path:
  "is_param_self_type (T_Path (MkPath r segs)) \<longleftrightarrow> (\<exists>s \<in> set segs. \<exists>t \<in> seg_types s. is_param_self_type t)"
proof -
  have arg: "(case a of GA_Type t \<Rightarrow> is_param_self_type t | _ \<Rightarrow> False) \<longleftrightarrow> (\<exists>t \<in> garg_types a. is_param_self_type t)" for a
    by (cases a) auto
  have "(case s of MkPathSegment _ ga \<Rightarrow>
       (case ga of
          AngleBracketed args _ \<Rightarrow> list_ex (\<lambda>a. case a of GA_Type t \<Rightarrow> is_param_self_type t | _ \<Rightarrow> False) args
        | Parenthesized ins out \<Rightarrow> list_ex is_param_self_type ins \<or>
            (case out of None \<Rightarrow> False | Some t \<Rightarrow> is_param_self_type t))) \<longleftrightarrow>
      (\<exists>t \<in> seg_types s. is_param_self_type t)" for s
    unfolding arg by (cases s rule: seg_types.cases) (auto simp: list_ex_iff split: option.splits)
  note seg = this
  show ?thesis unfolding is_param_self_type.simps seg by (simp add: list_ex_iff)
qed

fun no_infer :: "PathSegment \<Rightarrow> bool" where
  "no_infer (MkPathSegment n (AngleBracketed args b)) = (GA_Infer \<notin> set args)"
| "no_infer (MkPathSegment n (Parenthesized ins out)) = True"

lemma resolved_path:
  "resolved (T_Path (MkPath r segs)) \<longleftrightarrow>
   opt_def_id r \<noteq> None \<and> (\<forall>s \<in> set segs. no_infer s \<and> (\<forall>t \<in> seg_types s. resolved t))"
proof -
  have arg: "(case a of GA_Type t \<Rightarrow> resolved t | GA_Infer \<Rightarrow> False | _ \<Rightarrow> True) \<longleftrightarrow>
      a \<noteq> GA_Infer \<and> (\<forall>t \<in> garg_types a. resolved t)" for a
    by (cases a) auto
  have "(case s of MkPathSegment _ ga \<Rightarrow>
        (case ga of
           AngleBracketed args _ \<Rightarrow> list_all (\<lambda>a. case a of GA_Type t \<Rightarrow> resolved t
             | GA_Infer \<Rightarrow> False | _ \<Rightarrow> True) args
         | Parenthesized ins out \<Rightarrow>
             list_all resolved ins \<and> (case out of None \<Rightarrow> True | Some t \<Rightarrow> resolved t))) \<longleftrightarrow>
      no_infer s \<and> (\<forall>t \<in> seg_types s. resolved t)" for s
    unfolding arg by (cases s rule: seg_types.cases) (auto simp: list_all_iff split: option.splits)
  note seg = this
  show ?thesis unfolding resolved.simps seg by (simp add: list_all_iff)
qed

lemma no_infer_map [simp]: "no_infer (map_seg f s) = no_infer s"
proof -
  have "GA_Infer = map_arg f a \<longleftrightarrow> a = GA_Infer" for a by (cases a) auto
  then show ?thesis by (cases "(f, s)" rule: map_seg.cases) (auto simp: image_iff)
qed

lemmas path_simps = subst_self_path self_in_path resolved_path

lemma self_induct [case_names Ref Path Other]:
  assumes "\<And>l mu t. P t \<Longrightarrow> P (T_BorrowedRef l mu t)"
    and "\<And>r segs. (\<And>s t. s \<in> set segs \<Longrightarrow> t \<in> seg_types s \<Longrightarrow> P t) \<Longrightarrow> P (T_Path (MkPath r segs))"
    and "\<And>t. (\<And>u. subst_self u t = (if t = T_Generic ''Self'' then u else t)) \<Longrightarrow>
           (\<And>u. replace_self_type t u = (if t = T_Generic ''Self'' then u else t)) \<Longrightarrow>
           is_param_self_type t = (t = T_Generic ''Self'') \<Longrightarrow> P t"
  shows "P t"
proof (induction T_Infer t rule: subst_self.induct)
  case (2 r segs)
  note ih = 2
  have "P t" if "s \<in> set segs" "t \<in> seg_types s" for s t
  proof (cases s rule: seg_types.cases)
    case (1 n args b)
    with that(2) obtain a where "a \<in> set args" "t \<in> garg_types a" by auto
    moreover from this(2) have "a = GA_Type t" by (cases a) auto
    ultimately show ?thesis using ih(1) that(1) 1 by blast
  next
    case (2 n ins out)
    with that(2) consider "t \<in> set ins" | "out = Some t" by auto
    then show ?thesis by cases (rule ih(2) [OF that(1) 2 refl], assumption, rule ih(3) [OF that(1) 2 refl], assumption)
  qed
  then show ?case by (rule assms(2))
qed (auto intro: assms simp: is_self_type_def)

lemma subst_self_id: "\<not> is_param_self_type t \<Longrightarrow> subst_self u t = t"
proof (induction t rule: self_induct)
  case (Path r segs)
  then have "map_seg (subst_self u) s = s" if "s \<in> set segs" for s
    using that unfolding self_in_path by (intro map_seg_idI) blast
  then show ?case unfolding subst_self_path by (simp add: map_idI)
qed auto

lemma subst_self_gone: "\<not> is_param_self_type u \<Longrightarrow> \<not> is_param_self_type (subst_self u t)"
proof (induction t rule: self_induct)
  case (Path r segs)
  then show ?case unfolding subst_self_path self_in_path by auto
qed auto

lemma subst_self_resolved: "resolved u \<Longrightarrow> resolved t \<Longrightarrow> resolved (subst_self u t)"
proof (induction t rule: self_induct)
  case (Path r segs)
  then show ?case unfolding subst_self_path resolved_path by auto
qed auto

lemma replace_self_path:
  assumes "is_param_self_type (T_Path (MkPath r segs))"
  shows "replace_self_type (T_Path (MkPath r segs)) u = T_Path (MkPath r (map (map_seg (replaced u)) segs))"
proof -
  have arg: "(case a of GA_Type t \<Rightarrow> if is_param_self_type t then GA_Type (replace_self_type t u) else a | _ \<Rightarrow> a) =
      map_arg (replaced u) a" for a
    by (cases a) (auto simp: replaced_def)
  have par: "(\<lambda>t. if is_param_self_type t then replace_self_type t u else t) = replaced u"
    by (simp add: replaced_def fun_eq_iff)
  have "(case s of MkPathSegment n ga \<Rightarrow> MkPathSegment n
       (case ga of
          AngleBracketed args bindings \<Rightarrow> AngleBracketed (map (map_arg (replaced u)) args) bindings
        | Parenthesized ins out \<Rightarrow> Parenthesized (map (replaced u) ins)
              (case out of None \<Rightarrow> None
               | Some t \<Rightarrow> Some (if is_param_self_type t then replace_self_type t u else t)))) =
     map_seg (replaced u) s" for s
    by (cases "(u, s)" rule: prod.exhaust, cases s rule: seg_types.cases) (auto simp: replaced_def split: option.splits)
  note seg = this
  show ?thesis using assms unfolding replace_self_type.simps(2) arg par seg by simp
qed

lemma replaced_subst: "replaced u t = subst_self u t"
proof (induction t rule: self_induct)
  case (Path r segs)
  show ?case
  proof (cases "is_param_self_type (T_Path (MkPath r segs))")
    case True
    have "map_seg (replaced u) s = map_seg (subst_self u) s" if "s \<in> set segs" for s
      by (rule map_seg_cong) (rule Path [OF that])
    then have "replace_self_type (T_Path (MkPath r segs)) u = subst_self u (T_Path (MkPath r segs))"
      unfolding replace_self_path [OF True] subst_self_path by simp
    with True show ?thesis by (simp only: replaced_def if_True)
  next
    case False
    then show ?thesis unfolding replaced_def subst_self_id [OF False] by simp
  qed
qed (auto simp: replaced_def subst_self_id)

text \<open>\<open>Self\<close> anywhere in a type, as far as the types are modelled (bounds of traits, bare functions and
  bindings of paths are opaque).\<close>

inductive mentions_self :: "Type \<Rightarrow> bool" where
  here: "mentions_self (T_Generic ''Self'')"
| in_ref: "mentions_self t \<Longrightarrow> mentions_self (T_BorrowedRef l mu t)"
| in_path: "s \<in> set segs \<Longrightarrow> t \<in> seg_types s \<Longrightarrow> mentions_self t \<Longrightarrow> mentions_self (T_Path (MkPath r segs))"
| in_tuple: "t \<in> set ts \<Longrightarrow> mentions_self t \<Longrightarrow> mentions_self (T_Tuple ts)"
| in_slice: "mentions_self t \<Longrightarrow> mentions_self (T_Slice t)"
| in_array: "mentions_self t \<Longrightarrow> mentions_self (T_Array t n)"
| in_pointer: "mentions_self t \<Longrightarrow> mentions_self (T_RawPointer mu t)"
| in_qpath: "mentions_self t \<Longrightarrow> mentions_self (T_QPath t q)"

text \<open>\<open>Self\<close> in a place that the source does not look into: a tuple, slice, array, raw pointer or qualified
  path, itself possibly below references and path arguments.\<close>

inductive hidden_self :: "Type \<Rightarrow> bool" where
  below_ref: "hidden_self t \<Longrightarrow> hidden_self (T_BorrowedRef l mu t)"
| below_path: "s \<in> set segs \<Longrightarrow> t \<in> seg_types s \<Longrightarrow> hidden_self t \<Longrightarrow> hidden_self (T_Path (MkPath r segs))"
| tuple: "t \<in> set ts \<Longrightarrow> mentions_self t \<Longrightarrow> hidden_self (T_Tuple ts)"
| slice: "mentions_self t \<Longrightarrow> hidden_self (T_Slice t)"
| array: "mentions_self t \<Longrightarrow> hidden_self (T_Array t n)"
| pointer: "mentions_self t \<Longrightarrow> hidden_self (T_RawPointer mu t)"
| qpath: "mentions_self t \<Longrightarrow> hidden_self (T_QPath t q)"

inductive_simps mentions_self_simps [simp]:
  "mentions_self (T_Generic x)" "mentions_self (T_BorrowedRef l mu t)" "mentions_self (T_Path (MkPath r segs))"
  "mentions_self (T_Tuple ts)" "mentions_self (T_Slice t)" "mentions_self (T_Primitive p)"

inductive_simps hidden_self_simps [simp]:
  "hidden_self (T_Generic x)" "hidden_self (T_BorrowedRef l mu t)" "hidden_self (T_Path (MkPath r segs))"
  "hidden_self (T_Tuple ts)" "hidden_self (T_Slice t)"

lemma hidden_mentions: "hidden_self t \<Longrightarrow> mentions_self t"
  by (induction rule: hidden_self.induct) (auto intro: mentions_self.intros)

lemma found_mentions: "is_param_self_type t \<Longrightarrow> mentions_self t"
proof (induction t rule: self_induct)
  case (Path r segs)
  then show ?case unfolding self_in_path by auto
qed (auto intro: mentions_self.intros)

lemma mentions_found_or_hidden: "mentions_self t \<Longrightarrow> is_param_self_type t \<or> hidden_self t"
proof (induction rule: mentions_self.induct)
  case (in_path s segs t r)
  then show ?case unfolding self_in_path by auto
qed (auto simp: is_self_type_def intro: hidden_self.intros)

lemma mentions_self_iff: "mentions_self t \<longleftrightarrow> is_param_self_type t \<or> hidden_self t"
  using hidden_mentions found_mentions mentions_found_or_hidden by blast

lemma mentions_subst_self:
  "mentions_self (subst_self u t) \<longleftrightarrow> hidden_self t \<or> is_param_self_type t \<and> mentions_self u"
proof (induction t rule: self_induct)
  case (Path r segs)
  then show ?case unfolding subst_self_path self_in_path mentions_self_simps hidden_self_simps by auto
next
  case (Other t)
  then show ?case by (cases "t = T_Generic ''Self''") (simp_all add: mentions_self_iff [of t])
qed simp

section \<open>Adding functions to the graph\<close>

definition accepted :: "ApiGraph \<Rightarrow> ApiFunction \<Rightarrow> bool" where
  "accepted g f \<longleftrightarrow> contains_unsupported_fuzzable_type (graph_cache g) (full_name_map g) f = Some False"

text \<open>The graph \<open>g'\<close> is \<open>g\<close> with those of the functions \<open>fs\<close> that are accepted.\<close>

definition grown :: "ApiGraph \<Rightarrow> ApiFunction list \<Rightarrow> ApiGraph \<Rightarrow> bool" where
  "grown g fs g' \<longleftrightarrow> (\<exists>U. g' = g\<lparr>api_functions := api_functions g @ map with_i32_substitutions (filter (accepted g) fs),
     functions_with_unsupported_fuzzable_types := U\<rparr>)"

lemma grown_refl [simp]: "grown g [] g"
  by (auto simp: grown_def intro: exI [of _ "functions_with_unsupported_fuzzable_types g"])

lemma grown_fields:
  assumes "grown g fs g'"
  shows "api_functions g' = api_functions g @ map with_i32_substitutions (filter (accepted g) fs)"
    "graph_cache g' = graph_cache g" "full_name_map g' = full_name_map g" "mod_visibility g' = mod_visibility g"
    "api_sequences g' = api_sequences g" "api_dependencies g' = api_dependencies g" "crate_name g' = crate_name g"
  using assms by (auto simp: grown_def)

lemma grown_trans:
  assumes "grown g fs g1" and "grown g1 fs' g2"
  shows "grown g (fs @ fs') g2"
proof -
  have "accepted g1 = accepted g"
    using grown_fields(2,3) [OF assms(1)] by (simp add: accepted_def fun_eq_iff)
  with assms show ?thesis unfolding grown_def by fastforce
qed

lemma add_api_function_grown:
  assumes "resolved_function f"
  shows "\<exists>g'. add_api_function g f = Some g' \<and> grown g [f] g'"
proof -
  have "contains_unsupported_fuzzable_type (graph_cache g) (full_name_map g) f \<noteq> None"
    using assms by (rule contains_unsupported_no_panic)
  then obtain b where b: "contains_unsupported_fuzzable_type (graph_cache g) (full_name_map g) f = Some b" by blast
  show ?thesis
  proof (cases b)
    case True
    with b show ?thesis by (auto simp: add_api_function_def grown_def accepted_def)
  next
    case False
    with b show ?thesis
      by (auto simp: add_api_function_def grown_def accepted_def
          intro!: exI [of _ "functions_with_unsupported_fuzzable_types g"])
  qed
qed

lemma add_functions_grown:
  assumes "list_all resolved_function fs"
  shows "\<exists>g'. fold_m (\<lambda>f g. add_api_function g f) fs g = Some g' \<and> grown g fs g'"
  using assms
proof (induction fs arbitrary: g)
  case (Cons f fs)
  then obtain g1 where g1: "add_api_function g f = Some g1" "grown g [f] g1"
    using add_api_function_grown [of f g] by auto
  with Cons obtain g2 where "fold_m (\<lambda>f g. add_api_function g f) fs g1 = Some g2" "grown g1 fs g2" by fastforce
  with g1 grown_trans [OF g1(2)] show ?case by fastforce
qed simp

section \<open>The functions of an impl block\<close>

text \<open>The function that a method becomes, under the name \<open>owner::name\<close>.\<close>

definition method_function :: "string option \<Rightarrow> string \<Rightarrow> Impl \<Rightarrow> Item \<Rightarrow> Function \<Rightarrow> ApiFunction" where
  "method_function trait_name owner i it f = \<lparr>full_name = owner @ ''::'' @ the (item_name it), generics = fn_generics f,
     generic_substitutions = Map.empty, inputs = map (subst_self (impl_for i)) (map arg_type (decl_inputs (fn_decl f))),
     output_type = map_option (subst_self (impl_for i)) (extract_output_type (decl_output (fn_decl f))),
     trait_full_path = trait_name, unsafe_tag = item_unsafety it,
     visibility = (case item_visibility it of Some v \<Rightarrow> v | None \<Rightarrow> Public)\<rparr>"

definition method_result ::
  "string option \<Rightarrow> string option \<Rightarrow> Impl \<Rightarrow> Item \<Rightarrow> Function \<Rightarrow> ApiFunction option" where
  "method_result trait_name ty_name i it f =
     (if impl_trait i \<noteq> None \<and> trait_name = None then None
      else map_option (\<lambda>owner. method_function trait_name owner i it f)
        (method_type_name trait_name ty_name
          (list_ex is_param_self_type (map arg_type (decl_inputs (fn_decl f))))))"

fun methods :: "Item list \<Rightarrow> (Item \<times> Function) list" where
  "methods [] = []"
| "methods (it # items) = (case item_kind it of MethodItem f \<Rightarrow> [(it, f)] | _ \<Rightarrow> []) @ methods items"

definition block_functions :: "string option \<Rightarrow> string option \<Rightarrow> Impl \<Rightarrow> ApiFunction list" where
  "block_functions trait_name ty_name i =
     map the (takeWhile (\<lambda>r. r \<noteq> None) (map (\<lambda>(it, f). method_result trait_name ty_name i it f) (methods (impl_items i))))"

definition method_ok :: "Item \<times> Function \<Rightarrow> bool" where
  "method_ok m = (case m of (it, f) \<Rightarrow> item_kind it = MethodItem f \<and> item_name it \<noteq> None \<and>
     (case item_visibility it of Some v \<Rightarrow> expect_local v \<noteq> None | None \<Rightarrow> True) \<and>
     list_all (\<lambda>a. resolved (arg_type a)) (decl_inputs (fn_decl f)) \<and>
     (case decl_output (fn_decl f) of Return t \<Rightarrow> resolved t | DefaultReturn \<Rightarrow> True))"

definition impl_ok :: "Cache \<Rightarrow> Impl \<Rightarrow> bool" where
  "impl_ok c i \<longleftrightarrow> resolved (impl_for i) \<and> type_def_id c (impl_for i) \<noteq> None \<and>
     (case impl_trait i of None \<Rightarrow> True | Some p \<Rightarrow> path_def_id p \<noteq> None) \<and> list_all method_ok (methods (impl_items i))"

lemma analyse_method_result:
  assumes "method_ok (it, f)" and "impl_trait i = None \<longrightarrow> trait_name = None"
  shows "analyse_method trait_name ty_name i it f = Some (method_result trait_name ty_name i it f)"
proof -
  let ?self = "list_ex is_param_self_type (map arg_type (decl_inputs (fn_decl f)))"
  obtain n where n: "item_name it = Some n" using assms(1) by (auto simp: method_ok_def)
  have h: "fn_header it = Some (item_unsafety it)" using assms(1) by (simp add: method_ok_def fn_header_def)
  have v: "(case item_visibility it of Some v \<Rightarrow> expect_local v | None \<Rightarrow> Some Public) =
      Some (case item_visibility it of Some v \<Rightarrow> v | None \<Rightarrow> Public)"
    using assms(1) by (auto simp: method_ok_def dest: expect_local_Some split: option.splits)
  have sub: "replaced (impl_for i) = subst_self (impl_for i)" by (simp add: fun_eq_iff replaced_subst)
  show ?thesis
  proof (cases "method_type_name trait_name ty_name ?self")
    case None
    then show ?thesis by (simp add: analyse_method_def method_result_def extract_input_types_def)
  next
    case (Some owner)
    show ?thesis
      unfolding analyse_method_def method_result_def method_function_def extract_input_types_def Let_def sub h v n Some
      by simp
  qed
qed

lemma analyse_items_methods:
  assumes "list_all method_ok (methods items)" and "impl_trait i = None \<longrightarrow> trait_name = None"
  shows "analyse_items trait_name ty_name i items g = fold_m (\<lambda>f g. add_api_function g f)
    (map the (takeWhile (\<lambda>r. r \<noteq> None) (map (\<lambda>(it, f). method_result trait_name ty_name i it f) (methods items)))) g"
  using assms(1)
proof (induction items arbitrary: g)
  case (Cons it items)
  show ?case
  proof (cases "\<exists>f. item_kind it = MethodItem f")
    case True
    then obtain f where f: "item_kind it = MethodItem f" by blast
    with Cons.prems have "method_ok (it, f)" by simp
    note res = analyse_method_result [OF this assms(2), of ty_name]
    show ?thesis
    proof (cases "method_result trait_name ty_name i it f")
      case None
      with f res show ?thesis by simp
    next
      case (Some api)
      have "(\<lambda>g. analyse_items trait_name ty_name i items g) = fold_m (\<lambda>f g. add_api_function g f)
          (map the (takeWhile (\<lambda>r. r \<noteq> None)
            (map (\<lambda>(it, f). method_result trait_name ty_name i it f) (methods items))))"
        using Cons by (auto simp: f)
      with Some f res show ?thesis by simp
    qed
  next
    case False
    with Cons show ?thesis by (cases "item_kind it") auto
  qed
qed simp

lemma names_return:
  assumes "impl_ok c i"
  obtains trait_name ty_name where "trait_full_name m i = Some trait_name" "type_full_name c m i = Some ty_name"
    "impl_trait i = None \<longrightarrow> trait_name = None"
  using assms by (auto simp: impl_ok_def trait_full_name_def type_full_name_def split: option.splits)

lemma known_type_functions:
  "block_functions trait_name (Some ty_name) i =
   (if impl_trait i \<noteq> None \<and> trait_name = None then []
    else map (\<lambda>(it, f). method_function trait_name
        (if list_ex (\<lambda>a. is_param_self_type (arg_type a)) (decl_inputs (fn_decl f))
         then (case trait_name of Some n \<Rightarrow> n | None \<Rightarrow> ty_name) else ty_name) i it f) (methods (impl_items i)))"
proof (cases "impl_trait i \<noteq> None \<and> trait_name = None")
  case True
  then show ?thesis
    by (cases "methods (impl_items i)") (auto simp: block_functions_def method_result_def)
next
  case False
  let ?fn = "\<lambda>(it, f). method_function trait_name
        (if list_ex (\<lambda>a. is_param_self_type (arg_type a)) (decl_inputs (fn_decl f))
         then (case trait_name of Some n \<Rightarrow> n | None \<Rightarrow> ty_name) else ty_name) i it f"
  have "(\<lambda>(it, f). method_result trait_name (Some ty_name) i it f) = (\<lambda>x. Some (?fn x))"
    using False by (auto simp: method_result_def method_type_name_def list_ex_iff fun_eq_iff split: option.splits)
  moreover have "takeWhile (\<lambda>r. r \<noteq> None) (map (\<lambda>x. Some (?fn x)) xs) = map (\<lambda>x. Some (?fn x)) xs" for xs
    by (simp add: takeWhile_eq_all_conv)
  ultimately have "block_functions trait_name (Some ty_name) i = map the (map (\<lambda>x. Some (?fn x)) (methods (impl_items i)))"
    unfolding block_functions_def by (simp only:)
  then have "block_functions trait_name (Some ty_name) i = map ?fn (methods (impl_items i))"
    by (simp add: comp_def)
  with False show ?thesis by auto
qed

lemma block_functions_origin:
  assumes "api \<in> set (block_functions trait_name ty_name i)"
  obtains it f owner where "(it, f) \<in> set (methods (impl_items i))" "api = method_function trait_name owner i it f"
proof -
  from assms obtain it f where m: "(it, f) \<in> set (methods (impl_items i))"
      "method_result trait_name ty_name i it f = Some api"
    by (auto simp: block_functions_def dest!: set_takeWhileD)
  then show thesis using that by (auto simp: method_result_def split: if_splits)
qed

lemma block_functions_resolved:
  assumes "impl_ok c i"
  shows "list_all resolved_function (block_functions trait_name ty_name i)"
proof -
  have "resolved_function (method_function trait_name owner i it f)" if "(it, f) \<in> set (methods (impl_items i))" for owner it f
  proof -
    have "method_ok (it, f)" "resolved (impl_for i)" using assms that by (auto simp: impl_ok_def list_all_iff)
    then show ?thesis
      by (auto simp: resolved_function_def method_function_def method_ok_def extract_output_type_def list_all_iff
          intro: subst_self_resolved split: FnRetTy.splits option.splits)
  qed
  then show ?thesis unfolding list_all_iff by (metis block_functions_origin)
qed

lemma analyse_impl_functions:
  assumes "impl_ok c i" and "trait_full_name m i = Some trait_name" and "type_full_name c m i = Some ty_name"
  shows "analyse_impl c m i g = fold_m (\<lambda>f g. add_api_function g f) (block_functions trait_name ty_name i) g"
proof -
  have "impl_trait i = None \<longrightarrow> trait_name = None" using assms(2) by (auto simp: trait_full_name_def)
  moreover have "list_all method_ok (methods (impl_items i))" using assms(1) by (simp add: impl_ok_def)
  ultimately show ?thesis
    using analyse_items_methods [of "impl_items i" i trait_name ty_name g] assms(2,3)
    by (simp add: analyse_impl_def block_functions_def)
qed

section \<open>All impl blocks of the crate\<close>

lemma fold_collects_impls:
  "impl_types (fold (\<lambda>i coll. add_impl coll i) is coll) = impl_types coll @ filter (\<lambda>i. impl_trait i = None) is"
  "impl_trait_for_types (fold (\<lambda>i coll. add_impl coll i) is coll) =
     impl_trait_for_types coll @ filter (\<lambda>i. impl_trait i \<noteq> None) is"
  by (induction "is" arbitrary: coll) (auto simp: add_impl_def split: option.splits)

definition known_impls :: "CrateCache \<Rightarrow> FullNameMap \<Rightarrow> Impl list" where
  "known_impls c m = concat (map snd (filter (\<lambda>(d, _). get_full_name m d \<noteq> None) (cache_impls c)))"

lemma collect_impls_known:
  "impl_types (collect_impls c m) = filter (\<lambda>i. impl_trait i = None) (known_impls c m)"
  "impl_trait_for_types (collect_impls c m) = filter (\<lambda>i. impl_trait i \<noteq> None) (known_impls c m)"
proof -
  let ?step = "\<lambda>(d, is) coll. if get_full_name m d \<noteq> None then fold (\<lambda>i coll. add_impl coll i) is coll else coll"
  have "impl_types (fold ?step ds coll) = impl_types coll @
      filter (\<lambda>i. impl_trait i = None) (concat (map snd (filter (\<lambda>(d, _). get_full_name m d \<noteq> None) ds))) \<and>
    impl_trait_for_types (fold ?step ds coll) = impl_trait_for_types coll @
      filter (\<lambda>i. impl_trait i \<noteq> None) (concat (map snd (filter (\<lambda>(d, _). get_full_name m d \<noteq> None) ds)))" for ds coll
    by (induction ds arbitrary: coll) (auto simp: fold_collects_impls)
  from this [of "cache_impls c" CrateImplCollection_new] show
    "impl_types (collect_impls c m) = filter (\<lambda>i. impl_trait i = None) (known_impls c m)"
    "impl_trait_for_types (collect_impls c m) = filter (\<lambda>i. impl_trait i \<noteq> None) (known_impls c m)"
    by (auto simp: collect_impls_def known_impls_def CrateImplCollection_new_def)
qed

text \<open>The functions of a list of blocks.\<close>

definition impl_functions :: "Cache \<Rightarrow> FullNameMap \<Rightarrow> Impl \<Rightarrow> ApiFunction list" where
  "impl_functions c m i = block_functions (the (trait_full_name m i)) (the (type_full_name c m i)) i"

lemma analyse_impls_grown:
  assumes "\<forall>i \<in> set is. impl_ok c i"
  shows "\<exists>g'. fold_m (analyse_impl c m) is g = Some g' \<and> grown g (concat (map (impl_functions c m) is)) g'"
  using assms
proof (induction "is" arbitrary: g)
  case (Cons i "is")
  then have ok: "impl_ok c i" by simp
  then obtain trn tyn where names: "trait_full_name m i = Some trn" "type_full_name c m i = Some tyn"
    by (rule names_return)
  obtain g1 where g1: "analyse_impl c m i g = Some g1" "grown g (impl_functions c m i) g1"
    using add_functions_grown [OF block_functions_resolved [OF ok], of trn tyn g]
    by (auto simp: analyse_impl_functions [OF ok names] impl_functions_def names)
  with Cons.IH [of g1] Cons.prems grown_trans [OF g1(2)] show ?case by fastforce
qed simp

definition crate_cache_ok :: "CrateCache \<Rightarrow> bool" where
  "crate_cache_ok c \<longleftrightarrow> (\<forall>(d, is) \<in> set (cache_impls c). \<forall>i \<in> set is. impl_ok (Cache.truncate c) i)"

definition crate_methods :: "CrateCache \<Rightarrow> FullNameMap \<Rightarrow> ApiFunction list" where
  "crate_methods c m = concat (map (impl_functions (Cache.truncate c) m)
     (filter (\<lambda>i. impl_trait i = None) (known_impls c m) @ filter (\<lambda>i. impl_trait i \<noteq> None) (known_impls c m)))"

lemma extract_impls_result:
  assumes "crate_cache_ok c"
  shows "\<exists>g'. extract_impls_from_cache c m g = Some (crate_names c m, g') \<and>
    grown (set_full_name_map g (crate_names c m)) (crate_methods c (crate_names c m)) g'"
proof -
  let ?m = "crate_names c m" and ?g = "set_full_name_map g (crate_names c m)"
  have ok: "\<forall>i \<in> set (known_impls c ?m). impl_ok (Cache.truncate c) i"
    using assms by (auto simp: crate_cache_ok_def known_impls_def)
  obtain g1 where g1: "fold_m (analyse_impl (Cache.truncate c) ?m) (impl_types (collect_impls c ?m)) ?g = Some g1"
      "grown ?g (concat (map (impl_functions (Cache.truncate c) ?m) (filter (\<lambda>i. impl_trait i = None) (known_impls c ?m)))) g1"
    using analyse_impls_grown [of "filter (\<lambda>i. impl_trait i = None) (known_impls c ?m)"] ok
    by (fastforce simp: collect_impls_known)
  obtain g2 where g2: "fold_m (analyse_impl (Cache.truncate c) ?m) (impl_trait_for_types (collect_impls c ?m)) g1 = Some g2"
      "grown g1 (concat (map (impl_functions (Cache.truncate c) ?m) (filter (\<lambda>i. impl_trait i \<noteq> None) (known_impls c ?m)))) g2"
    using analyse_impls_grown [of "filter (\<lambda>i. impl_trait i \<noteq> None) (known_impls c ?m)"] ok
    by (fastforce simp: collect_impls_known)
  show ?thesis
    using g1(1) g2(1) grown_trans [OF g1(2) g2(2)]
    by (simp add: extract_impls_from_cache_def crate_methods_def Let_def)
qed

section \<open>The properties\<close>

lemma replace_self_subst: "replace_self_type t u = subst_self u t"
proof (cases "is_param_self_type t")
  case True
  then show ?thesis using replaced_subst [of u t] by (simp only: replaced_def if_True)
next
  case False
  then show ?thesis
  proof (induction t rule: self_induct)
    case (Path r segs)
    then show ?case unfolding subst_self_id [OF Path(2)] by simp
  qed (auto simp: subst_self_id)
qed

text \<open>C18. Replacing \<open>Self\<close>: \<open>replace_self_type\<close> with its tests on every level is the substitution of
  \<open>Self\<close> below references and in path arguments, which are the places where \<open>is_param_self_type\<close> finds
  it; a resolved type stays one. A \<open>Self\<close> in a tuple, slice, array, raw pointer or qualified path
  (\<open>hidden_self\<close>) is neither found nor replaced: after the replacement \<open>Self\<close> still occurs exactly when
  the type has such a place, or \<open>Self\<close> was replaced by a type that mentions it. So when the type of the
  impl block does not mention \<open>Self\<close>, the result is free of \<open>Self\<close> exactly if there was no hidden one.\<close>

theorem replace_self_correct:
  assumes "\<not> is_param_self_type u" and "resolved u" and "resolved t"
  shows "replace_self_type t u = subst_self u t \<and> \<not> is_param_self_type (replace_self_type t u) \<and>
    resolved (replace_self_type t u) \<and>
    (mentions_self t \<longleftrightarrow> is_param_self_type t \<or> hidden_self t) \<and>
    (mentions_self (replace_self_type t u) \<longleftrightarrow> hidden_self t \<or> is_param_self_type t \<and> mentions_self u)"
  using subst_self_gone [OF assms(1)] subst_self_resolved [OF assms(2,3)] mentions_self_iff [of t]
    mentions_subst_self [of u t]
  by (simp only: replace_self_subst simp_thms)

text \<open>A reference to \<open>Self\<close> is replaced, and a slice of \<open>Self\<close> is left as it is.\<close>

lemma replace_self_correct_witness:
  "\<not> mentions_self (replace_self_type (T_BorrowedRef None Mut (T_Generic ''Self'')) (T_Primitive P_U8)) \<and>
   mentions_self (replace_self_type (T_BorrowedRef None Not (T_Slice (T_Generic ''Self''))) (T_Primitive P_U8))"
  using replace_self_correct [of "T_Primitive P_U8" "T_BorrowedRef None Mut (T_Generic ''Self'')"]
    replace_self_correct [of "T_Primitive P_U8" "T_BorrowedRef None Not (T_Slice (T_Generic ''Self''))"]
  by (simp add: is_self_type_def)

text \<open>C16. The methods of an impl block on a type with a known name: every method becomes a function
  \<open>owner::name\<close> with \<open>Self\<close> substituted, where the owner is the trait when a parameter mentions \<open>Self\<close> and
  there is a trait, and the type otherwise; a block for a trait without a known name gives nothing.\<close>

theorem analyse_impl_exact:
  assumes "impl_ok c i" and "trait_full_name m i = Some trait_name" and "type_full_name c m i = Some (Some ty_name)"
  shows "analyse_impl c m i g = fold_m (\<lambda>f g. add_api_function g f)
    (if impl_trait i \<noteq> None \<and> trait_name = None then []
     else map (\<lambda>(it, f). method_function trait_name
        (if list_ex (\<lambda>a. is_param_self_type (arg_type a)) (decl_inputs (fn_decl f))
         then (case trait_name of Some n \<Rightarrow> n | None \<Rightarrow> ty_name) else ty_name) i it f) (methods (impl_items i))) g"
  unfolding analyse_impl_functions [OF assms] known_type_functions ..

definition widget_impl :: Impl where
  "widget_impl = \<lparr>impl_trait = None,
     impl_for = T_Path (MkPath (Res_Def ''Struct'' (0, 9)) [MkPathSegment ''Widget'' (AngleBracketed [] [])]),
     impl_items =
       [MkItem (Some ''new'') (Some Public) Normal (MethodItem
          \<lparr>fn_decl = \<lparr>decl_inputs = [\<lparr>arg_type = T_Primitive P_U32, arg_name = ''n'', arg_is_const = False\<rparr>],
             decl_output = Return (T_Generic ''Self'')\<rparr>, fn_generics = []\<rparr>),
        MkItem (Some ''len'') (Some Public) Normal (MethodItem
          \<lparr>fn_decl = \<lparr>decl_inputs = [\<lparr>arg_type = T_BorrowedRef None Not (T_Generic ''Self''), arg_name = ''self'',
               arg_is_const = False\<rparr>], decl_output = Return (T_Primitive P_Usize)\<rparr>, fn_generics = []\<rparr>)]\<rparr>"

definition widget_names :: FullNameMap where
  "widget_names = \<lparr>full_names = [(0, 9) \<mapsto> (''krate::Widget'', ''struct'')]\<rparr>"

lemma widget_impl_facts:
  "impl_ok c widget_impl" "trait_full_name m widget_impl = Some None"
  "type_full_name c widget_names widget_impl = Some (Some ''krate::Widget'')"
  by (simp_all add: widget_impl_def impl_ok_def method_ok_def expect_local_def trait_full_name_def type_full_name_def
      path_def_id_def res_def_id_def get_full_name_def widget_names_def)

lemma analyse_impl_exact_witness:
  "analyse_impl \<lparr>primitive_locations = Map.empty\<rparr> widget_names widget_impl (ApiGraph_new ''krate'' \<lparr>primitive_locations = Map.empty\<rparr>) =
   fold_m (\<lambda>f g. add_api_function g f)
    (map (\<lambda>(it, f). method_function None ''krate::Widget'' widget_impl it f) (methods (impl_items widget_impl)))
    (ApiGraph_new ''krate'' \<lparr>primitive_locations = Map.empty\<rparr>)"
  using analyse_impl_exact [OF widget_impl_facts] by (simp add: widget_impl_def split_def)

end
