(* ===== verification/Crate_Context.thy ===== *)
theory Crate_Context
  imports Impl_Util
begin

text \<open>
  \<open>context.rs\<close>, the walk over the crate: the public functions outside impl blocks are found by recursion
  over the modules, and every module is recorded with its visibility. The path of the current module
  is the list of names from the crate root; the field \<open>dst\<close>, which only mirrors it, is left out.
\<close>

lemma fold_m_cong [fundef_cong]:
  "xs = ys \<Longrightarrow> s = t \<Longrightarrow> (\<And>x s. x \<in> set ys \<Longrightarrow> f x s = g x s) \<Longrightarrow> fold_m f xs s = fold_m g ys t"
  by (induction ys arbitrary: xs s t) (auto split: bind_splits)

definition join_with_double_colon :: "Symbol list \<Rightarrow> string run" where
  "join_with_double_colon syms =
     do { s0 \<leftarrow> index_m syms 0; Some (fold (\<lambda>sym s. s @ ''::'' @ sym) (tl syms) s0) }"

definition context_full_path :: "Symbol list \<Rightarrow> Item \<Rightarrow> string run" where
  "context_full_path current it =
     do { s \<leftarrow> join_with_double_colon current; n \<leftarrow> item_name it; Some (s @ ''::'' @ n) }"

text \<open>The function that an item becomes.\<close>

definition bare_function :: "string \<Rightarrow> Item \<Rightarrow> Function \<Rightarrow> ApiFunction run" where
  "bare_function n it f =
     do { api_unsafety \<leftarrow> fn_header it;
          v \<leftarrow> item_visibility it;
          vis \<leftarrow> expect_local v;
          Some \<lparr>full_name = n, generics = fn_generics f, generic_substitutions = Map.empty,
            inputs = extract_input_types (decl_inputs (fn_decl f)),
            output_type = extract_output_type (decl_output (fn_decl f)),
            trait_full_path = None, unsafe_tag = api_unsafety, visibility = vis\<rparr> }"

text \<open>The items of a module; every other kind is unreachable where this is used.\<close>

fun module_items :: "ItemKind \<Rightarrow> Item list run" where
  "module_items (StrippedItem (ModuleItem items)) = Some items"
| "module_items (ModuleItem items) = Some items"
| "module_items _ = None"

lemma module_items_size:
  assumes "module_items (item_kind it) = Some items" and "x \<in> set items"
  shows "size x < size it"
proof -
  have "size x < size (ModuleItem items)"
    using assms(2) by (simp add: size_list_estimation less_Suc_eq_le size_list_estimation')
  moreover have "size (ModuleItem items) < size it"
    using assms(1) by (cases it, cases "item_kind it" rule: module_items.cases) auto
  ultimately show ?thesis by simp
qed

function add_bare_functions_into_api_graph_util :: "Symbol list \<Rightarrow> Item \<Rightarrow> ApiGraph \<Rightarrow> ApiGraph run" where
  "add_bare_functions_into_api_graph_util current it g =
     do { is_module \<leftarrow> is_mod it;
          if is_module then
            do { name \<leftarrow> item_name it;
                 if name = [] then None
                 else
                   do { let current' = current @ [name];
                        v \<leftarrow> item_visibility it;
                        vis \<leftarrow> expect_local v;
                        let g' = add_mod_visibility g (str_join ''::'' current') vis;
                        items \<leftarrow> module_items (item_kind it);
                        fold_m (add_bare_functions_into_api_graph_util current') items g' } }
          else if item_name it \<noteq> None then
            do { ty \<leftarrow> item_type it;
                 if ty = ''fn'' then
                   do { n \<leftarrow> context_full_path current it;
                        case item_kind it of
                          FunctionItem f \<Rightarrow> do { api_fun \<leftarrow> bare_function n it f; add_api_function g api_fun }
                        | _ \<Rightarrow> Some g }
                 else Some g }
          else Some g }"
  by pat_completeness auto
termination
  by (relation "measure (\<lambda>(_, it, _). size it)") (auto dest: module_items_size)

definition add_bare_functions_into_api_graph :: "Item \<Rightarrow> ApiGraph \<Rightarrow> ApiGraph run" where
  "add_bare_functions_into_api_graph krate_module g = add_bare_functions_into_api_graph_util [] krate_module g"

declare add_bare_functions_into_api_graph_util.simps [simp del]

section \<open>The functions of the module tree\<close>

text \<open>The specification: the modules with their paths, and the functions with theirs.\<close>

function tree_modules :: "Symbol list \<Rightarrow> Item \<Rightarrow> (string \<times> Visibility) list" where
  "tree_modules current it = (case module_items (item_kind it) of
     None \<Rightarrow> []
   | Some items \<Rightarrow>
       let current' = current @ [the (item_name it)]
       in (str_join ''::'' current', the (item_visibility it)) # concat (map (tree_modules current') items))"
  by pat_completeness auto
termination
  by (relation "measure (\<lambda>(_, it). size it)") (auto dest: module_items_size)

function tree_functions :: "Symbol list \<Rightarrow> Item \<Rightarrow> ApiFunction list" where
  "tree_functions current it = (case module_items (item_kind it) of
     None \<Rightarrow>
       (case (item_kind it, item_name it) of
          (FunctionItem f, Some n) \<Rightarrow>
            [\<lparr>full_name = str_join ''::'' (current @ [n]), generics = fn_generics f, generic_substitutions = Map.empty,
               inputs = map arg_type (decl_inputs (fn_decl f)),
               output_type = extract_output_type (decl_output (fn_decl f)),
               trait_full_path = None, unsafe_tag = item_unsafety it, visibility = the (item_visibility it)\<rparr>]
        | _ \<Rightarrow> [])
   | Some items \<Rightarrow> concat (map (tree_functions (current @ [the (item_name it)])) items))"
  by pat_completeness auto
termination
  by (relation "measure (\<lambda>(_, it). size it)") (auto dest: module_items_size)

text \<open>What rustdoc guarantees of a crate: modules and functions have names and a visibility of the crate,
  an item is stripped once at most, and signatures are resolved.\<close>

definition visible_here :: "Item \<Rightarrow> bool" where
  "visible_here it = (case item_visibility it of Some v \<Rightarrow> expect_local v \<noteq> None | None \<Rightarrow> False)"

definition fn_resolved :: "Function \<Rightarrow> bool" where
  "fn_resolved f \<longleftrightarrow> list_all (\<lambda>a. resolved (arg_type a)) (decl_inputs (fn_decl f)) \<and>
     (case decl_output (fn_decl f) of Return t \<Rightarrow> resolved t | DefaultReturn \<Rightarrow> True)"

function tree_ok :: "Item \<Rightarrow> bool" where
  "tree_ok it \<longleftrightarrow> item_type it \<noteq> None \<and> (case module_items (item_kind it) of
     None \<Rightarrow> (case item_kind it of
        FunctionItem f \<Rightarrow> item_name it \<noteq> None \<and> visible_here it \<and> fn_resolved f
      | OtherItem t \<Rightarrow> t \<noteq> ''mod'' \<and> t \<noteq> ''fn'' | StrippedItem (OtherItem t) \<Rightarrow> t \<noteq> ''mod'' \<and> t \<noteq> ''fn'' | _ \<Rightarrow> True)
   | Some items \<Rightarrow> item_name it \<noteq> None \<and> item_name it \<noteq> Some [] \<and> visible_here it \<and> list_all tree_ok items)"
  by pat_completeness auto
termination
  by (relation "measure size") (auto dest: module_items_size)

declare tree_modules.simps [simp del] tree_functions.simps [simp del] tree_ok.simps [simp del]

lemma fold_double_colon: "fold (\<lambda>sym s. s @ ''::'' @ sym) syms s = str_join ''::'' (s # syms)"
proof (induction syms arbitrary: s)
  case (Cons t syms)
  then have "fold (\<lambda>sym s. s @ ''::'' @ sym) (t # syms) s = str_join ''::'' ((s @ ''::'' @ t) # syms)" by simp
  also have "\<dots> = str_join ''::'' (s # t # syms)" by (cases syms) auto
  finally show ?case .
qed simp

lemma full_path_join: "full_path path = str_join ''::'' path"
  using fold_double_colon by (simp add: full_path_def split: list.split)

lemma context_full_path_join:
  assumes "current \<noteq> []" and "item_name it = Some n"
  shows "context_full_path current it = Some (str_join ''::'' (current @ [n]))"
proof -
  have "join_with_double_colon current = Some (str_join ''::'' current)"
    using assms(1) fold_double_colon by (cases current) (auto simp: join_with_double_colon_def)
  then show ?thesis using assms by (simp add: context_full_path_def join_snoc)
qed

definition add_modules :: "(string \<times> Visibility) list \<Rightarrow> ModVisibity \<Rightarrow> ModVisibity" where
  "add_modules ms mv = fold (\<lambda>(n, v) mv. add_one_mod mv n v) ms mv"

text \<open>The graph \<open>g'\<close> is \<open>g\<close> with the modules \<open>ms\<close> and those of the functions \<open>fs\<close> that are accepted.\<close>

definition walked :: "ApiGraph \<Rightarrow> (string \<times> Visibility) list \<Rightarrow> ApiFunction list \<Rightarrow> ApiGraph \<Rightarrow> bool" where
  "walked g ms fs g' \<longleftrightarrow> (\<exists>U. g' = g\<lparr>api_functions := api_functions g @ map with_i32_substitutions (filter (accepted g) fs),
     mod_visibility := add_modules ms (mod_visibility g), functions_with_unsupported_fuzzable_types := U\<rparr>)"

lemma walked_fields:
  assumes "walked g ms fs g'"
  shows "api_functions g' = api_functions g @ map with_i32_substitutions (filter (accepted g) fs)"
    "graph_cache g' = graph_cache g" "full_name_map g' = full_name_map g"
    "mod_visibility g' = add_modules ms (mod_visibility g)"
    "api_sequences g' = api_sequences g" "crate_name g' = crate_name g"
  using assms by (auto simp: walked_def)

lemma walked_trans:
  assumes "walked g ms fs g1" and "walked g1 ms' fs' g2"
  shows "walked g (ms @ ms') (fs @ fs') g2"
proof -
  have "accepted g1 = accepted g"
    using walked_fields(2,3) [OF assms(1)] by (simp add: accepted_def fun_eq_iff)
  with assms show ?thesis unfolding walked_def by (fastforce simp: add_modules_def)
qed

lemma walked_refl: "walked g [] [] g"
  by (auto simp: walked_def add_modules_def intro: exI [of _ "functions_with_unsupported_fuzzable_types g"])

lemma walked_grown: "grown g fs g' \<Longrightarrow> walked g [] fs g'"
  by (auto simp: walked_def grown_def add_modules_def)

lemma walked_module: "walked g [(n, v)] [] (add_mod_visibility g n v)"
  by (auto simp: walked_def add_mod_visibility_def add_modules_def
      intro: exI [of _ "functions_with_unsupported_fuzzable_types g"])

lemma walked_list:
  assumes "\<And>x g. x \<in> set xs \<Longrightarrow> \<exists>g'. step x g = Some g' \<and> walked g (ms x) (fs x) g'"
  shows "\<exists>g'. fold_m step xs g = Some g' \<and> walked g (concat (map ms xs)) (concat (map fs xs)) g'"
  using assms
proof (induction xs arbitrary: g)
  case (Cons x xs)
  then obtain g1 where g1: "step x g = Some g1" "walked g (ms x) (fs x) g1" by (meson list.set_intros(1))
  obtain g2 where "fold_m step xs g1 = Some g2" "walked g1 (concat (map ms xs)) (concat (map fs xs)) g2"
    using Cons.IH [of g1] Cons.prems by auto
  with g1 walked_trans [OF g1(2)] show ?case by fastforce
qed (simp add: walked_refl)

lemma tree_ok_type:
  assumes "tree_ok it"
  shows "is_mod it = Some (module_items (item_kind it) \<noteq> None)"
  using assms tree_ok.simps [of it]
  by (cases "item_kind it" rule: module_items.cases; auto simp: is_mod_def item_type_def)

lemma walk_function:
  assumes "tree_ok it" and f: "item_kind it = FunctionItem f" and "current \<noteq> []"
  shows "\<exists>g'. add_bare_functions_into_api_graph_util current it g = Some g' \<and>
    walked g (tree_modules current it) (tree_functions current it) g'"
proof -
  from assms(1) f obtain n v where n: "item_name it = Some n" "item_visibility it = Some v" "expect_local v = Some v"
      "fn_resolved f"
    using tree_ok.simps [of it] by (auto simp: visible_here_def dest: expect_local_Some split: option.splits)
  obtain api where api: "bare_function (str_join ''::'' (current @ [n])) it f = Some api"
      "tree_functions current it = [api]" "tree_modules current it = []"
    using f n by (auto simp: bare_function_def fn_header_def tree_functions.simps [of _ it] tree_modules.simps [of _ it]
        extract_input_types_def)
  have "resolved_function api"
    using api n(4) f
    by (auto simp: bare_function_def fn_header_def resolved_function_def fn_resolved_def list_all_iff
        extract_input_types_def extract_output_type_def bind_eq_Some_conv split: FnRetTy.splits)
  from add_api_function_grown [OF this, of g] obtain g' where "add_api_function g api = Some g'" "grown g [api] g'" by blast
  with walked_grown f n api assms(3) tree_ok_type [OF assms(1)] show ?thesis
    by (auto simp: add_bare_functions_into_api_graph_util.simps [of current it g] item_type_def context_full_path_join)
qed

lemma walk_result:
  assumes "tree_ok it" and "current \<noteq> [] \<or> module_items (item_kind it) \<noteq> None"
  shows "\<exists>g'. add_bare_functions_into_api_graph_util current it g = Some g' \<and>
    walked g (tree_modules current it) (tree_functions current it) g'"
  using assms
proof (induction it arbitrary: current g rule: tree_ok.induct)
  case (1 it)
  note walk = add_bare_functions_into_api_graph_util.simps [of current it g] tree_ok_type [OF 1(2)]
  show ?case
  proof (cases "module_items (item_kind it)")
    case (Some items)
    with 1(2) obtain n v where n: "item_name it = Some n" "n \<noteq> []" "item_visibility it = Some v" "expect_local v = Some v"
        "list_all tree_ok items"
      using tree_ok.simps [of it] by (auto simp: visible_here_def dest: expect_local_Some split: option.splits)
    let ?cur = "current @ [n]" let ?g = "add_mod_visibility g (str_join ''::'' ?cur) v"
    obtain g' where "fold_m (add_bare_functions_into_api_graph_util ?cur) items ?g = Some g'"
        "walked ?g (concat (map (tree_modules ?cur) items)) (concat (map (tree_functions ?cur) items)) g'"
      using walked_list [of items "add_bare_functions_into_api_graph_util ?cur" "tree_modules ?cur" "tree_functions ?cur" ?g]
        1(1) [OF Some] n(5) by (auto simp: list_all_iff)
    with walked_trans [OF walked_module] n Some show ?thesis
      by (fastforce simp: walk tree_modules.simps [of _ it] tree_functions.simps [of _ it] Let_def)
  next
    case None
    then have m: "tree_modules current it = []" by (simp add: tree_modules.simps)
    show ?thesis
    proof (cases "\<exists>f. item_kind it = FunctionItem f")
      case True
      then obtain f where "item_kind it = FunctionItem f" by blast
      from walk_function [OF 1(2) this, of current g] 1(3) None show ?thesis by blast
    next
      case False
      then have "tree_functions current it = []"
        using None by (auto simp: tree_functions.simps [of _ it] split: ItemKind.splits option.splits)
      moreover have "add_bare_functions_into_api_graph_util current it g = Some g"
        using False None 1(2,3) tree_ok.simps [of it]
        by (auto simp: walk context_full_path_join split: ItemKind.splits)
      ultimately show ?thesis using m walked_refl by simp
    qed
  qed
qed

text \<open>C17. The bare functions of a crate: the walk over a well-formed module tree returns; it registers every
  module under its path, and appends, in order, every function of the tree under the path of its
  module, with the types of its signature and its visibility, unless it needs an unsupported type.\<close>

theorem bare_functions_exact:
  assumes "tree_ok krate_module" and "module_items (item_kind krate_module) \<noteq> None"
  shows "\<exists>g'. add_bare_functions_into_api_graph krate_module g = Some g' \<and>
    api_functions g' = api_functions g @
      map with_i32_substitutions (filter (accepted g) (tree_functions [] krate_module)) \<and>
    mod_visibility g' = add_modules (tree_modules [] krate_module) (mod_visibility g) \<and>
    api_sequences g' = api_sequences g \<and> full_name_map g' = full_name_map g"
proof -
  from walk_result [OF assms(1), of "[]" g] assms(2) obtain g' where
    "add_bare_functions_into_api_graph krate_module g = Some g'"
    "walked g (tree_modules [] krate_module) (tree_functions [] krate_module) g'"
    by (auto simp: add_bare_functions_into_api_graph_def)
  with walked_fields [OF this(2)] show ?thesis by blast
qed

text \<open>A crate \<open>krate\<close> with a module \<open>io\<close> and the function \<open>krate::io::open\<close>.\<close>

definition small_crate :: Item where
  "small_crate = MkItem (Some ''krate'') (Some Public) Normal (ModuleItem
     [MkItem (Some ''io'') (Some Public) Normal (ModuleItem
        [MkItem (Some ''open'') (Some Public) Normal (FunctionItem
          \<lparr>fn_decl = \<lparr>decl_inputs = [\<lparr>arg_type = T_Primitive P_U32, arg_name = ''n'', arg_is_const = False\<rparr>],
             decl_output = DefaultReturn\<rparr>, fn_generics = []\<rparr>)])])"

lemma small_crate_ok: "tree_ok small_crate" "module_items (item_kind small_crate) \<noteq> None"
  by (simp_all add: small_crate_def tree_ok.simps item_type_def visible_here_def expect_local_def fn_resolved_def)

lemma bare_functions_exact_witness:
  "\<exists>g'. add_bare_functions_into_api_graph small_crate (ApiGraph_new ''krate'' \<lparr>primitive_locations = Map.empty\<rparr>) = Some g' \<and>
    map full_name (tree_functions [] small_crate) = [''krate::io::open''] \<and>
    map fst (tree_modules [] small_crate) = [''krate'', ''krate::io''] \<and> api_sequences g' = []"
  using bare_functions_exact [OF small_crate_ok, of "ApiGraph_new ''krate'' \<lparr>primitive_locations = Map.empty\<rparr>"]
  by (auto simp: small_crate_def tree_functions.simps tree_modules.simps ApiGraph_new_def)

end
