(* ===== verification/Render_Format.thy ===== *)
theory Render_Format
  imports Crate_Context
begin

text \<open>
  How rustdoc runs a backend: \<open>run_format\<close> of \<open>formats/renderer.rs\<close>, \<open>run_renderer\<close> and the end
  of \<open>main_args\<close> of \<open>lib.rs\<close>. The trait
  \<open>FormatRenderer\<close> is a record of its methods over a renderer and a state of the outside world;
  errors are values, and a method that takes \<open>&mut self\<close> and is used again returns the renderer. The
  worklist of items is a stack with its top in front.

  The locale \<open>steady_renderer\<close> states what a backend promises whose callbacks keep an invariant and do
  not fail; in it the loop is shown to end and to keep the invariant. Driver theories interpret it on
  the fuzz-target generator.
\<close>

section \<open>The loop over the items\<close>

record RenderError =
  error_file :: string
  error_text :: string

record ('r, 'w) FormatRenderer =
  RUN_ON_MODULE :: bool
  renderer_init :: "'w \<Rightarrow> ('w \<times> (RenderError + 'r \<times> Item)) run"
  make_child_renderer :: "'r \<Rightarrow> 'r"
  render_item :: "'r \<Rightarrow> Item \<Rightarrow> 'w \<Rightarrow> ('w \<times> (RenderError + unit)) run"
  mod_item_in :: "'r \<Rightarrow> Item \<Rightarrow> 'w \<Rightarrow> ('w \<times> (RenderError + 'r)) run"
  mod_item_out :: "'r \<Rightarrow> 'w \<Rightarrow> ('w \<times> (RenderError + unit)) run"
  after_krate :: "'r \<Rightarrow> 'w \<Rightarrow> ('w \<times> (RenderError + unit)) run"

definition is_extern_crate :: "Item \<Rightarrow> bool run" where
  "is_extern_crate it = do { t \<leftarrow> item_type it; Some (t = ''externcrate'') }"

lemma size_items_less:
  assumes "module_items (item_kind it) = Some items"
  shows "(\<Sum>x \<leftarrow> items. Suc (size x)) < Suc (size it)"
proof -
  have "(\<Sum>x \<leftarrow> items. Suc (size x)) = size_list size items" by (induction items) auto
  moreover have "size_list size items < size it"
    using assms by (cases it, cases "item_kind it" rule: module_items.cases) auto
  ultimately show ?thesis by simp
qed

function render_work ::
  "('r, 'w) FormatRenderer \<Rightarrow> ('r \<times> Item) list \<Rightarrow> 'w \<Rightarrow> ('w \<times> (RenderError + unit)) run" where
  "render_work T [] w = Some (w, Inr ())"
| "render_work T ((cx, it) # work) w =
     do { is_module \<leftarrow> is_mod it;
          if is_module \<and> RUN_ON_MODULE T then
            do { _ \<leftarrow> item_name it;
                 (w1, r1) \<leftarrow> mod_item_in T cx it w;
                 case r1 of
                   Inl e \<Rightarrow> Some (w1, Inl e)
                 | Inr cx' \<Rightarrow>
                     do { items \<leftarrow> module_items (item_kind it);
                          (w2, r2) \<leftarrow> mod_item_out T cx' w1;
                          case r2 of
                            Inl e \<Rightarrow> Some (w2, Inl e)
                          | Inr _ \<Rightarrow> render_work T (rev (map (\<lambda>x. (make_child_renderer T cx', x)) items) @ work) w2 } }
          else
            do { skip \<leftarrow> (if item_name it = None then Some True else is_extern_crate it);
                 if skip then render_work T work w
                 else
                   do { (w1, r1) \<leftarrow> render_item T cx it w;
                        case r1 of Inl e \<Rightarrow> Some (w1, Inl e) | Inr _ \<Rightarrow> render_work T work w1 } } }"
  by pat_completeness auto
termination
  by (relation "measure (\<lambda>(_, work, _). \<Sum>p \<leftarrow> work. Suc (size (snd p)))")
    (auto simp: comp_def rev_map [symmetric] size_items_less)

declare render_work.simps [simp del]

definition run_format :: "('r, 'w) FormatRenderer \<Rightarrow> bool \<Rightarrow> 'w \<Rightarrow> ('w \<times> (RenderError + unit)) run" where
  "run_format T emit_crate w =
     do { (w1, r1) \<leftarrow> renderer_init T w;
          case r1 of
            Inl e \<Rightarrow> Some (w1, Inl e)
          | Inr (format_renderer, krate_module) \<Rightarrow>
              if \<not> emit_crate then Some (w1, Inr ())
              else
                do { (w2, r2) \<leftarrow> render_work T [(make_child_renderer T format_renderer, krate_module)] w1;
                     case r2 of Inl e \<Rightarrow> Some (w2, Inl e) | Inr _ \<Rightarrow> after_krate T format_renderer w2 } }"

text \<open>The error is reported as a message and, when a file is named, a note.\<close>

definition run_renderer :: "('r, 'w) FormatRenderer \<Rightarrow> bool \<Rightarrow> 'w \<Rightarrow> ('w \<times> (string list + unit)) run" where
  "run_renderer T emit_crate w =
     do { (w', r) \<leftarrow> run_format T emit_crate w;
          Some (w', case r of
              Inr _ \<Rightarrow> Inr ()
            | Inl e \<Rightarrow> Inl ((''couldn't generate documentation: '' @ error_text e) #
                (if error_file e = [] then [] else [''failed to create or modify '' @ dq @ error_file e @ dq]))) }"

datatype OutputFormat = Json | Html | TarGen

definition output_format_try_from :: "string \<Rightarrow> string + OutputFormat" where
  "output_format_try_from v =
     (if v = ''json'' then Inr Json
      else if v = ''html'' then Inr Html
      else if v = ''targen'' then Inr TarGen
      else Inl (''unknown output format `'' @ v @ ''`''))"

text \<open>The end of \<open>main_args\<close>: the match on the output format is commented out, one backend runs. The return
  for \<open>scrape_examples\<close> comes before it and is not part of the model.\<close>

definition render_crate ::
  "bool \<Rightarrow> bool \<Rightarrow> OutputFormat \<Rightarrow> ('r, 'w) FormatRenderer \<Rightarrow> bool \<Rightarrow> 'w \<Rightarrow> ('w \<times> (string list + unit)) run" where
  "render_crate show_coverage run_check output_format T emit_crate w =
     (if show_coverage then Some (w, Inr ())
      else if run_check then Some (w, Inr ())
      else run_renderer T emit_crate w)"

section \<open>Backends that do not fail\<close>

locale steady_renderer =
  fixes T :: "('r, 'w) FormatRenderer" and I :: "'w \<Rightarrow> bool"
  assumes item_steady: "I w \<Longrightarrow> \<exists>w'. render_item T cx it w = Some (w', Inr ()) \<and> I w'"
    and mod_in_steady: "I w \<Longrightarrow> \<exists>w' cx'. mod_item_in T cx it w = Some (w', Inr cx') \<and> I w'"
    and mod_out_steady: "I w \<Longrightarrow> \<exists>w'. mod_item_out T cx w = Some (w', Inr ()) \<and> I w'"
    and after_steady: "I w \<Longrightarrow> \<exists>w'. after_krate T cx w = Some (w', Inr ()) \<and> I w'"
begin

lemma module_steady:
  assumes "I w" and "is_mod it = Some True" and "RUN_ON_MODULE T" and "item_name it = Some n"
    and "module_items (item_kind it) = Some items"
  shows "\<exists>cx' w'. I w' \<and> render_work T ((cx, it) # work) w =
    render_work T (rev (map (\<lambda>x. (make_child_renderer T cx', x)) items) @ work) w'"
proof -
  from mod_in_steady [OF assms(1)] obtain w1 cx' where "mod_item_in T cx it w = Some (w1, Inr cx')" "I w1" by blast
  moreover from mod_out_steady [OF this(2), of cx'] obtain w2 where "mod_item_out T cx' w1 = Some (w2, Inr ())" "I w2" by blast
  ultimately show ?thesis using assms(2-5) by (intro exI [of _ cx'] exI [of _ w2]) (simp add: render_work.simps)
qed

lemma leaf_steady:
  assumes "I w" and "is_mod it = Some m" and "\<not> (m \<and> RUN_ON_MODULE T)"
  shows "\<exists>w'. I w' \<and> render_work T ((cx, it) # work) w = render_work T work w'"
proof (cases "item_name it = None \<or> is_extern_crate it = Some True")
  case True
  with assms show ?thesis by (intro exI [of _ w]) (auto simp: render_work.simps)
next
  case False
  from item_steady [OF assms(1)] obtain w' where "render_item T cx it w = Some (w', Inr ())" "I w'" by blast
  moreover have "is_extern_crate it = Some False"
    using False assms(2) by (auto simp: is_extern_crate_def is_mod_def split: bind_splits)
  ultimately show ?thesis using assms(2,3) False by (intro exI [of _ w']) (auto simp: render_work.simps)
qed

lemma render_work_steady:
  assumes "list_all (\<lambda>p. tree_ok (snd p)) work" and "I w"
  shows "\<exists>w'. render_work T work w = Some (w', Inr ()) \<and> I w'"
  using assms
proof (induction "\<Sum>p \<leftarrow> work. Suc (size (snd p))" arbitrary: work w rule: less_induct)
  case less
  show ?case
  proof (cases work)
    case Nil
    then show ?thesis using less.prems(2) by (simp add: render_work.simps)
  next
    case (Cons p rest)
    obtain cx it where p: "p = (cx, it)" by (rule prod.exhaust)
    have ok: "tree_ok it" "list_all (\<lambda>p. tree_ok (snd p)) rest" using less.prems(1) Cons p by auto
    obtain m where m: "is_mod it = Some m" using tree_ok_type [OF ok(1)] by (auto simp: is_mod_def)
    show ?thesis
    proof (cases "m \<and> RUN_ON_MODULE T")
      case True
      then obtain items n where items: "module_items (item_kind it) = Some items" "item_name it = Some n"
          "list_all tree_ok items"
        using m tree_ok_type [OF ok(1)] ok(1) tree_ok.simps [of it] by (auto split: option.splits)
      from module_steady [OF less.prems(2) _ _ items(2,1), of cx rest] True m obtain cx' w' where
        w': "I w'" "render_work T work w = render_work T (rev (map (\<lambda>x. (make_child_renderer T cx', x)) items) @ rest) w'"
        unfolding Cons p by auto
      show ?thesis
        unfolding w'(2) using size_items_less [OF items(1)] items(3) ok(2) w'(1)
        by (intro less.hyps) (auto simp: Cons p comp_def rev_map [symmetric] list_all_iff)
    next
      case False
      from leaf_steady [OF less.prems(2) m False, of cx rest] obtain w' where
        "I w'" "render_work T work w = render_work T rest w'" unfolding Cons p by blast
      with less.hyps [OF _ ok(2), of w'] show ?thesis by (simp add: Cons p)
    qed
  qed
qed

lemma run_renderer_steady:
  assumes "renderer_init T w = Some (w1, Inr (r, krate_module))" and "I w1" and "tree_ok krate_module"
  shows "\<exists>w'. run_renderer T emit_crate w = Some (w', Inr ()) \<and> I w'"
proof -
  from render_work_steady [of "[(make_child_renderer T r, krate_module)]" w1] assms(2,3) obtain w2 where
    w2: "render_work T [(make_child_renderer T r, krate_module)] w1 = Some (w2, Inr ())" "I w2" by auto
  from after_steady [OF w2(2), of r] obtain w3 where "after_krate T r w2 = Some (w3, Inr ())" "I w3" by blast
  with w2 assms(1,2) show ?thesis by (cases emit_crate) (simp_all add: run_renderer_def run_format_def)
qed

end

end
