(* ===== verification/Mir_Body.thy ===== *)
theory Mir_Body
  imports Clean_Types
begin

text \<open>
  The compiler's MIR as the corpus analysis reads it (\<open>rustc_middle/src/mir/syntax.rs\<close>, \<open>mir/mod.rs\<close>) and
  the traversal of a body by a \<open>Visitor\<close> (\<open>mir/visit.rs\<close>).

  A visitor is a record of the methods that the analysis overrides: \<open>visit_constant\<close>, \<open>visit_assign\<close> and
  \<open>visit_terminator\<close>; the \<open>super_\<close> functions are the default methods, which call them in the order of the
  source. Default methods that reach none of the three (types, places, spans, scopes, user annotations)
  leave every visitor as it is and have no counterpart here. The lemmas reduce each of the three
  visitors of the analysis to a loop over the constants, the assignments or the terminators of a body.
\<close>

section \<open>Function bodies\<close>

type_synonym Local = nat
type_synonym BasicBlock = nat

text \<open>Types by what is asked of them: \<open>is_fn\<close>, \<open>is_fn_ptr\<close>, \<open>is_closure\<close>, \<open>is_primitive_ty\<close>.\<close>

datatype Ty = Ty_FnDef DefId opaque | Ty_FnPtr opaque | Ty_Closure opaque | Ty_Primitive opaque | Ty_Other opaque

record Constant =
  const_ty :: Ty
  const_value :: opaque

datatype ProjectionElem =
    PE_Deref | PE_Field nat Ty | PE_Index Local | PE_ConstantIndex nat nat bool | PE_Subslice nat nat bool
  | PE_Downcast "Symbol option" nat | PE_OpaqueCast Ty

record Place =
  place_local :: Local
  projection :: "ProjectionElem list"

text \<open>A local variable as a place.\<close>

definition local_place :: "Local \<Rightarrow> Place" where
  "local_place l = \<lparr>place_local = l, projection = []\<rparr>"

datatype Operand = Op_Copy Place | Op_Move Place | Op_Constant Constant

text \<open>Operators, regions, casts and the like are not looked at; source spans and scopes are left out.\<close>

datatype Rvalue =
    RV_Use Operand | RV_Repeat Operand opaque | RV_Ref opaque opaque Place | RV_ThreadLocalRef DefId
  | RV_AddressOf Mutability Place | RV_Len Place | RV_Cast opaque Operand Ty
  | RV_BinaryOp opaque Operand Operand | RV_CheckedBinaryOp opaque Operand Operand | RV_NullaryOp opaque Ty
  | RV_UnaryOp opaque Operand | RV_Discriminant Place | RV_Aggregate opaque "Operand list"
  | RV_ShallowInitBox Operand Ty | RV_CopyForDeref Place

datatype NonDivergingIntrinsic = NDI_Assume Operand | NDI_CopyNonOverlapping Operand Operand Operand

datatype StatementKind =
    SK_Assign Place Rvalue | SK_FakeRead opaque Place | SK_SetDiscriminant Place nat | SK_Deinit Place
  | SK_StorageLive Local | SK_StorageDead Local | SK_Retag opaque Place | SK_AscribeUserType Place opaque opaque
  | SK_Coverage opaque | SK_Intrinsic NonDivergingIntrinsic | SK_Nop

datatype AssertKind =
    AK_BoundsCheck Operand Operand | AK_Overflow opaque Operand Operand | AK_OverflowNeg Operand
  | AK_DivisionByZero Operand | AK_RemainderByZero Operand | AK_ResumedAfterReturn opaque | AK_ResumedAfterPanic opaque

datatype InlineAsmOperand =
    IA_In opaque Operand | IA_Out opaque bool "Place option" | IA_InOut opaque bool Operand "Place option"
  | IA_Const Constant | IA_SymFn Constant | IA_SymStatic DefId

text \<open>A call: the function, the arguments and the destination.\<close>

record Call =
  call_func :: Operand
  call_args :: "Operand list"
  call_destination :: Place

datatype TerminatorKind =
    TK_Goto BasicBlock | TK_SwitchInt Operand Ty opaque | TK_Resume | TK_Abort | TK_Return | TK_Unreachable
  | TK_Drop Place BasicBlock "BasicBlock option" | TK_DropAndReplace Place Operand BasicBlock "BasicBlock option"
  | TK_Call Call "BasicBlock option" "BasicBlock option" bool opaque
  | TK_Assert Operand bool AssertKind BasicBlock "BasicBlock option"
  | TK_Yield Operand BasicBlock Place "BasicBlock option" | TK_GeneratorDrop | TK_FalseEdge BasicBlock BasicBlock
  | TK_FalseUnwind BasicBlock "BasicBlock option"
  | TK_InlineAsm opaque "InlineAsmOperand list" opaque opaque "BasicBlock option" "BasicBlock option"

record BasicBlockData =
  statements :: "StatementKind list"
  terminator :: "TerminatorKind option"
  is_cleanup :: bool

datatype VarDebugInfoContents = VD_Place Place | VD_Const Constant | VD_Composite Ty "(ProjectionElem list \<times> Place) list"

record VarDebugInfo =
  debug_name :: Symbol
  debug_value :: VarDebugInfoContents

record Body =
  basic_blocks :: "BasicBlockData list"
  local_decls :: "Ty list"
  arg_count :: nat
  var_debug_info :: "VarDebugInfo list"
  required_consts :: "Constant list"

section \<open>The visitor\<close>

record 's Visitor =
  visit_constant :: "Constant \<Rightarrow> 's \<Rightarrow> 's run"
  visit_assign :: "Place \<Rightarrow> Rvalue \<Rightarrow> 's \<Rightarrow> 's run"
  visit_terminator :: "TerminatorKind \<Rightarrow> 's \<Rightarrow> 's run"

text \<open>The default methods below the overridden ones get the method \<open>visit_constant\<close> that they end in.\<close>

fun super_operand :: "(Constant \<Rightarrow> 's \<Rightarrow> 's run) \<Rightarrow> Operand \<Rightarrow> 's \<Rightarrow> 's run" where
  "super_operand vc (Op_Copy place) s = Some s"
| "super_operand vc (Op_Move place) s = Some s"
| "super_operand vc (Op_Constant c) s = vc c s"

fun super_rvalue :: "(Constant \<Rightarrow> 's \<Rightarrow> 's run) \<Rightarrow> Rvalue \<Rightarrow> 's \<Rightarrow> 's run" where
  "super_rvalue vc (RV_Use op) s = super_operand vc op s"
| "super_rvalue vc (RV_Repeat v n) s = super_operand vc v s"
| "super_rvalue vc (RV_ThreadLocalRef d) s = Some s"
| "super_rvalue vc (RV_Ref r bk path) s = Some s"
| "super_rvalue vc (RV_CopyForDeref place) s = Some s"
| "super_rvalue vc (RV_AddressOf m path) s = Some s"
| "super_rvalue vc (RV_Len path) s = Some s"
| "super_rvalue vc (RV_Cast k op ty) s = super_operand vc op s"
| "super_rvalue vc (RV_BinaryOp b lhs rhs) s = do { s' \<leftarrow> super_operand vc lhs s; super_operand vc rhs s' }"
| "super_rvalue vc (RV_CheckedBinaryOp b lhs rhs) s = do { s' \<leftarrow> super_operand vc lhs s; super_operand vc rhs s' }"
| "super_rvalue vc (RV_UnaryOp u op) s = super_operand vc op s"
| "super_rvalue vc (RV_Discriminant place) s = Some s"
| "super_rvalue vc (RV_NullaryOp n ty) s = Some s"
| "super_rvalue vc (RV_Aggregate kind operands) s = fold_m (super_operand vc) operands s"
| "super_rvalue vc (RV_ShallowInitBox op ty) s = super_operand vc op s"

definition super_assign :: "(Constant \<Rightarrow> 's \<Rightarrow> 's run) \<Rightarrow> Place \<Rightarrow> Rvalue \<Rightarrow> 's \<Rightarrow> 's run" where
  "super_assign vc place rvalue s = super_rvalue vc rvalue s"

fun super_assert_message :: "(Constant \<Rightarrow> 's \<Rightarrow> 's run) \<Rightarrow> AssertKind \<Rightarrow> 's \<Rightarrow> 's run" where
  "super_assert_message vc (AK_BoundsCheck len index) s = do { s' \<leftarrow> super_operand vc len s; super_operand vc index s' }"
| "super_assert_message vc (AK_Overflow b l r) s = do { s' \<leftarrow> super_operand vc l s; super_operand vc r s' }"
| "super_assert_message vc (AK_OverflowNeg op) s = super_operand vc op s"
| "super_assert_message vc (AK_DivisionByZero op) s = super_operand vc op s"
| "super_assert_message vc (AK_RemainderByZero op) s = super_operand vc op s"
| "super_assert_message vc (AK_ResumedAfterReturn k) s = Some s"
| "super_assert_message vc (AK_ResumedAfterPanic k) s = Some s"

fun visit_asm_operand :: "(Constant \<Rightarrow> 's \<Rightarrow> 's run) \<Rightarrow> InlineAsmOperand \<Rightarrow> 's \<Rightarrow> 's run" where
  "visit_asm_operand vc (IA_In reg v) s = super_operand vc v s"
| "visit_asm_operand vc (IA_Out reg late place) s = Some s"
| "visit_asm_operand vc (IA_InOut reg late in_value out_place) s = super_operand vc in_value s"
| "visit_asm_operand vc (IA_Const v) s = vc v s"
| "visit_asm_operand vc (IA_SymFn v) s = vc v s"
| "visit_asm_operand vc (IA_SymStatic d) s = Some s"

fun super_terminator :: "(Constant \<Rightarrow> 's \<Rightarrow> 's run) \<Rightarrow> TerminatorKind \<Rightarrow> 's \<Rightarrow> 's run" where
  "super_terminator vc (TK_Goto t) s = Some s"
| "super_terminator vc TK_Resume s = Some s"
| "super_terminator vc TK_Abort s = Some s"
| "super_terminator vc TK_GeneratorDrop s = Some s"
| "super_terminator vc TK_Unreachable s = Some s"
| "super_terminator vc (TK_FalseEdge t i) s = Some s"
| "super_terminator vc (TK_FalseUnwind t u) s = Some s"
| "super_terminator vc TK_Return s = Some s"
| "super_terminator vc (TK_SwitchInt discr ty targets) s = super_operand vc discr s"
| "super_terminator vc (TK_Drop place t u) s = Some s"
| "super_terminator vc (TK_DropAndReplace place v t u) s = super_operand vc v s"
| "super_terminator vc (TK_Call c t u hir sp) s =
     do { s' \<leftarrow> super_operand vc (call_func c) s; fold_m (super_operand vc) (call_args c) s' }"
| "super_terminator vc (TK_Assert cond expected msg t u) s =
     do { s' \<leftarrow> super_operand vc cond s; super_assert_message vc msg s' }"
| "super_terminator vc (TK_Yield v resume resume_arg dr) s = super_operand vc v s"
| "super_terminator vc (TK_InlineAsm template operands options spans dest u) s = fold_m (visit_asm_operand vc) operands s"

fun super_statement :: "('s, 'z) Visitor_scheme \<Rightarrow> StatementKind \<Rightarrow> 's \<Rightarrow> 's run" where
  "super_statement v (SK_Assign place rvalue) s = visit_assign v place rvalue s"
| "super_statement v (SK_FakeRead c place) s = Some s"
| "super_statement v (SK_SetDiscriminant place i) s = Some s"
| "super_statement v (SK_Deinit place) s = Some s"
| "super_statement v (SK_StorageLive l) s = Some s"
| "super_statement v (SK_StorageDead l) s = Some s"
| "super_statement v (SK_Retag k place) s = Some s"
| "super_statement v (SK_AscribeUserType place user_ty var) s = Some s"
| "super_statement v (SK_Coverage c) s = Some s"
| "super_statement v (SK_Intrinsic (NDI_Assume op)) s = super_operand (visit_constant v) op s"
| "super_statement v (SK_Intrinsic (NDI_CopyNonOverlapping src dst count)) s =
     do { s1 \<leftarrow> super_operand (visit_constant v) src s; s2 \<leftarrow> super_operand (visit_constant v) dst s1;
          super_operand (visit_constant v) count s2 }"
| "super_statement v SK_Nop s = Some s"

definition super_basic_block_data :: "('s, 'z) Visitor_scheme \<Rightarrow> BasicBlockData \<Rightarrow> 's \<Rightarrow> 's run" where
  "super_basic_block_data v data s =
     do { s' \<leftarrow> fold_m (super_statement v) (statements data) s;
          case terminator data of None \<Rightarrow> Some s' | Some t \<Rightarrow> visit_terminator v t s' }"

definition super_var_debug_info :: "('s, 'z) Visitor_scheme \<Rightarrow> VarDebugInfo \<Rightarrow> 's \<Rightarrow> 's run" where
  "super_var_debug_info v info s = (case debug_value info of
     VD_Const c \<Rightarrow> visit_constant v c s
   | VD_Place place \<Rightarrow> Some s
   | VD_Composite ty fragments \<Rightarrow> Some s)"

definition super_body :: "('s, 'z) Visitor_scheme \<Rightarrow> Body \<Rightarrow> 's \<Rightarrow> 's run" where
  "super_body v body s =
     do { s1 \<leftarrow> fold_m (super_basic_block_data v) (basic_blocks body) s;
          s2 \<leftarrow> fold_m (super_var_debug_info v) (var_debug_info body) s1;
          fold_m (visit_constant v) (required_consts body) s2 }"

text \<open>The methods that a visitor does not override.\<close>

definition default_visitor :: "'s Visitor" where
  "default_visitor = \<lparr>visit_constant = (\<lambda>c. Some), visit_assign = super_assign (\<lambda>c. Some),
     visit_terminator = super_terminator (\<lambda>c. Some)\<rparr>"

text \<open>A visitor that overrides \<open>visit_constant\<close> only.\<close>

definition constants_visitor :: "(Constant \<Rightarrow> 's \<Rightarrow> 's run) \<Rightarrow> 's Visitor" where
  "constants_visitor vc = \<lparr>visit_constant = vc, visit_assign = super_assign vc, visit_terminator = super_terminator vc\<rparr>"

section \<open>What the visitors meet\<close>

text \<open>The parts of a body in the order of the traversal.\<close>

definition rvalue_operand_list :: "Rvalue \<Rightarrow> Operand list" where
  "rvalue_operand_list rv = (case rv of
     RV_Use op \<Rightarrow> [op] | RV_Repeat op _ \<Rightarrow> [op] | RV_Cast _ op _ \<Rightarrow> [op] | RV_UnaryOp _ op \<Rightarrow> [op]
   | RV_ShallowInitBox op _ \<Rightarrow> [op] | RV_BinaryOp _ op1 op2 \<Rightarrow> [op1, op2]
   | RV_CheckedBinaryOp _ op1 op2 \<Rightarrow> [op1, op2] | RV_Aggregate _ ops \<Rightarrow> ops | _ \<Rightarrow> [])"

fun assert_operands :: "AssertKind \<Rightarrow> Operand list" where
  "assert_operands (AK_BoundsCheck op1 op2) = [op1, op2]"
| "assert_operands (AK_Overflow _ op1 op2) = [op1, op2]"
| "assert_operands (AK_OverflowNeg op) = [op]"
| "assert_operands (AK_DivisionByZero op) = [op]"
| "assert_operands (AK_RemainderByZero op) = [op]"
| "assert_operands _ = []"

fun asm_operands :: "InlineAsmOperand \<Rightarrow> Operand list" where
  "asm_operands (IA_In _ op) = [op]"
| "asm_operands (IA_InOut _ _ op _) = [op]"
| "asm_operands (IA_Const c) = [Op_Constant c]"
| "asm_operands (IA_SymFn c) = [Op_Constant c]"
| "asm_operands _ = []"

fun terminator_operands :: "TerminatorKind \<Rightarrow> Operand list" where
  "terminator_operands (TK_SwitchInt op _ _) = [op]"
| "terminator_operands (TK_DropAndReplace _ op _ _) = [op]"
| "terminator_operands (TK_Call c _ _ _ _) = call_func c # call_args c"
| "terminator_operands (TK_Assert op _ msg _ _) = op # assert_operands msg"
| "terminator_operands (TK_Yield op _ _ _) = [op]"
| "terminator_operands (TK_InlineAsm _ ops _ _ _ _) = concat (map asm_operands ops)"
| "terminator_operands _ = []"

fun statement_operands :: "StatementKind \<Rightarrow> Operand list" where
  "statement_operands (SK_Assign _ rv) = rvalue_operand_list rv"
| "statement_operands (SK_Intrinsic (NDI_Assume op)) = [op]"
| "statement_operands (SK_Intrinsic (NDI_CopyNonOverlapping op1 op2 op3)) = [op1, op2, op3]"
| "statement_operands _ = []"

definition operand_constants :: "Operand list \<Rightarrow> Constant list" where
  "operand_constants ops = List.map_filter (\<lambda>op. case op of Op_Constant c \<Rightarrow> Some c | _ \<Rightarrow> None) ops"

definition block_operands :: "BasicBlockData \<Rightarrow> Operand list" where
  "block_operands b = concat (map statement_operands (statements b)) @
     (case terminator b of None \<Rightarrow> [] | Some t \<Rightarrow> terminator_operands t)"

definition body_constants :: "Body \<Rightarrow> Constant list" where
  "body_constants body = operand_constants (concat (map block_operands (basic_blocks body))) @
     List.map_filter (\<lambda>i. case debug_value i of VD_Const c \<Rightarrow> Some c | _ \<Rightarrow> None) (var_debug_info body) @
     required_consts body"

definition assign_of :: "StatementKind \<Rightarrow> (Place \<times> Rvalue) option" where
  "assign_of st = (case st of SK_Assign place rv \<Rightarrow> Some (place, rv) | _ \<Rightarrow> None)"

definition body_assigns :: "Body \<Rightarrow> (Place \<times> Rvalue) list" where
  "body_assigns body = concat (map (\<lambda>b. List.map_filter assign_of (statements b)) (basic_blocks body))"

definition body_terminators :: "Body \<Rightarrow> TerminatorKind list" where
  "body_terminators body = List.map_filter terminator (basic_blocks body)"

lemma operand_constants_simps [simp]:
  "operand_constants [] = []"
  "operand_constants (Op_Copy place # ops) = operand_constants ops"
  "operand_constants (Op_Move place # ops) = operand_constants ops"
  "operand_constants (Op_Constant c # ops) = c # operand_constants ops"
  "operand_constants (ops @ ops') = operand_constants ops @ operand_constants ops'"
  by (simp_all add: operand_constants_def List.map_filter_def)

lemma operand_constants_Cons: "operand_constants (op # ops) = operand_constants [op] @ operand_constants ops"
  by (cases op) simp_all

lemma operand_constants_mem: "Op_Constant c \<in> set ops \<Longrightarrow> c \<in> set (operand_constants ops)"
  by (force simp: operand_constants_def List.map_filter_def)

section \<open>Each visitor is one loop\<close>

lemma super_operand_fold: "super_operand vc op = fold_m vc (operand_constants [op])"
  by (cases op; rule ext) simp_all

lemma super_operands_fold: "fold_m (super_operand vc) ops = fold_m vc (operand_constants ops)"
proof (induction ops)
  case (Cons op ops)
  show ?case
    by (rule ext, subst operand_constants_Cons) (simp add: fold_m_append Cons.IH, simp add: super_operand_fold)
qed (rule ext, simp)

lemma operand_constants_concat: "operand_constants (concat opss) = concat (map operand_constants opss)"
  by (induction opss) simp_all

lemmas operand_folds = super_operand_fold super_operands_fold operand_constants_Cons [of _ "_ # _"] fold_m_append

lemma super_rvalue_fold: "super_rvalue vc rv = fold_m vc (operand_constants (rvalue_operand_list rv))"
  by (cases rv; rule ext) (simp_all add: operand_folds rvalue_operand_list_def)

lemma super_assert_fold: "super_assert_message vc msg = fold_m vc (operand_constants (assert_operands msg))"
  by (cases msg; rule ext) (simp_all add: operand_folds)

lemma asm_operand_fold: "visit_asm_operand vc a = fold_m vc (operand_constants (asm_operands a))"
  by (cases a; rule ext) (simp_all add: operand_folds)

lemma super_terminator_fold: "super_terminator vc t = fold_m vc (operand_constants (terminator_operands t))"
proof (cases t)
  case (TK_InlineAsm tm ops opts spans dest u)
  then show ?thesis
    by (intro ext) (simp add: operand_constants_concat fold_m_concat fold_m_map asm_operand_fold [abs_def])
qed (rule ext; simp add: operand_folds super_assert_fold operand_constants_Cons [of _ "call_args _"]
    operand_constants_Cons [of _ "assert_operands _"])+

lemma default_visitor_none [simp]:
  "super_assign (\<lambda>c. Some) = (\<lambda>place rv. Some)" "super_terminator (\<lambda>c. Some) = (\<lambda>t. Some)"
  by (intro ext; simp add: super_assign_def super_rvalue_fold super_terminator_fold)+

text \<open>A visitor that overrides \<open>visit_constant\<close> meets exactly the constants.\<close>

lemma constants_statement:
  "super_statement (constants_visitor vc) st = fold_m vc (operand_constants (statement_operands st))"
proof (cases st)
  case (SK_Intrinsic i)
  then show ?thesis by (cases i; intro ext) (simp_all add: constants_visitor_def operand_folds)
qed (rule ext; simp add: constants_visitor_def super_assign_def super_rvalue_fold)+

lemma constants_block:
  "super_basic_block_data (constants_visitor vc) b = fold_m vc (operand_constants (block_operands b))"
proof (rule ext)
  fix s
  have "fold_m (super_statement (constants_visitor vc)) (statements b) =
      fold_m vc (operand_constants (concat (map statement_operands (statements b))))"
    by (simp add: operand_constants_concat fold_m_concat fold_m_map constants_statement [abs_def])
  then show "super_basic_block_data (constants_visitor vc) b s = fold_m vc (operand_constants (block_operands b)) s"
    by (simp add: super_basic_block_data_def block_operands_def fold_m_append constants_visitor_def
        super_terminator_fold split: option.splits)
qed

lemma constants_visited: "super_body (constants_visitor vc) body s = fold_m vc (body_constants body) s"
proof -
  have blocks: "fold_m (super_basic_block_data (constants_visitor vc)) bs =
      fold_m vc (operand_constants (concat (map block_operands bs)))" for bs
    by (simp add: operand_constants_concat fold_m_concat fold_m_map constants_block [abs_def])
  have "super_var_debug_info (constants_visitor vc) =
      (\<lambda>i. case (case debug_value i of VD_Const c \<Rightarrow> Some c | _ \<Rightarrow> None) of None \<Rightarrow> Some | Some c \<Rightarrow> vc c)"
    by (intro ext) (simp add: super_var_debug_info_def constants_visitor_def split: VarDebugInfoContents.split)
  then have infos: "fold_m (super_var_debug_info (constants_visitor vc)) infos =
      fold_m vc (List.map_filter (\<lambda>i. case debug_value i of VD_Const c \<Rightarrow> Some c | _ \<Rightarrow> None) infos)" for infos
    by (simp only: fold_m_map_filter)
  have "visit_constant (constants_visitor vc) = vc" by (simp add: constants_visitor_def)
  then show ?thesis
    by (simp add: super_body_def body_constants_def blocks infos fold_m_append)
qed

text \<open>A visitor that overrides only \<open>visit_assign\<close> meets exactly the assignments, one that overrides only
  \<open>visit_terminator\<close> exactly the terminators.\<close>

lemma default_operand: "super_operand (\<lambda>c. Some) op s = Some s"
  by (cases op) simp_all

lemma default_statement:
  assumes "visit_constant v = (\<lambda>c. Some)"
  shows "super_statement v st s = (case assign_of st of None \<Rightarrow> Some s | Some (place, rv) \<Rightarrow> visit_assign v place rv s)"
proof (cases st)
  case (SK_Intrinsic i)
  with assms show ?thesis by (cases i) (simp_all add: default_operand assign_of_def)
qed (simp_all add: assms assign_of_def)

lemma default_tail:
  assumes "visit_constant v = (\<lambda>c. Some)"
  shows "super_body v body s = fold_m (super_basic_block_data v) (basic_blocks body) s"
proof -
  have "super_var_debug_info v = (\<lambda>i. Some)"
    by (intro ext) (simp add: super_var_debug_info_def assms split: VarDebugInfoContents.split)
  then show ?thesis by (simp add: super_body_def assms)
qed

lemma assigns_visited:
  assumes "visit_constant v = (\<lambda>c. Some)" and "visit_terminator v = (\<lambda>t. Some)"
  shows "super_body v body s = fold_m (\<lambda>(place, rv). visit_assign v place rv) (body_assigns body) s"
proof -
  have no_terminator: "(case terminator b of None \<Rightarrow> Some s | Some t \<Rightarrow> visit_terminator v t s) = Some s" for b s
    by (cases "terminator b") (simp_all add: assms(2))
  have "super_statement v = (\<lambda>st. case assign_of st of None \<Rightarrow> Some | Some a \<Rightarrow> (\<lambda>(place, rv). visit_assign v place rv) a)"
    by (intro ext) (simp add: default_statement assms(1) split: option.split prod.split)
  then have "super_basic_block_data v = (\<lambda>b. fold_m (\<lambda>(place, rv). visit_assign v place rv) (List.map_filter assign_of (statements b)))"
    unfolding fold_m_map_filter
    by (intro ext) (simp add: super_basic_block_data_def no_terminator)
  then show ?thesis
    by (simp add: default_tail [OF assms(1)] body_assigns_def fold_m_concat fold_m_map)
qed

lemma terminators_visited:
  assumes "visit_constant v = (\<lambda>c. Some)" and "visit_assign v = (\<lambda>place rv. Some)"
  shows "super_body v body s = fold_m (visit_terminator v) (body_terminators body) s"
proof -
  have "super_statement v = (\<lambda>st. Some)"
    by (intro ext) (simp add: default_statement assms split: option.split prod.split)
  then have "super_basic_block_data v = (\<lambda>b. case terminator b of None \<Rightarrow> Some | Some t \<Rightarrow> visit_terminator v t)"
    by (intro ext) (simp add: super_basic_block_data_def split: option.split)
  then show ?thesis
    by (simp add: default_tail [OF assms(1)] body_terminators_def fold_m_map_filter)
qed

text \<open>The constants of every assignment are met.\<close>

lemma assign_constants:
  assumes "(place, rv) \<in> set (body_assigns body)" and "Op_Constant c \<in> set (rvalue_operand_list rv)"
  shows "c \<in> set (body_constants body)"
proof -
  from assms(1) obtain b where b: "b \<in> set (basic_blocks body)" "SK_Assign place rv \<in> set (statements b)"
    by (auto simp: body_assigns_def List.map_filter_def assign_of_def split: StatementKind.splits)
  from b(2) assms(2) have "Op_Constant c \<in> set (block_operands b)" by (force simp: block_operands_def)
  with b(1) have "Op_Constant c \<in> set (concat (map block_operands (basic_blocks body)))" by auto
  then show ?thesis by (simp add: body_constants_def operand_constants_mem)
qed

end
