(* ===== verification/Local_Deps.thy ===== *)
theory Local_Deps
  imports Mir_Body
begin

text \<open>
  The first half of \<open>extract_dep.rs\<close>: which local variables and constants of a function body depend on
  which others (\<open>LocalDependencies\<close>). The direct dependencies are a matrix of bits; \<open>propagate\<close> closes it
  under composition.

  Bit vectors come from the package \<open>bit-vec\<close>: their operations are an argument, and the locale
  \<open>bit_vector\<close> states what its documentation says of them. That the constants of every assignment have a
  column, so that \<open>get_id\<close> finds them, is proved from the traversal of \<open>Mir_Body\<close>. A place counts as its local
  variable; the index variables of its projection do not count, as in the code.
\<close>

section \<open>Bit vectors\<close>

record 'b bit_ops =
  bv_from_elem :: "nat \<Rightarrow> bool \<Rightarrow> 'b"
  bv_set :: "'b \<Rightarrow> nat \<Rightarrow> bool \<Rightarrow> 'b run"
  bv_get :: "'b \<Rightarrow> nat \<Rightarrow> bool run"
  bv_or :: "'b \<Rightarrow> 'b \<Rightarrow> 'b run"
  bv_clear :: "'b \<Rightarrow> 'b"
  bv_eq :: "'b \<Rightarrow> 'b \<Rightarrow> bool"
  bv_iter :: "'b \<Rightarrow> bool list"

section \<open>Dependencies between local variables\<close>

record 'b LocalDependencies =
  dep_rows :: "'b list"
  dep_constants :: "Constant list"
  dep_arg_count :: nat

text \<open>The column of an operand: its local variable, or behind all of them the first equal constant.\<close>

definition get_id :: "nat \<Rightarrow> Constant list \<Rightarrow> Operand \<Rightarrow> nat run" where
  "get_id locals_count constants op = (case op of
     Op_Copy place \<Rightarrow> Some (place_local place)
   | Op_Move place \<Rightarrow> Some (place_local place)
   | Op_Constant c \<Rightarrow> do { i \<leftarrow> find_index (\<lambda>k. k = c) constants; Some (locals_count + i) })"

definition rvalue_operands :: "nat \<Rightarrow> Constant list \<Rightarrow> Rvalue \<Rightarrow> nat list run" where
  "rvalue_operands n cs rv = (case rv of
     RV_Use op \<Rightarrow> map_m (get_id n cs) [op]
   | RV_Repeat op _ \<Rightarrow> map_m (get_id n cs) [op]
   | RV_Cast _ op _ \<Rightarrow> map_m (get_id n cs) [op]
   | RV_UnaryOp _ op \<Rightarrow> map_m (get_id n cs) [op]
   | RV_ShallowInitBox op _ \<Rightarrow> map_m (get_id n cs) [op]
   | RV_Ref _ _ place \<Rightarrow> Some [place_local place]
   | RV_AddressOf _ place \<Rightarrow> Some [place_local place]
   | RV_Len place \<Rightarrow> Some [place_local place]
   | RV_Discriminant place \<Rightarrow> Some [place_local place]
   | RV_CopyForDeref place \<Rightarrow> Some [place_local place]
   | RV_BinaryOp _ op1 op2 \<Rightarrow> map_m (get_id n cs) [op1, op2]
   | RV_CheckedBinaryOp _ op1 op2 \<Rightarrow> map_m (get_id n cs) [op1, op2]
   | RV_Aggregate _ ops \<Rightarrow> map_m (get_id n cs) ops
   | RV_ThreadLocalRef _ \<Rightarrow> Some []
   | RV_NullaryOp _ _ \<Rightarrow> Some [])"

definition set_bit_m :: "'b bit_ops \<Rightarrow> Local \<Rightarrow> nat \<Rightarrow> 'b list \<Rightarrow> 'b list run" where
  "set_bit_m ops l i rows = do { row \<leftarrow> index_m rows l; row' \<leftarrow> bv_set ops row i True; update_m rows l row' }"

definition assign_local ::
  "'b bit_ops \<Rightarrow> nat \<Rightarrow> Constant list \<Rightarrow> Local \<times> Rvalue \<Rightarrow> 'b list \<Rightarrow> 'b list run" where
  "assign_local ops locals_count constants a rows = (case a of (l, rv) \<Rightarrow>
     do { ids \<leftarrow> rvalue_operands locals_count constants rv; fold_m (set_bit_m ops l) ids rows })"

definition Assignments_visitor :: "'b bit_ops \<Rightarrow> nat \<Rightarrow> Constant list \<Rightarrow> 'b list Visitor" where
  "Assignments_visitor ops locals_count constants =
     default_visitor\<lparr>visit_assign := (\<lambda>lvalue rvalue. assign_local ops locals_count constants (place_local lvalue, rvalue))\<rparr>"

definition extract_constant :: "Body \<Rightarrow> Constant list run" where
  "extract_constant body = super_body (constants_visitor (\<lambda>c constants. Some (constants @ [c]))) body []"

definition direct_dependencies :: "'b bit_ops \<Rightarrow> Body \<Rightarrow> 'b LocalDependencies run" where
  "direct_dependencies ops body =
     do { let locals_count = length (local_decls body);
          constants \<leftarrow> extract_constant body;
          let rows = replicate locals_count (bv_from_elem ops (locals_count + length constants) False);
          rows1 \<leftarrow> fold_m (\<lambda>i. set_bit_m ops i i) [0..<locals_count] rows;
          rows2 \<leftarrow> super_body (Assignments_visitor ops locals_count constants) body rows1;
          Some \<lparr>dep_rows = rows2, dep_constants = constants, dep_arg_count = arg_count body\<rparr> }"

text \<open>One pass over the other rows: every row whose bit is set by then is added.\<close>

definition propagate_pass :: "'b bit_ops \<Rightarrow> 'b list \<Rightarrow> nat \<Rightarrow> 'b \<Rightarrow> 'b run" where
  "propagate_pass ops rows index deps1 =
     fold_m (\<lambda>idx deps1. do { b \<leftarrow> bv_get ops deps1 idx; if b then bv_or ops deps1 (rows ! idx) else Some deps1 })
       ([0..<index] @ [Suc index..<length rows]) deps1"

text \<open>The loop until nothing changes. Not returning is \<open>None\<close>, as a panic is.\<close>

partial_function (option) propagate_loop ::
  "'b bit_ops \<Rightarrow> 'b list \<Rightarrow> nat \<Rightarrow> 'b \<Rightarrow> 'b \<Rightarrow> ('b \<times> 'b) option" where
  "propagate_loop ops rows index deps1 previous =
     Option.bind (bv_or ops (bv_clear ops previous) deps1) (\<lambda>previous'.
       Option.bind (propagate_pass ops rows index deps1) (\<lambda>deps1'.
         if bv_eq ops deps1' previous' then Some (deps1', previous')
         else propagate_loop ops rows index deps1' previous'))"

definition propagate_row :: "'b bit_ops \<Rightarrow> nat \<Rightarrow> 'b list \<times> 'b \<Rightarrow> ('b list \<times> 'b) run" where
  "propagate_row ops index st = (case st of (rows, previous) \<Rightarrow>
     do { deps1 \<leftarrow> index_m rows index;
          (deps1', previous') \<leftarrow> propagate_loop ops rows index deps1 previous;
          Some (rows[index := deps1'], previous') })"

definition propagate :: "'b bit_ops \<Rightarrow> 'b LocalDependencies \<Rightarrow> 'b LocalDependencies run" where
  "propagate ops deps =
     do { let n = length (dep_rows deps);
          (rows, _) \<leftarrow> fold_m (propagate_row ops) [0..<n]
             (dep_rows deps, bv_from_elem ops (n + length (dep_constants deps)) False);
          Some (deps\<lparr>dep_rows := rows\<rparr>) }"

definition compute :: "'b bit_ops \<Rightarrow> Body \<Rightarrow> 'b LocalDependencies run" where
  "compute ops body = do { deps \<leftarrow> direct_dependencies ops body; propagate ops deps }"

datatype DependencyType = Dep_Return | Dep_Argument Local | Dep_Local Local | Dep_Constant Constant

definition dependency_type :: "'b LocalDependencies \<Rightarrow> nat \<Rightarrow> DependencyType run" where
  "dependency_type deps index =
     (if index = 0 then Some Dep_Return
      else if index \<le> dep_arg_count deps then Some (Dep_Argument index)
      else if index < length (dep_rows deps) then Some (Dep_Local index)
      else map_option Dep_Constant (index_m (dep_constants deps) (index - length (dep_rows deps))))"

definition dependencies :: "'b bit_ops \<Rightarrow> 'b LocalDependencies \<Rightarrow> Local \<Rightarrow> DependencyType list run" where
  "dependencies ops deps l =
     do { row \<leftarrow> index_m (dep_rows deps) l;
          map_m (dependency_type deps) (map fst (filter snd (enumerate 0 (bv_iter ops row)))) }"

section \<open>What a function body depends on\<close>

text \<open>The specification: a local variable depends directly on itself and on the operands of its
  assignments; a constant counts as the column behind all variables.\<close>

definition rv_operands :: "Rvalue \<Rightarrow> Operand list" where
  "rv_operands rv = rvalue_operand_list rv @ map Op_Copy (case rv of
     RV_Ref _ _ place \<Rightarrow> [place] | RV_AddressOf _ place \<Rightarrow> [place] | RV_Len place \<Rightarrow> [place]
   | RV_Discriminant place \<Rightarrow> [place] | RV_CopyForDeref place \<Rightarrow> [place] | _ \<Rightarrow> [])"

definition local_assigns :: "Body \<Rightarrow> (Local \<times> Rvalue) list" where
  "local_assigns body = map (\<lambda>(place, rv). (place_local place, rv)) (body_assigns body)"

definition operand_column :: "Body \<Rightarrow> Operand \<Rightarrow> nat" where
  "operand_column body op = the (get_id (length (local_decls body)) (body_constants body) op)"

definition direct :: "Body \<Rightarrow> Local \<Rightarrow> nat set" where
  "direct body l = insert l {operand_column body op | op rv. (l, rv) \<in> set (local_assigns body) \<and> op \<in> set (rv_operands rv)}"

text \<open>What the compiler guarantees: variables are declared.\<close>

definition arg_ok :: "Body \<Rightarrow> Operand \<Rightarrow> bool" where
  "arg_ok body op = (case op of
     Op_Copy place \<Rightarrow> place_local place < length (local_decls body)
   | Op_Move place \<Rightarrow> place_local place < length (local_decls body)
   | Op_Constant c \<Rightarrow> True)"

definition body_ok :: "Body \<Rightarrow> bool" where
  "body_ok body \<longleftrightarrow> arg_count body < length (local_decls body) \<and>
     (\<forall>(l, rv) \<in> set (local_assigns body). l < length (local_decls body) \<and> list_all (arg_ok body) (rv_operands rv))"

text \<open>An operand with a column: a constant that the visitor has met. The operands of assignments are such.\<close>

definition operand_ok :: "Body \<Rightarrow> Operand \<Rightarrow> bool" where
  "operand_ok body op \<longleftrightarrow> arg_ok body op \<and> (\<forall>c. op = Op_Constant c \<longrightarrow> c \<in> set (body_constants body))"

abbreviation body_width :: "Body \<Rightarrow> nat" where
  "body_width body \<equiv> length (local_decls body) + length (body_constants body)"

lemma rvalue_operands_map: "rvalue_operands n cs rv = map_m (get_id n cs) (rv_operands rv)"
  by (cases rv) (simp_all add: rvalue_operands_def get_id_def rv_operands_def rvalue_operand_list_def)

lemma operand_column_in_range:
  assumes "operand_ok body op"
  shows "get_id (length (local_decls body)) (body_constants body) op = Some (operand_column body op)"
    and "operand_column body op < body_width body"
proof -
  show id: "get_id (length (local_decls body)) (body_constants body) op = Some (operand_column body op)"
    using assms find_index_None [of "\<lambda>k. k = _" "body_constants body"]
    by (cases op) (auto simp: operand_ok_def arg_ok_def operand_column_def get_id_def bind_eq_None_conv split: bind_splits)
  with assms show "operand_column body op < body_width body"
    by (cases op) (auto simp: operand_ok_def arg_ok_def get_id_def bind_eq_Some_conv dest: find_index_Some)
qed

lemma operand_columns:
  assumes "list_all (operand_ok body) ops"
  shows "map_m (get_id (length (local_decls body)) (body_constants body)) ops = Some (map (operand_column body) ops)"
  using assms by (induction ops) (auto simp: operand_column_in_range)

lemma assign_operands_ok:
  assumes "body_ok body" and "(l, rv) \<in> set (local_assigns body)"
  shows "l < length (local_decls body)" and "list_all (operand_ok body) (rv_operands rv)"
proof -
  show "l < length (local_decls body)" using assms by (auto simp: body_ok_def)
  from assms(2) obtain place where place: "(place, rv) \<in> set (body_assigns body)" by (auto simp: local_assigns_def)
  have "c \<in> set (body_constants body)" if "Op_Constant c \<in> set (rv_operands rv)" for c
    using that by (intro assign_constants [OF place]) (auto simp: rv_operands_def)
  moreover have "list_all (arg_ok body) (rv_operands rv)" using assms by (auto simp: body_ok_def)
  ultimately show "list_all (operand_ok body) (rv_operands rv)" by (auto simp: list_all_iff operand_ok_def)
qed

lemma extract_constant_result [simp]: "extract_constant body = Some (body_constants body)"
proof -
  have "fold_m (\<lambda>c constants. Some (constants @ [c])) xs ys = Some (ys @ xs)" for xs ys :: "Constant list"
    by (induction xs arbitrary: ys) simp_all
  then show ?thesis by (simp add: extract_constant_def constants_visited)
qed

lemma assignments_visited:
  "super_body (Assignments_visitor ops n cs) body rows = fold_m (assign_local ops n cs) (local_assigns body) rows"
  by (subst assigns_visited)
    (simp_all add: Assignments_visitor_def default_visitor_def local_assigns_def fold_m_map case_prod_unfold)

text \<open>Dependencies through any number of variables.\<close>

definition dep_edges :: "Body \<Rightarrow> (Local \<times> Local) set" where
  "dep_edges body = {(l, k). l < length (local_decls body) \<and> k < length (local_decls body) \<and> k \<in> direct body l}"

definition depends :: "Body \<Rightarrow> Local \<Rightarrow> nat set" where
  "depends body l = (\<Union>k \<in> {k. (l, k) \<in> (dep_edges body)\<^sup>*}. direct body k)"

definition column_kind :: "Body \<Rightarrow> nat \<Rightarrow> DependencyType" where
  "column_kind body j =
     (if j = 0 then Dep_Return
      else if j \<le> arg_count body then Dep_Argument j
      else if j < length (local_decls body) then Dep_Local j
      else Dep_Constant (body_constants body ! (j - length (local_decls body))))"

section \<open>The interface of bit vectors\<close>

locale bit_vector =
  fixes ops :: "'b bit_ops"
  assumes iter_from_elem: "bv_iter ops (bv_from_elem ops n b) = replicate n b"
    and set_in_range: "i < length (bv_iter ops v) \<Longrightarrow>
      \<exists>w. bv_set ops v i b = Some w \<and> bv_iter ops w = (bv_iter ops v)[i := b]"
    and get_in_range: "i < length (bv_iter ops v) \<Longrightarrow> bv_get ops v i = Some (bv_iter ops v ! i)"
    and or_same_length: "length (bv_iter ops v) = length (bv_iter ops w) \<Longrightarrow>
      \<exists>u. bv_or ops v w = Some u \<and> bv_iter ops u = map2 (\<or>) (bv_iter ops v) (bv_iter ops w)"
    and iter_clear: "bv_iter ops (bv_clear ops v) = replicate (length (bv_iter ops v)) False"
    and eq_iter: "bv_eq ops v w \<longleftrightarrow> bv_iter ops v = bv_iter ops w"
begin

definition bits :: "'b \<Rightarrow> nat set" where
  "bits v = {j. j < length (bv_iter ops v) \<and> bv_iter ops v ! j}"

definition wide :: "nat \<Rightarrow> 'b \<Rightarrow> bool" where
  "wide w v \<longleftrightarrow> length (bv_iter ops v) = w"

lemma bits_less: "wide w v \<Longrightarrow> bits v \<subseteq> {..<w}"
  by (auto simp: bits_def wide_def)

lemma finite_bits [simp]: "finite (bits v)"
  by (rule finite_subset [of _ "{..<length (bv_iter ops v)}"]) (auto simp: bits_def)

lemma bits_eq:
  assumes w: "wide w v" "wide w u"
  shows "bv_eq ops v u \<longleftrightarrow> bits v = bits u"
proof
  show "bits v = bits u" if "bv_eq ops v u" using that by (simp add: eq_iter bits_def)
  show "bv_eq ops v u" if eq: "bits v = bits u"
    unfolding eq_iter
  proof (rule nth_equalityI)
    show "length (bv_iter ops v) = length (bv_iter ops u)" using w by (simp add: wide_def)
    fix i assume "i < length (bv_iter ops v)"
    moreover have "i \<in> bits v \<longleftrightarrow> i \<in> bits u" by (simp add: eq)
    ultimately show "bv_iter ops v ! i = bv_iter ops u ! i" using w by (simp add: bits_def wide_def)
  qed
qed

lemma or_bits:
  assumes "wide w v" and "wide w u"
  shows "\<exists>x. bv_or ops v u = Some x \<and> wide w x \<and> bits x = bits v \<union> bits u"
proof -
  from or_same_length [of v u] assms obtain x where x: "bv_or ops v u = Some x"
      "bv_iter ops x = map2 (\<or>) (bv_iter ops v) (bv_iter ops u)" by (auto simp: wide_def)
  then have "wide w x" using assms by (simp add: wide_def)
  moreover have "bits x = bits v \<union> bits u"
    using assms unfolding bits_def wide_def x(2) by (auto simp: set_eq_iff)
  ultimately show ?thesis using x(1) by blast
qed

lemma get_bits: "wide w v \<Longrightarrow> i < w \<Longrightarrow> bv_get ops v i = Some (i \<in> bits v)"
  using get_in_range [of i v] by (simp add: wide_def bits_def)

lemma set_bits:
  assumes "wide w v" and "i < w"
  shows "\<exists>x. bv_set ops v i True = Some x \<and> wide w x \<and> bits x = insert i (bits v)"
proof -
  from assms set_in_range [of i v True] obtain x where x: "bv_set ops v i True = Some x"
      "bv_iter ops x = (bv_iter ops v)[i := True]" by (auto simp: wide_def)
  with assms show ?thesis by (auto simp: wide_def bits_def nth_list_update)
qed

lemma from_elem_bits: "wide w (bv_from_elem ops w False)" "bits (bv_from_elem ops w False) = {}"
  by (auto simp: wide_def bits_def iter_from_elem)

lemma clear_bits: "wide w v \<Longrightarrow> wide w (bv_clear ops v)" "bits (bv_clear ops v) = {}"
  by (auto simp: wide_def bits_def iter_clear)

text \<open>One pass: the row grows by rows that it depends on; when it does not grow, it is closed.\<close>

lemma pass_result:
  assumes "\<forall>r \<in> set rows. wide w r" and "length rows \<le> w" and "set idxs \<subseteq> {..<length rows}" and "wide w d"
  shows "\<exists>d'. fold_m (\<lambda>idx d. do { b \<leftarrow> bv_get ops d idx; if b then bv_or ops d (rows ! idx) else Some d }) idxs d
      = Some d' \<and> wide w d' \<and> bits d \<subseteq> bits d' \<and>
    (\<forall>C. bits d \<subseteq> C \<longrightarrow> (\<forall>k \<in> C \<inter> set idxs. bits (rows ! k) \<subseteq> C) \<longrightarrow> bits d' \<subseteq> C) \<and>
    (bits d' = bits d \<longrightarrow> (\<forall>k \<in> bits d \<inter> set idxs. bits (rows ! k) \<subseteq> bits d))"
  using assms(3,4)
proof (induction idxs arbitrary: d)
  case (Cons k idxs)
  then have k: "k < length rows" "k < w" using assms(2) by auto
  have rk: "wide w (rows ! k)" using assms(1) k(1) by simp
  let ?step = "\<lambda>idx d. do { b \<leftarrow> bv_get ops d idx; if b then bv_or ops d (rows ! idx) else Some d }"
  obtain d1 where d1: "?step k d = Some d1" "wide w d1" "bits d1 = bits d \<union> (if k \<in> bits d then bits (rows ! k) else {})"
  proof (cases "k \<in> bits d")
    case True
    with or_bits [OF Cons.prems(2) rk] get_bits [OF Cons.prems(2) k(2)] that show thesis by auto
  next
    case False
    with get_bits [OF Cons.prems(2) k(2)] Cons.prems(2) that show thesis by simp
  qed
  from Cons.IH [OF _ d1(2)] Cons.prems(1) obtain d' where d': "fold_m ?step idxs d1 = Some d'" "wide w d'" "bits d1 \<subseteq> bits d'"
      "\<forall>C. bits d1 \<subseteq> C \<longrightarrow> (\<forall>k \<in> C \<inter> set idxs. bits (rows ! k) \<subseteq> C) \<longrightarrow> bits d' \<subseteq> C"
      "bits d' = bits d1 \<longrightarrow> (\<forall>k \<in> bits d1 \<inter> set idxs. bits (rows ! k) \<subseteq> bits d1)" by auto
  show ?case
  proof (intro exI conjI)
    show "fold_m ?step (k # idxs) d = Some d'" using d1(1) d'(1) by simp
    show "wide w d'" by fact
    show "bits d \<subseteq> bits d'" using d1(3) d'(3) by auto
    show "\<forall>C. bits d \<subseteq> C \<longrightarrow> (\<forall>j \<in> C \<inter> set (k # idxs). bits (rows ! j) \<subseteq> C) \<longrightarrow> bits d' \<subseteq> C"
    proof (intro allI impI)
      fix C assume C: "bits d \<subseteq> C" "\<forall>j \<in> C \<inter> set (k # idxs). bits (rows ! j) \<subseteq> C"
      then have "bits d1 \<subseteq> C" unfolding d1(3) by auto
      with C(2) d'(4) show "bits d' \<subseteq> C" by simp
    qed
    show "bits d' = bits d \<longrightarrow> (\<forall>j \<in> bits d \<inter> set (k # idxs). bits (rows ! j) \<subseteq> bits d)"
    proof
      assume eq: "bits d' = bits d"
      with d1(3) d'(3) have "bits d1 = bits d" by auto
      with eq d1(3) d'(5) show "\<forall>j \<in> bits d \<inter> set (k # idxs). bits (rows ! j) \<subseteq> bits d" by (auto split: if_splits)
    qed
  qed
qed simp

lemma propagate_pass_result:
  assumes "\<forall>r \<in> set rows. wide w r" and "length rows \<le> w" and "index < length rows" and "wide w d"
  shows "\<exists>d'. propagate_pass ops rows index d = Some d' \<and> wide w d' \<and> bits d \<subseteq> bits d' \<and>
    (\<forall>C. bits d \<subseteq> C \<longrightarrow> (\<forall>k \<in> C. k < length rows \<longrightarrow> bits (rows ! k) \<subseteq> C) \<longrightarrow> bits d' \<subseteq> C) \<and>
    (bits d' = bits d \<longrightarrow> (\<forall>k \<in> bits d. k < length rows \<longrightarrow> k \<noteq> index \<longrightarrow> bits (rows ! k) \<subseteq> bits d))"
proof -
  let ?idxs = "[0..<index] @ [Suc index..<length rows]"
  have set: "set ?idxs = {..<length rows} - {index}" using assms(3) by auto
  from pass_result [OF assms(1,2) _ assms(4), of ?idxs] assms(3) obtain d'
    where "propagate_pass ops rows index d = Some d'" "wide w d'" "bits d \<subseteq> bits d'"
      "\<forall>C. bits d \<subseteq> C \<longrightarrow> (\<forall>k \<in> C \<inter> set ?idxs. bits (rows ! k) \<subseteq> C) \<longrightarrow> bits d' \<subseteq> C"
      "bits d' = bits d \<longrightarrow> (\<forall>k \<in> bits d \<inter> set ?idxs. bits (rows ! k) \<subseteq> bits d)"
    unfolding propagate_pass_def set by auto
  then show ?thesis unfolding set by (intro exI [of _ d']) auto
qed

text \<open>The loop ends with the least set that contains the row and is closed under the other rows.\<close>

definition least_closed :: "'b list \<Rightarrow> nat \<Rightarrow> 'b \<Rightarrow> 'b \<Rightarrow> bool" where
  "least_closed rows index d d' \<longleftrightarrow> bits d \<subseteq> bits d' \<and>
    (\<forall>C. bits d \<subseteq> C \<longrightarrow> (\<forall>k \<in> C. k < length rows \<longrightarrow> bits (rows ! k) \<subseteq> C) \<longrightarrow> bits d' \<subseteq> C) \<and>
    (\<forall>k \<in> bits d'. k < length rows \<longrightarrow> k \<noteq> index \<longrightarrow> bits (rows ! k) \<subseteq> bits d')"

lemma propagate_loop_result:
  assumes "\<forall>r \<in> set rows. wide w r" and "length rows \<le> w" and "index < length rows"
    and "wide w d" and "wide w previous"
  shows "\<exists>d' previous'. propagate_loop ops rows index d previous = Some (d', previous') \<and> wide w d' \<and>
    wide w previous' \<and> least_closed rows index d d'"
  using assms(4,5)
proof (induction "w - card (bits d)" arbitrary: d previous rule: less_induct)
  case less
  from or_bits [OF clear_bits(1) [OF less(3)] less(2)] clear_bits(2) obtain p
    where p: "bv_or ops (bv_clear ops previous) d = Some p" "wide w p" "bits p = bits d" by auto
  from propagate_pass_result [OF assms(1-3) less(2)] obtain d1 where d1: "propagate_pass ops rows index d = Some d1"
      "wide w d1" "bits d \<subseteq> bits d1"
      "\<forall>C. bits d \<subseteq> C \<longrightarrow> (\<forall>k \<in> C. k < length rows \<longrightarrow> bits (rows ! k) \<subseteq> C) \<longrightarrow> bits d1 \<subseteq> C"
      "bits d1 = bits d \<longrightarrow> (\<forall>k \<in> bits d. k < length rows \<longrightarrow> k \<noteq> index \<longrightarrow> bits (rows ! k) \<subseteq> bits d)" by auto
  have loop: "propagate_loop ops rows index d previous =
      (if bits d1 = bits d then Some (d1, p) else propagate_loop ops rows index d1 p)"
    using p d1(1) bits_eq [OF d1(2) p(2)] by (subst propagate_loop.simps) simp
  show ?case
  proof (cases "bits d1 = bits d")
    case True
    with p d1 show ?thesis by (auto simp: loop least_closed_def)
  next
    case False
    with d1(3) have "card (bits d) < card (bits d1)" by (intro psubset_card_mono) auto
    moreover have "card (bits d1) \<le> w" using card_mono [OF _ bits_less [OF d1(2)]] by simp
    ultimately have "w - card (bits d1) < w - card (bits d)" by simp
    from less(1) [OF this d1(2) p(2)] obtain d' p' where rec:
      "propagate_loop ops rows index d1 p = Some (d', p')" "wide w d'" "wide w p'" "least_closed rows index d1 d'" by blast
    have "bits d' \<subseteq> C" if "bits d \<subseteq> C" "\<forall>k \<in> C. k < length rows \<longrightarrow> bits (rows ! k) \<subseteq> C" for C
      using rec(4) d1(4) that by (simp add: least_closed_def)
    with rec(4) d1(3) have "least_closed rows index d d'" by (auto simp: least_closed_def)
    with rec(1-3) False show ?thesis by (auto simp: loop)
  qed
qed

text \<open>The edges between rows, and what row \<open>i\<close> depends on through any number of them.\<close>

definition row_edges :: "'b list \<Rightarrow> (nat \<times> nat) set" where
  "row_edges rows = {(i, k). i < length rows \<and> k < length rows \<and> k \<in> bits (rows ! i)}"

definition reaches :: "'b list \<Rightarrow> nat \<Rightarrow> nat set" where
  "reaches rows i = (\<Union>k \<in> {k. (i, k) \<in> (row_edges rows)\<^sup>*}. bits (rows ! k))"

lemma reaches_direct: "bits (rows ! i) \<subseteq> reaches rows i"
  by (auto simp: reaches_def)

lemma reaches_trans:
  assumes "k \<in> reaches rows i" and "k < length rows" and "i < length rows"
  shows "reaches rows k \<subseteq> reaches rows i"
proof -
  from assms(1) obtain k' where k': "(i, k') \<in> (row_edges rows)\<^sup>*" "k \<in> bits (rows ! k')" by (auto simp: reaches_def)
  then have "k' < length rows" using assms(3) by (auto elim: rtranclE simp: row_edges_def)
  with k' assms(2) have "(i, k) \<in> (row_edges rows)\<^sup>*" by (auto simp: row_edges_def intro: rtrancl_into_rtrancl)
  then show ?thesis by (auto simp: reaches_def intro: rtrancl_trans)
qed

text \<open>The rows below \<open>m\<close> are done, the others are still between direct and full.\<close>

definition rows_inv :: "'b list \<Rightarrow> nat \<Rightarrow> nat \<Rightarrow> 'b list \<Rightarrow> bool" where
  "rows_inv rows0 w m rows \<longleftrightarrow> length rows = length rows0 \<and> (\<forall>r \<in> set rows. wide w r) \<and>
     (\<forall>i < length rows0. bits (rows0 ! i) \<subseteq> bits (rows ! i) \<and> bits (rows ! i) \<subseteq> reaches rows0 i) \<and>
     (\<forall>i < m. bits (rows ! i) = reaches rows0 i)"

lemma least_closed_reaches:
  assumes "rows_inv rows0 w m rows" and "m < length rows0" and "least_closed rows m (rows ! m) d"
  shows "bits d = reaches rows0 m"
proof
  have "bits (rows ! k) \<subseteq> reaches rows0 m" if "k \<in> reaches rows0 m" "k < length rows" for k
  proof -
    have "k < length rows0" using that(2) assms(1) by (simp add: rows_inv_def)
    then have "bits (rows ! k) \<subseteq> reaches rows0 k" using assms(1) by (simp add: rows_inv_def)
    with reaches_trans [OF that(1) \<open>k < length rows0\<close> assms(2)] show ?thesis by blast
  qed
  moreover have "bits (rows ! m) \<subseteq> reaches rows0 m" using assms(1,2) by (simp add: rows_inv_def)
  ultimately show "bits d \<subseteq> reaches rows0 m" using assms(3) by (simp add: least_closed_def)
  have "bits (rows0 ! m) \<subseteq> bits (rows ! m)" "bits (rows ! m) \<subseteq> bits d"
    using assms by (simp_all add: rows_inv_def least_closed_def)
  then have start: "bits (rows0 ! m) \<subseteq> bits d" by blast
  have "bits (rows0 ! k) \<subseteq> bits d" if "(m, k) \<in> (row_edges rows0)\<^sup>*" for k
    using that
  proof (induction rule: rtrancl_induct)
    case (step y z)
    show ?case
    proof (cases "z = m")
      case False
      from step(2,3) have z: "z < length rows0" "z \<in> bits d" by (auto simp: row_edges_def)
      with assms(1) have "bits (rows0 ! z) \<subseteq> bits (rows ! z)" "z < length rows" by (simp_all add: rows_inv_def)
      moreover from this(2) z(2) False assms(3) have "bits (rows ! z) \<subseteq> bits d" by (simp add: least_closed_def)
      ultimately show ?thesis by blast
    qed (simp add: start)
  qed (rule start)
  then show "reaches rows0 m \<subseteq> bits d" by (auto simp: reaches_def)
qed

lemma propagate_rows_result:
  assumes "\<forall>r \<in> set rows0. wide w r" and "length rows0 \<le> w" and "wide w previous" and "m \<le> length rows0"
  shows "\<exists>rows previous'. fold_m (propagate_row ops) [0..<m] (rows0, previous) = Some (rows, previous') \<and>
    wide w previous' \<and> rows_inv rows0 w m rows"
  using assms(4)
proof (induction m)
  case 0
  then show ?case using assms(1,3) reaches_direct by (simp add: rows_inv_def)
next
  case (Suc m)
  then obtain rows p where rec: "fold_m (propagate_row ops) [0..<m] (rows0, previous) = Some (rows, p)" "wide w p"
      "rows_inv rows0 w m rows" by auto
  then have rows: "length rows = length rows0" "\<forall>r \<in> set rows. wide w r" by (auto simp: rows_inv_def)
  have m: "m < length rows" using Suc.prems rows(1) by simp
  then have "wide w (rows ! m)" using rows(2) by simp
  with propagate_loop_result [OF rows(2) _ m, of "rows ! m" p] assms(2) rows(1) rec(2) obtain d p'
    where d: "propagate_loop ops rows m (rows ! m) p = Some (d, p')" "wide w d" "wide w p'"
      "least_closed rows m (rows ! m) d" by auto
  have exact: "bits d = reaches rows0 m" using least_closed_reaches [OF rec(3) _ d(4)] Suc.prems by simp
  have "\<forall>r \<in> set (rows[m := d]). wide w r" using rows(2) d(2) set_update_subset_insert [of rows m d] by auto
  then have "rows_inv rows0 w (Suc m) (rows[m := d])"
    using rec(3) m exact reaches_direct [of rows0 m]
    by (auto simp: rows_inv_def nth_list_update less_Suc_eq)
  moreover have "propagate_row ops m (rows, p) = Some (rows[m := d], p')" using d(1) m by (simp add: propagate_row_def)
  ultimately show ?case using rec(1) d(3) by simp
qed

lemma propagate_result:
  assumes "\<forall>r \<in> set (dep_rows deps). wide (length (dep_rows deps) + length (dep_constants deps)) r"
  shows "\<exists>deps'. propagate ops deps = Some deps' \<and> length (dep_rows deps') = length (dep_rows deps) \<and>
    dep_constants deps' = dep_constants deps \<and> dep_arg_count deps' = dep_arg_count deps \<and>
    (\<forall>r \<in> set (dep_rows deps'). wide (length (dep_rows deps) + length (dep_constants deps)) r) \<and>
    (\<forall>i < length (dep_rows deps). bits (dep_rows deps' ! i) = reaches (dep_rows deps) i)"
proof -
  let ?rows = "dep_rows deps" let ?w = "length ?rows + length (dep_constants deps)"
  from propagate_rows_result [OF assms _ from_elem_bits(1), of "length ?rows"] obtain rows p
    where "fold_m (propagate_row ops) [0..<length ?rows] (?rows, bv_from_elem ops ?w False) = Some (rows, p)"
      "rows_inv ?rows ?w (length ?rows) rows" by auto
  then show ?thesis by (auto simp: propagate_def rows_inv_def Let_def)
qed

text \<open>Filling the matrix.\<close>

definition filled :: "nat \<Rightarrow> nat \<Rightarrow> (nat \<Rightarrow> nat set) \<Rightarrow> 'b list \<Rightarrow> bool" where
  "filled n w B rows \<longleftrightarrow> length rows = n \<and> (\<forall>i < n. wide w (rows ! i) \<and> bits (rows ! i) = B i)"

lemma filled_bits:
  assumes "filled n w B rows"
  shows "length rows = n" and "i < n \<Longrightarrow> j < w \<Longrightarrow> bv_iter ops (rows ! i) ! j \<longleftrightarrow> j \<in> B i"
  using assms by (auto simp: filled_def bits_def wide_def)

lemma set_bit_filled:
  assumes "filled n w B rows" and "l < n" and "i < w"
  shows "\<exists>rows'. set_bit_m ops l i rows = Some rows' \<and> filled n w (B(l := insert i (B l))) rows'"
proof -
  have l: "l < length rows" "wide w (rows ! l)" "bits (rows ! l) = B l" using assms by (auto simp: filled_def)
  from set_bits [OF l(2) assms(3)] obtain x where "bv_set ops (rows ! l) i True = Some x" "wide w x"
      "bits x = insert i (B l)" using l(3) by auto
  with l(1) assms(1) show ?thesis by (auto simp: set_bit_m_def filled_def nth_list_update)
qed

lemma set_bits_filled:
  assumes "filled n w B rows" and "l < n" and "\<forall>i \<in> set is. i < w"
  shows "\<exists>rows'. fold_m (set_bit_m ops l) is rows = Some rows' \<and> filled n w (B(l := B l \<union> set is)) rows'"
  using assms(1,3)
proof (induction "is" arbitrary: B rows)
  case (Cons i "is")
  then obtain rows1 where r1: "set_bit_m ops l i rows = Some rows1" "filled n w (B(l := insert i (B l))) rows1"
    using set_bit_filled [OF _ assms(2)] by force
  have upd: "(B(l := insert i (B l)))(l := (B(l := insert i (B l))) l \<union> set is) = B(l := B l \<union> set (i # is))"
    by (simp add: fun_eq_iff)
  from Cons.IH [OF r1(2)] Cons.prems(2) obtain rows' where "fold_m (set_bit_m ops l) is rows1 = Some rows'"
      "filled n w (B(l := B l \<union> set (i # is))) rows'" unfolding upd by (metis list.set_intros(2))
  with r1(1) show ?case by (auto simp del: fun_upd_apply)
qed simp

lemma self_filled:
  assumes "filled n w (\<lambda>_. {}) rows" and "n \<le> w" and "m \<le> n"
  shows "\<exists>rows'. fold_m (\<lambda>i. set_bit_m ops i i) [0..<m] rows = Some rows' \<and>
    filled n w (\<lambda>i. if i < m then {i} else {}) rows'"
  using assms(3)
proof (induction m)
  case 0
  with assms(1) show ?case by simp
next
  case (Suc m)
  then obtain rows1 where r1: "fold_m (\<lambda>i. set_bit_m ops i i) [0..<m] rows = Some rows1"
      "filled n w (\<lambda>i. if i < m then {i} else {}) rows1" by auto
  from set_bit_filled [OF this(2), of m m] Suc.prems assms(2) obtain rows2 where
    r2: "set_bit_m ops m m rows1 = Some rows2" "filled n w ((\<lambda>i. if i < m then {i} else {})(m := {m})) rows2" by auto
  moreover have "(\<lambda>i. if i < m then {i} else {})(m := {m}) = (\<lambda>i. if i < Suc m then {i} else {})"
    by (auto simp: fun_eq_iff)
  ultimately show ?case using r1(1) by simp
qed

lemma assigns_filled:
  assumes "\<forall>(l, rv) \<in> set as. l < length (local_decls body) \<and> list_all (operand_ok body) (rv_operands rv)"
    and "filled (length (local_decls body)) (body_width body) B rows"
  shows "\<exists>rows'. fold_m (assign_local ops (length (local_decls body)) (body_constants body)) as rows = Some rows' \<and>
    filled (length (local_decls body)) (body_width body)
      (\<lambda>l. B l \<union> {operand_column body op | op rv. (l, rv) \<in> set as \<and> op \<in> set (rv_operands rv)}) rows'"
  using assms
proof (induction as arbitrary: B rows)
  case (Cons a as)
  obtain l rv where a: "a = (l, rv)" by (rule prod.exhaust)
  let ?ids = "map (operand_column body) (rv_operands rv)"
  have ok: "l < length (local_decls body)" "list_all (operand_ok body) (rv_operands rv)" using Cons.prems(1) a by auto
  have ids: "rvalue_operands (length (local_decls body)) (body_constants body) rv = Some ?ids"
    using operand_columns [OF ok(2)] by (simp add: rvalue_operands_map)
  have "\<forall>i \<in> set ?ids. i < body_width body" using ok(2) by (auto simp: list_all_iff operand_column_in_range)
  from set_bits_filled [OF Cons.prems(2) ok(1) this] obtain rows1 where
    r1: "fold_m (set_bit_m ops l) ?ids rows = Some rows1"
      "filled (length (local_decls body)) (body_width body) (B(l := B l \<union> set ?ids)) rows1" by blast
  from Cons.IH [OF _ r1(2)] Cons.prems(1) obtain rows' where
    r2: "fold_m (assign_local ops (length (local_decls body)) (body_constants body)) as rows1 = Some rows'"
      "filled (length (local_decls body)) (body_width body) (\<lambda>k. (B(l := B l \<union> set ?ids)) k \<union>
         {operand_column body op | op rv. (k, rv) \<in> set as \<and> op \<in> set (rv_operands rv)}) rows'" by auto
  have "(\<lambda>k. (B(l := B l \<union> set ?ids)) k \<union> {operand_column body op | op rv. (k, rv) \<in> set as \<and> op \<in> set (rv_operands rv)}) =
      (\<lambda>k. B k \<union> {operand_column body op | op rv. (k, rv) \<in> set (a # as) \<and> op \<in> set (rv_operands rv)})"
    unfolding a by (rule ext) auto
  with r2(2) have "filled (length (local_decls body)) (body_width body)
      (\<lambda>k. B k \<union> {operand_column body op | op rv. (k, rv) \<in> set (a # as) \<and> op \<in> set (rv_operands rv)}) rows'" by (simp only:)
  moreover have "assign_local ops (length (local_decls body)) (body_constants body) a rows = Some rows1"
    using ids r1(1) by (simp add: assign_local_def a)
  ultimately show ?case using r2(1) by (intro exI [of _ rows']) simp
qed simp

lemma direct_result:
  assumes "body_ok body"
  shows "\<exists>rows. direct_dependencies ops body =
      Some \<lparr>dep_rows = rows, dep_constants = body_constants body, dep_arg_count = arg_count body\<rparr> \<and>
    filled (length (local_decls body)) (body_width body) (direct body) rows"
proof -
  let ?n = "length (local_decls body)" let ?w = "body_width body"
  have "filled ?n ?w (\<lambda>_. {}) (replicate ?n (bv_from_elem ops ?w False))"
    by (simp add: filled_def from_elem_bits)
  from self_filled [OF this, of ?n] obtain rows1 where
    r1: "fold_m (\<lambda>i. set_bit_m ops i i) [0..<?n] (replicate ?n (bv_from_elem ops ?w False)) = Some rows1"
      "filled ?n ?w (\<lambda>i. if i < ?n then {i} else {}) rows1" by auto
  have "\<forall>(l, rv) \<in> set (local_assigns body). l < ?n \<and> list_all (operand_ok body) (rv_operands rv)"
    using assign_operands_ok [OF assms] by blast
  from assigns_filled [OF this r1(2)] obtain rows where
    r2: "fold_m (assign_local ops ?n (body_constants body)) (local_assigns body) rows1 = Some rows"
      "filled ?n ?w (\<lambda>l. (if l < ?n then {l} else {}) \<union>
         {operand_column body op | op rv. (l, rv) \<in> set (local_assigns body) \<and> op \<in> set (rv_operands rv)}) rows"
    by auto
  from r2(2) have "filled ?n ?w (direct body) rows" by (auto simp: filled_def direct_def)
  with r1(1) r2(1) show ?thesis by (simp add: direct_dependencies_def assignments_visited Let_def)
qed

lemma compute_result:
  assumes "body_ok body"
  shows "\<exists>deps. compute ops body = Some deps \<and> dep_constants deps = body_constants body \<and>
    dep_arg_count deps = arg_count body \<and>
    filled (length (local_decls body)) (body_width body) (depends body) (dep_rows deps)"
proof -
  from direct_result [OF assms] obtain rows where d: "direct_dependencies ops body =
      Some \<lparr>dep_rows = rows, dep_constants = body_constants body, dep_arg_count = arg_count body\<rparr>"
    "filled (length (local_decls body)) (body_width body) (direct body) rows" by blast
  let ?deps = "\<lparr>dep_rows = rows, dep_constants = body_constants body, dep_arg_count = arg_count body\<rparr>"
  have rows: "length rows = length (local_decls body)" "\<forall>i < length rows. bits (rows ! i) = direct body i"
      "\<forall>r \<in> set rows. wide (body_width body) r"
    using d(2) by (auto simp: filled_def in_set_conv_nth)
  have edges: "row_edges rows = dep_edges body" using rows(1,2) by (auto simp: row_edges_def dep_edges_def)
  have reach: "reaches rows l = depends body l" if "l < length rows" for l
  proof -
    have "k < length rows" if "(l, k) \<in> (dep_edges body)\<^sup>*" for k
      using that \<open>l < length rows\<close> rows(1) by (auto elim: rtranclE simp: dep_edges_def)
    then show ?thesis using rows(2) by (auto simp: reaches_def depends_def edges)
  qed
  from propagate_result [of ?deps] rows(1,3) obtain deps' where "propagate ops ?deps = Some deps'"
      "length (dep_rows deps') = length rows" "dep_constants deps' = body_constants body"
      "dep_arg_count deps' = arg_count body" "\<forall>r \<in> set (dep_rows deps'). wide (body_width body) r"
      "\<forall>i < length rows. bits (dep_rows deps' ! i) = reaches rows i" by auto
  with d(1) rows(1) reach show ?thesis by (simp add: compute_def filled_def)
qed

end

section \<open>The matrix is exact\<close>

text \<open>Bit vectors as lists.\<close>

definition list_bit_ops :: "bool list bit_ops" where
  "list_bit_ops = \<lparr>bv_from_elem = replicate, bv_set = update_m, bv_get = index_m,
     bv_or = (\<lambda>v w. if length v = length w then Some (map2 (\<or>) v w) else None),
     bv_clear = map (\<lambda>_. False), bv_eq = (=), bv_iter = (\<lambda>v. v)\<rparr>"

interpretation list_bits: bit_vector list_bit_ops
  by unfold_locales (auto simp: list_bit_ops_def map_replicate_const)

text \<open>C5. The dependency matrix: on every body the fixpoint loops of \<open>propagate\<close> end without a panic, and a
  bit of the matrix is set exactly when the variable depends on the other variable or constant through
  some chain of assignments.\<close>

theorem compute_exact:
  assumes "bit_vector ops" and "body_ok body"
  shows "\<exists>deps. compute ops body = Some deps \<and> length (dep_rows deps) = length (local_decls body) \<and>
    (\<forall>l < length (local_decls body). \<forall>j < body_width body. bv_iter ops (dep_rows deps ! l) ! j \<longleftrightarrow> j \<in> depends body l)"
  using bit_vector.compute_result [OF assms] bit_vector.filled_bits [OF assms(1)] by metis

text \<open>Two variables and the result: the argument is copied, the result is the copy plus a constant.\<close>

definition sample_body :: Body where
  "sample_body = \<lparr>
     basic_blocks =
       [\<lparr>statements = [SK_StorageLive 2, SK_Assign (local_place 2) (RV_Use (Op_Copy (local_place 1))),
           SK_Assign (local_place 0) (RV_BinaryOp ''Add'' (Op_Move (local_place 2))
             (Op_Constant \<lparr>const_ty = Ty_Primitive ''i32'', const_value = ''18''\<rparr>))],
         terminator = Some (TK_Call \<lparr>call_func = Op_Constant \<lparr>const_ty = Ty_FnDef (1, 7) ''f'', const_value = ''f''\<rparr>,
           call_args = [Op_Move (local_place 0)], call_destination = local_place 2\<rparr> (Some 1) None True []), is_cleanup = False\<rparr>,
        \<lparr>statements = [], terminator = Some TK_Return, is_cleanup = False\<rparr>],
     local_decls = [Ty_Primitive ''i32'', Ty_Primitive ''i32'', Ty_Primitive ''i32''], arg_count = 1,
     var_debug_info = [\<lparr>debug_name = ''arg1'', debug_value = VD_Place (local_place 1)\<rparr>], required_consts = []\<rparr>"

lemmas sample_parts = sample_body_def local_place_def body_assigns_def body_constants_def body_terminators_def
  local_assigns_def assign_of_def block_operands_def rvalue_operand_list_def rv_operands_def List.map_filter_def

lemma sample_body_ok: "body_ok sample_body"
  by (simp add: body_ok_def arg_ok_def sample_parts)

lemma compute_exact_witness:
  "\<exists>deps. compute list_bit_ops sample_body = Some deps \<and>
    (\<forall>j < 5. bv_iter list_bit_ops (dep_rows deps ! 0) ! j \<longleftrightarrow> j \<in> depends sample_body 0)"
  using compute_exact [OF list_bits.bit_vector_axioms sample_body_ok] by (auto simp: sample_parts)

end
