(* ===== verification/Extract_Dep.thy ===== *)
theory Extract_Dep
  imports Local_Deps
begin

text \<open>
  The second half of \<open>extract_dep.rs\<close>: the call sites of a function of a corpus program, and for every
  argument of a call the list of its sources, from the dependency matrix of \<open>Local_Deps\<close>. What the code
  asks the compiler (\<open>TyCtxt\<close>) is a record of functions.
\<close>

section \<open>The compiler\<close>

datatype DefKind = DK_Fn | DK_AssocFn | DK_Closure | DK_Generator | DK_Other opaque

record Tcx =
  def_path_str :: "DefId \<Rightarrow> string"
  def_kind :: "DefId \<Rightarrow> DefKind"
  body_owners :: "DefId list"
  optimized_mir :: "DefId \<Rightarrow> Body"

section \<open>Calls\<close>

datatype LocalCallType = LC_DirectCall DefId | LC_LocalFunctionPtr Local

record CallSite =
  site_function :: LocalCallType
  return_variable :: "Local option"
  site_return_ty :: Ty
  site_arguments :: "Operand list"
  argument_tys :: "Ty list"

definition operand_ty :: "Body \<Rightarrow> Operand \<Rightarrow> Ty run" where
  "operand_ty body op = (case op of
     Op_Copy place \<Rightarrow> index_m (local_decls body) (place_local place)
   | Op_Move place \<Rightarrow> index_m (local_decls body) (place_local place)
   | Op_Constant c \<Rightarrow> Some (const_ty c))"

text \<open>The inner \<open>None\<close> is the early \<open>return\<close>, for a constant that is a constructor or the like.\<close>

definition call_type_of :: "Tcx \<Rightarrow> Operand \<Rightarrow> LocalCallType option run" where
  "call_type_of tcx op = (case op of
     Op_Copy place \<Rightarrow> Some (Some (LC_LocalFunctionPtr (place_local place)))
   | Op_Move place \<Rightarrow> Some (Some (LC_LocalFunctionPtr (place_local place)))
   | Op_Constant c \<Rightarrow>
       (case const_ty c of
          Ty_FnDef d _ \<Rightarrow>
            Some (case def_kind tcx d of
                DK_Fn \<Rightarrow> Some (LC_DirectCall d)
              | DK_AssocFn \<Rightarrow> Some (LC_DirectCall d)
              | _ \<Rightarrow> None)
        | _ \<Rightarrow> None))"

definition visit_call :: "Tcx \<Rightarrow> Body \<Rightarrow> Call \<Rightarrow> CallSite list \<Rightarrow> CallSite list run" where
  "visit_call tcx body c callsites =
     do { r \<leftarrow> call_type_of tcx (call_func c);
          case r of
            None \<Rightarrow> Some callsites
          | Some f \<Rightarrow>
              do { return_ty \<leftarrow> index_m (local_decls body) (place_local (call_destination c));
                   tys \<leftarrow> map_m (operand_ty body) (call_args c);
                   Some (callsites @ [\<lparr>site_function = f, return_variable = Some (place_local (call_destination c)),
                     site_return_ty = return_ty, site_arguments = call_args c, argument_tys = tys\<rparr>]) } }"

definition SearchFunctionCall_visitor :: "Tcx \<Rightarrow> Body \<Rightarrow> CallSite list Visitor" where
  "SearchFunctionCall_visitor tcx caller =
     default_visitor\<lparr>visit_terminator := (\<lambda>t. case t of TK_Call c _ _ _ _ \<Rightarrow> visit_call tcx caller c | _ \<Rightarrow> Some)\<rparr>"

definition extract_function_call :: "Tcx \<Rightarrow> Body \<Rightarrow> CallSite list run" where
  "extract_function_call tcx body = super_body (SearchFunctionCall_visitor tcx body) body []"

record FnArgument =
  arg_local :: Local
  arg_symbol :: "Symbol option"
  arg_ty :: Ty

definition get_name_by_local :: "Body \<Rightarrow> Local \<Rightarrow> Symbol option" where
  "get_name_by_local body l = map_option debug_name (List.find (\<lambda>debug.
     case debug_value debug of VD_Place place \<Rightarrow> place_local place = l | _ \<Rightarrow> False) (var_debug_info body))"

definition extract_arguments :: "Body \<Rightarrow> FnArgument list run" where
  "extract_arguments body =
     map_m (\<lambda>l. do { ty \<leftarrow> index_m (local_decls body) l;
                     Some \<lparr>arg_local = l, arg_symbol = get_name_by_local body l, arg_ty = ty\<rparr> })
       [1..<arg_count body + 1]"

definition is_callable :: "Ty \<Rightarrow> bool" where
  "is_callable t = (case t of Ty_FnDef _ _ \<Rightarrow> True | Ty_FnPtr _ \<Rightarrow> True | Ty_Closure _ \<Rightarrow> True | _ \<Rightarrow> False)"

section \<open>Sources of the arguments\<close>

datatype Source = Src_FunctionId Ty | Src_Argument Local | Src_ReturnVariable DefId

datatype Callee = Callee_DirectCall DefId | Callee_LocalFunctionPtr "Source list"

record CalleeDependency =
  arg_sources :: "(nat \<times> Source list) list"
  cd_callee :: Callee
  cd_callsite :: CallSite

record FnInfo =
  fn_return_ty :: Ty
  fn_arguments :: "FnArgument list"
  fn_return_deps :: "Source list"
  callee_dependencies :: "CalleeDependency list"
  fn_mir :: Body

definition dependency_source :: "DefId \<Rightarrow> Body \<Rightarrow> CallSite list \<Rightarrow> DependencyType \<Rightarrow> Source option" where
  "dependency_source caller body callsites dep = (case dep of
     Dep_Return \<Rightarrow> Some (Src_ReturnVariable caller)
   | Dep_Argument l \<Rightarrow> Some (Src_Argument l)
   | Dep_Local l \<Rightarrow>
       (case List.find (\<lambda>s. return_variable s = Some l) callsites of
          None \<Rightarrow> None
        | Some s \<Rightarrow>
            (case site_function s of
               LC_DirectCall callee \<Rightarrow> Some (Src_ReturnVariable callee)
             | LC_LocalFunctionPtr p \<Rightarrow> if p \<le> arg_count body then Some (Src_Argument p) else None))
   | Dep_Constant c \<Rightarrow> if is_callable (const_ty c) then Some (Src_FunctionId (const_ty c)) else None)"

definition get_origins ::
  "'b bit_ops \<Rightarrow> 'b LocalDependencies \<Rightarrow> DefId \<Rightarrow> Body \<Rightarrow> CallSite list \<Rightarrow> Local \<Rightarrow> Source list run" where
  "get_origins ops deps caller body callsites l =
     do { ds \<leftarrow> dependencies ops deps l; Some (List.map_filter (dependency_source caller body callsites) ds) }"

definition sources_of_arg :: "(Local \<Rightarrow> Source list run) \<Rightarrow> Operand \<Rightarrow> Source list run" where
  "sources_of_arg origins op = (case op of
     Op_Copy place \<Rightarrow> origins (place_local place)
   | Op_Move place \<Rightarrow> origins (place_local place)
   | Op_Constant c \<Rightarrow> Some (if is_callable (const_ty c) then [Src_FunctionId (const_ty c)] else []))"

definition callee_dependency :: "(Local \<Rightarrow> Source list run) \<Rightarrow> CallSite \<Rightarrow> CalleeDependency run" where
  "callee_dependency origins site =
     do { srcs \<leftarrow> map_m (sources_of_arg origins) (site_arguments site);
          callee \<leftarrow> (case site_function site of
              LC_DirectCall d \<Rightarrow> Some (Callee_DirectCall d)
            | LC_LocalFunctionPtr p \<Rightarrow> map_option Callee_LocalFunctionPtr (origins p));
          Some \<lparr>arg_sources = enumerate 1 srcs, cd_callee = callee, cd_callsite = site\<rparr> }"

definition analyse_body :: "'b bit_ops \<Rightarrow> Tcx \<Rightarrow> DefId \<Rightarrow> Body \<Rightarrow> FnInfo run" where
  "analyse_body ops tcx caller body =
     do { return_ty \<leftarrow> index_m (local_decls body) 0;
          arguments \<leftarrow> extract_arguments body;
          callsites \<leftarrow> extract_function_call tcx body;
          deps \<leftarrow> compute ops body;
          let origins = get_origins ops deps caller body callsites;
          return_deps \<leftarrow> origins 0;
          callees \<leftarrow> map_m (callee_dependency origins) callsites;
          Some \<lparr>fn_return_ty = return_ty, fn_arguments = arguments, fn_return_deps = return_deps,
            callee_dependencies = callees, fn_mir = body\<rparr> }"

text \<open>The hash map of the result is the list of its entries, in the order of insertion.\<close>

definition extract_all_dependencies :: "'b bit_ops \<Rightarrow> Tcx \<Rightarrow> (DefId \<times> FnInfo) list run" where
  "extract_all_dependencies ops tcx =
     fold_m (\<lambda>d fns.
        if def_kind tcx d \<in> {DK_Fn, DK_AssocFn, DK_Closure, DK_Generator} then
          do { info \<leftarrow> analyse_body ops tcx d (optimized_mir tcx d);
               if map_of fns d = None then Some (fns @ [(d, info)]) else None }
        else Some fns) (body_owners tcx) []"

section \<open>Where values come from\<close>

text \<open>Where the value of a variable can come from.\<close>

text \<open>The first call that writes to a variable.\<close>

definition provider :: "CallSite list \<Rightarrow> Local \<Rightarrow> CallSite \<Rightarrow> bool" where
  "provider callsites l s \<longleftrightarrow> (\<exists>before after. callsites = before @ s # after \<and> return_variable s = Some l \<and>
     (\<forall>b \<in> set before. return_variable b \<noteq> Some l))"

inductive origin :: "DefId \<Rightarrow> Body \<Rightarrow> CallSite list \<Rightarrow> Local \<Rightarrow> Source \<Rightarrow> bool" for caller body callsites l where
  result: "0 \<in> depends body l \<Longrightarrow> origin caller body callsites l (Src_ReturnVariable caller)"
| argument: "j \<in> depends body l \<Longrightarrow> 0 < j \<Longrightarrow> j \<le> arg_count body \<Longrightarrow> origin caller body callsites l (Src_Argument j)"
| call: "j \<in> depends body l \<Longrightarrow> arg_count body < j \<Longrightarrow> j < length (local_decls body) \<Longrightarrow> provider callsites j s \<Longrightarrow>
    site_function s = LC_DirectCall d \<Longrightarrow> origin caller body callsites l (Src_ReturnVariable d)"
| pointer: "j \<in> depends body l \<Longrightarrow> arg_count body < j \<Longrightarrow> j < length (local_decls body) \<Longrightarrow> provider callsites j s \<Longrightarrow>
    site_function s = LC_LocalFunctionPtr p \<Longrightarrow> p \<le> arg_count body \<Longrightarrow> origin caller body callsites l (Src_Argument p)"
| callable: "j \<in> depends body l \<Longrightarrow> length (local_decls body) \<le> j \<Longrightarrow>
    c = body_constants body ! (j - length (local_decls body)) \<Longrightarrow> is_callable (const_ty c) \<Longrightarrow>
    origin caller body callsites l (Src_FunctionId (const_ty c))"

definition origin_set :: "DefId \<Rightarrow> Body \<Rightarrow> CallSite list \<Rightarrow> Local \<Rightarrow> Source set" where
  "origin_set caller body callsites l = {s. origin caller body callsites l s}"

definition operand_origins :: "DefId \<Rightarrow> Body \<Rightarrow> CallSite list \<Rightarrow> Operand \<Rightarrow> Source set" where
  "operand_origins caller body callsites op = (case op of
     Op_Copy place \<Rightarrow> origin_set caller body callsites (place_local place)
   | Op_Move place \<Rightarrow> origin_set caller body callsites (place_local place)
   | Op_Constant c \<Rightarrow> (if is_callable (const_ty c) then {Src_FunctionId (const_ty c)} else {}))"

text \<open>The sources of the arguments of a call, numbered from 1, are exactly their origins.\<close>

definition sourced :: "DefId \<Rightarrow> Body \<Rightarrow> CallSite list \<Rightarrow> CalleeDependency \<Rightarrow> bool" where
  "sourced caller body callsites cd \<longleftrightarrow>
     map fst (arg_sources cd) = [1..<Suc (length (site_arguments (cd_callsite cd)))] \<and>
     map (\<lambda>a. set (snd a)) (arg_sources cd) = map (operand_origins caller body callsites) (site_arguments (cd_callsite cd))"

text \<open>The calls of the body: a constant that is called is a function, and variables are declared.\<close>

definition call_of :: "TerminatorKind \<Rightarrow> Call option" where
  "call_of t = (case t of TK_Call c _ _ _ _ \<Rightarrow> Some c | _ \<Rightarrow> None)"

definition body_calls :: "Body \<Rightarrow> Call list" where
  "body_calls body = List.map_filter call_of (body_terminators body)"

definition calls_ok :: "Body \<Rightarrow> bool" where
  "calls_ok body \<longleftrightarrow> (\<forall>c \<in> set (body_calls body). list_all (arg_ok body) (call_args c) \<and>
     place_local (call_destination c) < length (local_decls body) \<and>
     (case call_func c of Op_Constant k \<Rightarrow> (\<exists>d x. const_ty k = Ty_FnDef d x) | op \<Rightarrow> arg_ok body op))"

definition site_ok :: "Body \<Rightarrow> CallSite \<Rightarrow> bool" where
  "site_ok body s \<longleftrightarrow> list_all (arg_ok body) (site_arguments s) \<and>
     (\<forall>p. site_function s = LC_LocalFunctionPtr p \<longrightarrow> p < length (local_decls body))"

lemma find_provider: "List.find (\<lambda>s. return_variable s = Some l) callsites = Some s \<longleftrightarrow> provider callsites l s"
proof (induction callsites)
  case (Cons x callsites)
  have "provider (x # callsites) l s" if "provider callsites l s" "return_variable x \<noteq> Some l"
  proof -
    from that(1) obtain before after where "callsites = before @ s # after" "return_variable s = Some l"
        "\<forall>b \<in> set before. return_variable b \<noteq> Some l" by (auto simp: provider_def)
    with that(2) show ?thesis unfolding provider_def by (intro exI [of _ "x # before"] exI [of _ after]) simp
  qed
  then have "provider (x # callsites) l s \<longleftrightarrow>
      (if return_variable x = Some l then s = x else provider callsites l s)"
    by (auto simp: provider_def Cons_eq_append_conv)
  with Cons.IH show ?case by auto
qed (simp add: provider_def)

lemma origin_set_sources:
  assumes "arg_count body < length (local_decls body)"
  shows "origin_set caller body callsites l =
    {s. \<exists>j \<in> depends body l. dependency_source caller body callsites (column_kind body j) = Some s}"
proof -
  have "dependency_source caller body callsites (column_kind body j) = Some s \<Longrightarrow> origin caller body callsites l s"
    if "j \<in> depends body l" for j s
    using that
    by (auto simp: dependency_source_def column_kind_def find_provider intro: origin.intros
        split: if_splits option.splits LocalCallType.splits)
  moreover have "\<exists>j \<in> depends body l. dependency_source caller body callsites (column_kind body j) = Some s"
    if "origin caller body callsites l s" for s
    using that
  proof cases
    case (call j s' d)
    then show ?thesis using find_provider [of j callsites s']
      by (intro bexI [of _ j]) (auto simp: dependency_source_def column_kind_def)
  next
    case (pointer j s' p)
    then show ?thesis using find_provider [of j callsites s']
      by (intro bexI [of _ j]) (auto simp: dependency_source_def column_kind_def)
  next
    case result
    then show ?thesis by (intro bexI [of _ 0]) (simp_all add: dependency_source_def column_kind_def)
  next
    case (argument j)
    then show ?thesis by (intro bexI [of _ j]) (simp_all add: dependency_source_def column_kind_def)
  next
    case (callable j c)
    then show ?thesis using assms by (intro bexI [of _ j]) (simp_all add: dependency_source_def column_kind_def)
  qed
  ultimately show ?thesis by (auto simp: origin_set_def)
qed

lemma operand_ty_no_panic: "arg_ok body op \<Longrightarrow> operand_ty body op \<noteq> None"
  by (cases op) (auto simp: arg_ok_def operand_ty_def)

lemma visit_call_result:
  assumes "list_all (arg_ok body) (call_args c)" and "place_local (call_destination c) < length (local_decls body)"
    and "case call_func c of Op_Constant k \<Rightarrow> (\<exists>d x. const_ty k = Ty_FnDef d x) | op \<Rightarrow> arg_ok body op"
    and "list_all (site_ok body) sites"
  shows "\<exists>sites'. visit_call tcx body c sites = Some sites' \<and> list_all (site_ok body) sites'"
proof -
  obtain r where r: "call_type_of tcx (call_func c) = Some r"
      "\<forall>p. r = Some (LC_LocalFunctionPtr p) \<longrightarrow> p < length (local_decls body)"
    using assms(3) by (cases "call_func c") (auto simp: call_type_of_def arg_ok_def split: DefKind.splits)
  from assms(1) have "map_m (operand_ty body) (call_args c) \<noteq> None"
    by (intro map_m_no_panic operand_ty_no_panic) (simp add: list_all_iff)
  then obtain tys where "map_m (operand_ty body) (call_args c) = Some tys" by blast
  with r assms(1,2,4) show ?thesis by (auto simp: visit_call_def site_ok_def split: option.splits)
qed

lemma calls_visited: "extract_function_call tcx body = fold_m (visit_call tcx body) (body_calls body) []"
proof -
  have "visit_terminator (SearchFunctionCall_visitor tcx body) =
      (\<lambda>t. case call_of t of None \<Rightarrow> Some | Some c \<Rightarrow> visit_call tcx body c)"
    by (intro ext) (simp add: SearchFunctionCall_visitor_def call_of_def split: TerminatorKind.split)
  moreover have "visit_constant (SearchFunctionCall_visitor tcx body) = (\<lambda>c. Some)"
      "visit_assign (SearchFunctionCall_visitor tcx body) = (\<lambda>place rv. Some)"
    by (simp_all add: SearchFunctionCall_visitor_def default_visitor_def)
  ultimately show ?thesis
    by (simp add: extract_function_call_def terminators_visited body_calls_def fold_m_map_filter)
qed

lemma extract_calls_result:
  assumes "calls_ok body"
  shows "\<exists>sites. extract_function_call tcx body = Some sites \<and> list_all (site_ok body) sites"
  unfolding calls_visited
proof (rule fold_m_no_panic)
  show "\<exists>sites'. visit_call tcx body c sites = Some sites' \<and> list_all (site_ok body) sites'"
    if "c \<in> set (body_calls body)" "list_all (site_ok body) sites" for c sites
    using assms that unfolding calls_ok_def by (intro visit_call_result) auto
qed simp

context bit_vector begin

lemma origins_result:
  assumes "filled (length (local_decls body)) (body_width body) (depends body) (dep_rows deps)"
    and "dep_constants deps = body_constants body" and "dep_arg_count deps = arg_count body"
    and "l < length (local_decls body)" and "arg_count body < length (local_decls body)"
  shows "\<exists>srcs. get_origins ops deps caller body callsites l = Some srcs \<and>
    set srcs = origin_set caller body callsites l"
proof -
  let ?n = "length (local_decls body)" let ?row = "dep_rows deps ! l"
  let ?cols = "map fst (filter snd (enumerate 0 (bv_iter ops ?row)))"
  have row: "l < length (dep_rows deps)" "length (dep_rows deps) = ?n" "wide (body_width body) ?row"
      "bits ?row = depends body l"
    using assms(1,4) by (auto simp: filled_def)
  have cols: "set ?cols = depends body l"
    unfolding row(4) [symmetric] by (force simp: bits_def in_set_enumerate_eq image_iff)
  have "dependency_type deps j = Some (column_kind body j)" if "j \<in> set ?cols" for j
    using bits_less [OF row(3)] that unfolding cols row(4) [symmetric]
    by (auto simp: dependency_type_def column_kind_def assms(2,3) row(2))
  then have "map_m (dependency_type deps) ?cols = map_m (\<lambda>j. Some (column_kind body j)) ?cols"
    by (intro map_m_cong) auto
  then have run: "dependencies ops deps l = Some (map (column_kind body) ?cols)"
    using row(1) by (simp add: dependencies_def)
  have "set (List.map_filter f (map (column_kind body) xs)) = {s. \<exists>j \<in> set xs. f (column_kind body j) = Some s}"
    for f :: "DependencyType \<Rightarrow> Source option" and xs
    by (force simp: List.map_filter_def)
  from this [of _ ?cols, unfolded cols] show ?thesis
    unfolding get_origins_def run origin_set_sources [OF assms(5)] by simp
qed

lemma site_sources:
  assumes "filled (length (local_decls body)) (body_width body) (depends body) (dep_rows deps)"
    and "dep_constants deps = body_constants body" and "dep_arg_count deps = arg_count body"
    and "site_ok body s" and "arg_count body < length (local_decls body)"
  shows "\<exists>cd. callee_dependency (get_origins ops deps caller body sites) s = Some cd \<and> cd_callsite cd = s \<and>
    sourced caller body sites cd"
proof -
  let ?o = "get_origins ops deps caller body sites"
  note origins = origins_result [OF assms(1-3) _ assms(5), of _ caller sites]
  have src: "\<exists>srcs. sources_of_arg ?o op = Some srcs \<and> set srcs = operand_origins caller body sites op"
    if "arg_ok body op" for op
    using that origins by (cases op) (auto simp: sources_of_arg_def operand_origins_def arg_ok_def)
  have "\<exists>srcss. map_m (sources_of_arg ?o) ops' = Some srcss \<and> map set srcss = map (operand_origins caller body sites) ops'"
    if "list_all (arg_ok body) ops'" for ops'
    using that
  proof (induction ops')
    case (Cons op ops')
    then show ?case using src [of op] by auto
  qed simp
  then obtain srcss where srcss: "map_m (sources_of_arg ?o) (site_arguments s) = Some srcss"
      "map set srcss = map (operand_origins caller body sites) (site_arguments s)"
    using assms(4) by (auto simp: site_ok_def)
  have callee: "\<exists>c. (case site_function s of LC_DirectCall d \<Rightarrow> Some (Callee_DirectCall d)
      | LC_LocalFunctionPtr p \<Rightarrow> map_option Callee_LocalFunctionPtr (?o p)) = Some c"
    using assms(4) origins by (cases "site_function s") (auto simp: site_ok_def)
  then obtain c where "(case site_function s of LC_DirectCall d \<Rightarrow> Some (Callee_DirectCall d)
      | LC_LocalFunctionPtr p \<Rightarrow> map_option Callee_LocalFunctionPtr (?o p)) = Some c" by blast
  moreover have "length srcss = length (site_arguments s)" using map_m_length [OF srcss(1)] .
  moreover have "map (\<lambda>a. set (snd a)) (enumerate 1 srcss) = map set srcss"
    using list.map_comp [of set snd "enumerate 1 srcss"] by (simp add: comp_def)
  ultimately show ?thesis using srcss by (simp add: callee_dependency_def sourced_def)
qed

lemma body_analysed:
  assumes "body_ok body" and "calls_ok body"
  shows "\<exists>info sites. analyse_body ops tcx caller body = Some info \<and> extract_function_call tcx body = Some sites \<and>
    map cd_callsite (callee_dependencies info) = sites \<and>
    set (fn_return_deps info) = origin_set caller body sites 0 \<and>
    (\<forall>cd \<in> set (callee_dependencies info). sourced caller body sites cd)"
proof -
  from compute_result [OF assms(1)] obtain deps where deps: "compute ops body = Some deps"
      "dep_constants deps = body_constants body" "dep_arg_count deps = arg_count body"
      "filled (length (local_decls body)) (body_width body) (depends body) (dep_rows deps)" by blast
  from extract_calls_result [OF assms(2)] obtain sites where sites: "extract_function_call tcx body = Some sites"
      "list_all (site_ok body) sites" by blast
  let ?o = "get_origins ops deps caller body sites"
  have n: "0 < length (local_decls body)" "arg_count body < length (local_decls body)" using assms(1) by (auto simp: body_ok_def)
  have "extract_arguments body \<noteq> None"
    unfolding extract_arguments_def using n(2) by (intro map_m_no_panic) auto
  then obtain args where args: "extract_arguments body = Some args" by blast
  from origins_result [OF deps(4,2,3) n, of caller sites] obtain ret where
    ret: "?o 0 = Some ret" "set ret = origin_set caller body sites 0" by blast
  have "\<exists>cds. map_m (callee_dependency ?o) ss = Some cds \<and> map cd_callsite cds = ss \<and> (\<forall>cd \<in> set cds. sourced caller body sites cd)"
    if "list_all (site_ok body) ss" for ss
    using that
  proof (induction ss)
    case (Cons s ss)
    from site_sources [OF deps(4,2,3) _ n(2), of s caller sites] Cons.prems obtain cd where
      "callee_dependency ?o s = Some cd" "cd_callsite cd = s" "sourced caller body sites cd" by auto
    with Cons show ?case by auto
  qed simp
  with sites(2) obtain cds where cds: "map_m (callee_dependency ?o) sites = Some cds" "map cd_callsite cds = sites"
      "\<forall>cd \<in> set cds. sourced caller body sites cd" by blast
  show ?thesis
    using n(1) args sites(1) deps(1) ret cds by (simp add: analyse_body_def Let_def)
qed

end

section \<open>The analysis is exact\<close>

text \<open>C13. The sources of call arguments: the analysis of a body returns, lists its call sites in order, and
  the sources of every argument are exactly the arguments of the caller, results of calls and callable
  constants that the argument depends on.\<close>

theorem analyse_body_exact:
  assumes "bit_vector ops" and "body_ok body" and "calls_ok body"
  shows "\<exists>info sites. analyse_body ops tcx caller body = Some info \<and> extract_function_call tcx body = Some sites \<and>
    map cd_callsite (callee_dependencies info) = sites \<and>
    set (fn_return_deps info) = origin_set caller body sites 0 \<and>
    (\<forall>cd \<in> set (callee_dependencies info). sourced caller body sites cd)"
  by (rule bit_vector.body_analysed [OF assms])

definition sample_tcx :: Tcx where
  "sample_tcx = \<lparr>def_path_str = (\<lambda>d. if d = (1, 7) then ''lib::f'' else ''main''), def_kind = (\<lambda>d. DK_Fn),
     body_owners = [(0, 1)], optimized_mir = (\<lambda>d. sample_body)\<rparr>"

lemma sample_calls_ok: "calls_ok sample_body"
  by (simp add: calls_ok_def body_calls_def call_of_def arg_ok_def sample_parts)

lemma analyse_body_exact_witness:
  "\<exists>info. analyse_body list_bit_ops sample_tcx (0, 1) sample_body = Some info \<and> length (callee_dependencies info) = 1"
proof -
  have "extract_function_call sample_tcx sample_body = Some sites \<Longrightarrow> length sites = 1" for sites
    by (auto simp: calls_visited body_calls_def call_of_def visit_call_def call_type_of_def sample_tcx_def operand_ty_def sample_parts)
  moreover have "length (callee_dependencies info) = length (map cd_callsite (callee_dependencies info))" for info by simp
  ultimately show ?thesis
    using analyse_body_exact [OF list_bits.bit_vector_axioms sample_body_ok sample_calls_ok, of sample_tcx "(0, 1)"] by metis
qed

end
