(* ===== verification/Extract_Info.thy ===== *)
theory Extract_Info
  imports Extract_Dep File_Util
begin

text \<open>
  \<open>extract_info.rs\<close>: what a corpus program does with the functions of the tested crate. \<open>extract_sequence\<close>
  walks the call graph and cuts the calls to the crate into sequences; \<open>extract_info\<close> counts calls,
  pairs of neighbouring calls and pairs where one result is an argument of the other. The entries of
  \<open>AllDependencies\<close> are a list, in the order in which the source happens to iterate over the hash map;
  the regular expression that strips generic arguments from names is an argument of the printers.
\<close>

type_synonym all_dependencies = "(DefId \<times> FnInfo) list"

text \<open>A caller: the callee variant of \<open>FunctionInfo\<close> is only tested for presence.\<close>

record FunctionInfo =
  fi_def_id :: DefId
  fi_mir :: Body
  fi_return_ty :: Ty
  fi_arguments :: "FnArgument list"
  fi_dependency_info :: FnInfo

definition new_by_caller_def_id :: "Tcx \<Rightarrow> DefId \<Rightarrow> FnInfo \<Rightarrow> all_dependencies \<Rightarrow> FunctionInfo run" where
  "new_by_caller_def_id tcx d function fns =
     do { let mir = fn_mir function;
          return_ty \<leftarrow> index_m (local_decls mir) 0;
          arguments \<leftarrow> extract_arguments mir;
          (_, dependency_info) \<leftarrow> List.find (\<lambda>(x, _). def_path_str tcx x = def_path_str tcx d) fns;
          Some \<lparr>fi_def_id = d, fi_mir = mir, fi_return_ty = return_ty, fi_arguments = arguments,
            fi_dependency_info = dependency_info\<rparr> }"

text \<open>Is there a body of that name in the current crate?\<close>

definition new_by_callee_def_id :: "Tcx \<Rightarrow> DefId \<Rightarrow> DefId option" where
  "new_by_callee_def_id tcx d = List.find (\<lambda>x. def_path_str tcx x = def_path_str tcx d) (body_owners tcx)"

definition is_primitive_ty :: "Ty \<Rightarrow> bool" where
  "is_primitive_ty t = (case t of Ty_Primitive _ \<Rightarrow> True | _ \<Rightarrow> False)"

section \<open>Sequences\<close>

record seq_state =
  all_seq :: "string list list"
  func_seq :: "string list"
  dfs_stack :: "FunctionInfo list"

definition cut_sequence :: "seq_state \<Rightarrow> seq_state" where
  "cut_sequence st = st\<lparr>all_seq := all_seq st @ [func_seq st], func_seq := []\<rparr>"

text \<open>One callee. The top of the stack is the head of the list.\<close>

definition visit_callee ::
  "Tcx \<Rightarrow> string \<Rightarrow> all_dependencies \<Rightarrow> string set \<Rightarrow> CalleeDependency \<Rightarrow> seq_state \<Rightarrow> seq_state run" where
  "visit_callee tcx test_crate_name fns visit_set cd st =
     (case cd_callee cd of
        Callee_LocalFunctionPtr _ \<Rightarrow> Some st
      | Callee_DirectCall d \<Rightarrow>
          let st1 = (if list_all is_primitive_ty (argument_tys (cd_callsite cd)) \<and> func_seq st \<noteq> []
                     then cut_sequence st else st);
              callee_name = def_path_str tcx d
          in if starts_with callee_name test_crate_name then
               let st2 = st1\<lparr>func_seq := func_seq st1 @ [callee_name]\<rparr>
               in Some (if is_primitive_ty (site_return_ty (cd_callsite cd)) then cut_sequence st2 else st2)
             else if new_by_callee_def_id tcx d \<noteq> None \<and> callee_name \<notin> visit_set then
               do { function \<leftarrow> map_of fns d;
                    info \<leftarrow> new_by_caller_def_id tcx d function fns;
                    Some (st1\<lparr>dfs_stack := info # dfs_stack st1\<rparr>) }
             else Some st1)"

definition info_name :: "Tcx \<Rightarrow> FunctionInfo \<Rightarrow> string" where
  "info_name tcx info = def_path_str tcx (fi_def_id info)"

definition fns_names :: "Tcx \<Rightarrow> all_dependencies \<Rightarrow> string set" where
  "fns_names tcx fns = (\<lambda>(d, _). def_path_str tcx d) ` set fns"

lemma new_by_caller_info:
  assumes "new_by_caller_def_id tcx d f fns = Some info"
  shows "fi_def_id info = d \<and> info_name tcx info = def_path_str tcx d \<and> def_path_str tcx d \<in> fns_names tcx fns \<and>
    (\<exists>x. (x, fi_dependency_info info) \<in> set fns \<and> def_path_str tcx x = def_path_str tcx d)"
proof -
  from assms obtain x dep where
    find: "List.find (\<lambda>(x, _). def_path_str tcx x = def_path_str tcx d) fns = Some (x, dep)"
    and info: "fi_def_id info = d" "fi_dependency_info info = dep"
    by (auto simp: new_by_caller_def_id_def bind_eq_Some_conv Let_def)
  from find have "(x, dep) \<in> set fns" "def_path_str tcx x = def_path_str tcx d"
    by (auto simp: find_Some_iff simp: in_set_conv_nth)
  then show ?thesis by (cases x) (force simp: info info_name_def fns_names_def image_iff)
qed

lemma cut_sequence_stack [simp]: "dfs_stack (cut_sequence st) = dfs_stack st"
  by (simp add: cut_sequence_def)

definition pushes :: "Tcx \<Rightarrow> all_dependencies \<Rightarrow> string set \<Rightarrow> FunctionInfo list \<Rightarrow> FunctionInfo list \<Rightarrow> bool" where
  "pushes tcx fns visit old now =
     (\<exists>new. now = new @ old \<and> info_name tcx ` set new \<subseteq> fns_names tcx fns - visit)"

lemma pushes_refl: "pushes tcx fns visit old old"
  by (simp add: pushes_def)

lemma pushes_trans: "pushes tcx fns visit a b \<Longrightarrow> pushes tcx fns visit b c \<Longrightarrow> pushes tcx fns visit a c"
proof -
  assume "pushes tcx fns visit a b" "pushes tcx fns visit b c"
  then obtain new1 new2 where "c = (new2 @ new1) @ a"
      "info_name tcx ` set (new2 @ new1) \<subseteq> fns_names tcx fns - visit"
    unfolding pushes_def by (metis append_assoc image_Un set_append Un_least)
  then show ?thesis unfolding pushes_def by blast
qed

lemma visit_callee_pushes:
  assumes "visit_callee tcx t fns visit cd st = Some st'"
  shows "pushes tcx fns visit (dfs_stack st) (dfs_stack st')"
proof (cases "dfs_stack st' = dfs_stack st")
  case False
  with assms obtain d f info where "def_path_str tcx d \<notin> visit"
    and info: "new_by_caller_def_id tcx d f fns = Some info" "dfs_stack st' = info # dfs_stack st"
    by (auto simp: visit_callee_def Let_def bind_eq_Some_conv split: Callee.splits if_splits)
  with new_by_caller_info [OF info(1)] show ?thesis
    by (auto simp: pushes_def intro!: exI [of _ "[info]"])
qed (simp add: pushes_refl)

lemma visit_callees_push:
  assumes "fold_m (visit_callee tcx t fns visit) cds st = Some st'"
  shows "pushes tcx fns visit (dfs_stack st) (dfs_stack st')"
  using assms
proof (induction cds arbitrary: st)
  case (Cons cd cds)
  then obtain st1 where "visit_callee tcx t fns visit cd st = Some st1" "fold_m (visit_callee tcx t fns visit) cds st1 = Some st'"
    by (auto split: bind_splits)
  with Cons.IH visit_callee_pushes pushes_trans show ?case by blast
qed (simp add: pushes_refl)

text \<open>The depth-first search: the stack may hold a function twice, but only functions that were not
  visited when they were pushed.\<close>

function sequence_dfs ::
  "Tcx \<Rightarrow> string \<Rightarrow> all_dependencies \<Rightarrow> string set \<Rightarrow> seq_state \<Rightarrow> (string set \<times> seq_state) run" where
  "sequence_dfs tcx test_crate_name fns visit_set st =
     (case dfs_stack st of
        [] \<Rightarrow> Some (visit_set, st)
      | info # stack \<Rightarrow>
          Option.bind (fold_m (visit_callee tcx test_crate_name fns (insert (info_name tcx info) visit_set))
              (callee_dependencies (fi_dependency_info info)) (st\<lparr>dfs_stack := stack\<rparr>))
            (sequence_dfs tcx test_crate_name fns (insert (info_name tcx info) visit_set)))"
  by pat_completeness auto
termination
proof (relation "inv_image (less_than <*lex*> less_than)
    (\<lambda>(tcx, t, fns, visit, st).
      (card ((fns_names tcx fns \<union> info_name tcx ` set (dfs_stack st)) - visit),
       length (filter (\<lambda>i. info_name tcx i \<in> visit) (dfs_stack st))))", goal_cases)
  case 1
  show ?case by (intro wf_inv_image wf_lex_prod wf_less_than)
next
  case (2 tcx t fns visit st info stack st')
  let ?n = "info_name tcx info" let ?visit = "insert ?n visit"
  from visit_callees_push [OF 2(2)] obtain new where
    new: "dfs_stack st' = new @ stack" "info_name tcx ` set new \<subseteq> fns_names tcx fns - ?visit"
    by (auto simp: pushes_def)
  let ?old = "(fns_names tcx fns \<union> info_name tcx ` set (dfs_stack st)) - visit"
  let ?now = "(fns_names tcx fns \<union> info_name tcx ` set (dfs_stack st')) - ?visit"
  have sub: "?now \<subseteq> ?old - {?n}" using new 2(1) by auto
  have fin: "finite ?old" by (simp add: fns_names_def)
  show ?case
  proof (cases "?n \<in> visit")
    case False
    then have "?n \<in> ?old" using 2(1) by simp
    with sub fin have "card ?now < card ?old" by (intro psubset_card_mono) auto
    then show ?thesis by simp
  next
    case True
    have "card ?now \<le> card ?old" using sub fin by (intro card_mono) auto
    moreover have "filter (\<lambda>i. info_name tcx i \<in> ?visit) new = []" using new(2) by (auto simp: filter_empty_conv)
    then have "length (filter (\<lambda>i. info_name tcx i \<in> ?visit) (dfs_stack st')) <
        length (filter (\<lambda>i. info_name tcx i \<in> visit) (dfs_stack st))"
      using new(1) 2(1) True by (simp add: insert_absorb)
    ultimately show ?thesis by auto
  qed
qed

declare sequence_dfs.simps [simp del]

definition sequences_of ::
  "Tcx \<Rightarrow> string \<Rightarrow> all_dependencies \<Rightarrow> DefId \<times> FnInfo \<Rightarrow> string set \<times> string list list \<Rightarrow>
   (string set \<times> string list list) run" where
  "sequences_of tcx test_crate_name fns entry st = (case (entry, st) of ((d, function), (visit_set, seqs)) \<Rightarrow>
     do { info \<leftarrow> new_by_caller_def_id tcx d function fns;
          (visit_set', st') \<leftarrow> sequence_dfs tcx test_crate_name fns visit_set
             \<lparr>all_seq = seqs, func_seq = [], dfs_stack = [info]\<rparr>;
          Some (visit_set', if func_seq st' \<noteq> [] then all_seq st' @ [func_seq st'] else all_seq st') })"

definition extract_sequence :: "Tcx \<Rightarrow> string \<Rightarrow> string \<Rightarrow> all_dependencies \<Rightarrow> bool \<Rightarrow> string list list run" where
  "extract_sequence tcx current_crate_name test_crate_name fns enable =
     (if current_crate_name = test_crate_name \<or> \<not> enable then Some []
      else do { (_, seqs) \<leftarrow> fold_m (sequences_of tcx test_crate_name fns) fns ({}, []); Some seqs })"

section \<open>Counts\<close>

definition increment :: "'k \<Rightarrow> ('k \<rightharpoonup> nat) \<Rightarrow> ('k \<rightharpoonup> nat)" where
  "increment k m = (case m k of Some n \<Rightarrow> m(k \<mapsto> n + 1) | None \<Rightarrow> m(k \<mapsto> 1))"

record info_maps =
  pre_succ_map :: "string \<times> string \<rightharpoonup> nat"
  order_map :: "string \<times> string \<rightharpoonup> nat"
  function_map :: "string \<rightharpoonup> nat"

definition order_sequence :: "Tcx \<Rightarrow> string \<Rightarrow> CalleeDependency list \<Rightarrow> string list" where
  "order_sequence tcx test_crate_name cds =
     fold (\<lambda>cd names. case cd_callee cd of
         Callee_DirectCall d \<Rightarrow>
           if starts_with (def_path_str tcx d) test_crate_name then names @ [def_path_str tcx d] else names
       | Callee_LocalFunctionPtr _ \<Rightarrow> names) cds []"

definition add_order :: "string list \<Rightarrow> (string \<times> string \<rightharpoonup> nat) \<Rightarrow> (string \<times> string \<rightharpoonup> nat)" where
  "add_order names m =
     (if length names \<ge> 2
      then fold (\<lambda>i m. m((names ! i, names ! (i + 1)) \<mapsto> 1)) [0..<length names - 1] m else m)"

definition count_source :: "Tcx \<Rightarrow> string \<Rightarrow> string \<Rightarrow> Source \<Rightarrow> info_maps \<Rightarrow> info_maps" where
  "count_source tcx test_crate_name callee_name src m = (case src of
     Src_ReturnVariable pre_id \<Rightarrow>
       if starts_with (def_path_str tcx pre_id) test_crate_name
       then m\<lparr>pre_succ_map := increment (def_path_str tcx pre_id, callee_name) (pre_succ_map m)\<rparr> else m
   | _ \<Rightarrow> m)"

definition count_callee :: "Tcx \<Rightarrow> string \<Rightarrow> CalleeDependency \<Rightarrow> info_maps \<Rightarrow> info_maps" where
  "count_callee tcx test_crate_name cd m = (case cd_callee cd of
     Callee_LocalFunctionPtr _ \<Rightarrow> m
   | Callee_DirectCall d \<Rightarrow>
       let callee_name = def_path_str tcx d
       in if starts_with callee_name test_crate_name then
            fold (\<lambda>(_, srcs). fold (count_source tcx test_crate_name callee_name) srcs) (arg_sources cd)
              (m\<lparr>function_map := increment callee_name (function_map m)\<rparr>)
          else m)"

definition count_entry ::
  "Tcx \<Rightarrow> string \<Rightarrow> all_dependencies \<Rightarrow> DefId \<times> FnInfo \<Rightarrow> string set \<times> info_maps \<Rightarrow> (string set \<times> info_maps) run" where
  "count_entry tcx test_crate_name fns entry st = (case (entry, st) of ((d, function), (visit_set, m)) \<Rightarrow>
     if def_path_str tcx d \<in> visit_set then Some (visit_set, m)
     else
       do { info \<leftarrow> new_by_caller_def_id tcx d function fns;
            let cds = callee_dependencies (fi_dependency_info info);
            let m1 = m\<lparr>order_map := add_order (order_sequence tcx test_crate_name cds) (order_map m)\<rparr>;
            Some (insert (info_name tcx info) visit_set, fold (count_callee tcx test_crate_name) cds m1) })"

definition extract_info :: "Tcx \<Rightarrow> string \<Rightarrow> string \<Rightarrow> all_dependencies \<Rightarrow> bool \<Rightarrow> info_maps run" where
  "extract_info tcx current_crate_name test_crate_name fns enable =
     (if current_crate_name = test_crate_name \<or> \<not> enable
      then Some \<lparr>pre_succ_map = Map.empty, order_map = Map.empty, function_map = Map.empty\<rparr>
      else do { (_, m) \<leftarrow> fold_m (count_entry tcx test_crate_name fns) fns
                  ({}, \<lparr>pre_succ_map = Map.empty, order_map = Map.empty, function_map = Map.empty\<rparr>);
                Some m })"

record ExtractInfo =
  all_sequences :: "string list list"
  dependencies_info :: "string \<times> string \<rightharpoonup> nat"
  order_info :: "string \<times> string \<rightharpoonup> nat"
  function_info :: "string \<rightharpoonup> nat"

definition ExtractInfo_new :: "Tcx \<Rightarrow> string \<Rightarrow> string \<Rightarrow> all_dependencies \<Rightarrow> bool \<Rightarrow> ExtractInfo run" where
  "ExtractInfo_new tcx current_crate_name test_crate_name fns enable =
     do { seqs \<leftarrow> extract_sequence tcx current_crate_name test_crate_name fns enable;
          m \<leftarrow> extract_info tcx current_crate_name test_crate_name fns enable;
          Some \<lparr>all_sequences = seqs, dependencies_info = pre_succ_map m, order_info = order_map m,
            function_info = function_map m\<rparr> }"

section \<open>The sequences are the calls of the program\<close>

text \<open>The function a name stands for: the first entry of that name.\<close>

definition named_info :: "Tcx \<Rightarrow> all_dependencies \<Rightarrow> DefId \<Rightarrow> FnInfo option" where
  "named_info tcx fns d = map_option snd (List.find (\<lambda>(x, _). def_path_str tcx x = def_path_str tcx d) fns)"

text \<open>What the walk relies on: the analysed bodies declare their locals, and a callee that is a body of
  the current crate was analysed.\<close>

definition callee_known :: "Tcx \<Rightarrow> all_dependencies \<Rightarrow> CalleeDependency \<Rightarrow> bool" where
  "callee_known tcx fns cd = (case cd_callee cd of
     Callee_DirectCall d \<Rightarrow> new_by_callee_def_id tcx d = None \<or> map_of fns d \<noteq> None
   | Callee_LocalFunctionPtr _ \<Rightarrow> True)"

definition fns_ok :: "Tcx \<Rightarrow> all_dependencies \<Rightarrow> bool" where
  "fns_ok tcx fns = list_all (\<lambda>(_, f). arg_count (fn_mir f) < length (local_decls (fn_mir f)) \<and>
     list_all (callee_known tcx fns) (callee_dependencies f)) fns"

definition info_in :: "Tcx \<Rightarrow> all_dependencies \<Rightarrow> FunctionInfo \<Rightarrow> bool" where
  "info_in tcx fns info \<longleftrightarrow> fi_def_id info \<in> fst ` set fns \<and>
     named_info tcx fns (fi_def_id info) = Some (fi_dependency_info info)"

lemma named_info_mem: "named_info tcx fns d = Some f \<Longrightarrow> f \<in> snd ` set fns"
  by (force simp: named_info_def find_Some_iff in_set_conv_nth image_iff)

lemma named_info_total: "d \<in> fst ` set fns \<Longrightarrow> \<exists>f. named_info tcx fns d = Some f"
  by (cases "List.find (\<lambda>(x, _). def_path_str tcx x = def_path_str tcx d) fns")
    (fastforce simp: named_info_def find_None_iff)+

lemma new_by_caller_total:
  assumes ok: "fns_ok tcx fns" and mem: "(d, f) \<in> set fns"
  shows "\<exists>info. new_by_caller_def_id tcx d f fns = Some info \<and> info_in tcx fns info \<and> fi_def_id info = d"
proof -
  have decls: "arg_count (fn_mir f) < length (local_decls (fn_mir f))"
    using ok mem by (auto simp: fns_ok_def list_all_iff)
  have "extract_arguments (fn_mir f) \<noteq> None"
    unfolding extract_arguments_def using decls by (intro map_m_no_panic) auto
  moreover have "index_m (local_decls (fn_mir f)) 0 \<noteq> None" using decls by auto
  moreover from mem have d: "d \<in> fst ` set fns" "\<And>a b. d = (a, b) \<Longrightarrow> (a, b) \<in> fst ` set fns" by force+
  with named_info_total [OF d(1), of tcx] obtain x g where
    "List.find (\<lambda>(x, _). def_path_str tcx x = def_path_str tcx d) fns = Some (x, g)"
    by (auto simp: named_info_def)
  ultimately show ?thesis using d
    by (auto simp: new_by_caller_def_id_def info_in_def named_info_def Let_def)
qed

text \<open>The calls to the tested crate in a body, in order.\<close>

definition crate_calls :: "Tcx \<Rightarrow> string \<Rightarrow> FnInfo \<Rightarrow> string list" where
  "crate_calls tcx t f = order_sequence tcx t (callee_dependencies f)"

lemma fold_append_concat: "fold (\<lambda>x acc. acc @ f x) xs acc = acc @ concat (map f xs)"
  by (induction xs arbitrary: acc) simp_all

lemma order_sequence_concat:
  "order_sequence tcx t cds = concat (map (\<lambda>cd. case cd_callee cd of
     Callee_DirectCall d \<Rightarrow> if starts_with (def_path_str tcx d) t then [def_path_str tcx d] else []
   | Callee_LocalFunctionPtr _ \<Rightarrow> []) cds)" (is "_ = concat (map ?f cds)")
proof -
  have "(\<lambda>cd names. case cd_callee cd of
         Callee_DirectCall d \<Rightarrow>
           if starts_with (def_path_str tcx d) t then names @ [def_path_str tcx d] else names
       | Callee_LocalFunctionPtr _ \<Rightarrow> names) = (\<lambda>cd names. names @ ?f cd)"
    by (intro ext) (simp split: Callee.split)
  then show ?thesis by (simp add: order_sequence_def fold_append_concat)
qed

lemma order_sequence_Nil [simp]: "order_sequence tcx t [] = []"
  by (simp add: order_sequence_concat)

lemma order_sequence_Cons:
  "order_sequence tcx t (cd # cds) = order_sequence tcx t [cd] @ order_sequence tcx t cds"
  by (simp_all add: order_sequence_concat)

lemma order_sequence_single:
  "order_sequence tcx t [cd] = (case cd_callee cd of
     Callee_DirectCall d \<Rightarrow> if starts_with (def_path_str tcx d) t then [def_path_str tcx d] else []
   | Callee_LocalFunctionPtr _ \<Rightarrow> [])"
  by (simp add: order_sequence_concat)

definition calls_done :: "seq_state \<Rightarrow> string list" where
  "calls_done st = concat (all_seq st) @ func_seq st"

definition walk_ok :: "Tcx \<Rightarrow> all_dependencies \<Rightarrow> seq_state \<Rightarrow> bool" where
  "walk_ok tcx fns st \<longleftrightarrow> [] \<notin> set (all_seq st) \<and> list_all (info_in tcx fns) (dfs_stack st)"

lemma walk_ok_cut [simp]:
  "calls_done (cut_sequence st) = calls_done st"
  "func_seq st \<noteq> [] \<Longrightarrow> walk_ok tcx fns (cut_sequence st) = walk_ok tcx fns st"
  by (auto simp: calls_done_def cut_sequence_def walk_ok_def)

lemma visit_callee_step:
  assumes ok: "fns_ok tcx fns" and cd: "callee_known tcx fns cd" and st: "walk_ok tcx fns st"
  shows "\<exists>st'. visit_callee tcx t fns visit cd st = Some st' \<and> walk_ok tcx fns st' \<and>
    calls_done st' = calls_done st @ order_sequence tcx t [cd]"
proof (cases "cd_callee cd")
  case (Callee_LocalFunctionPtr l)
  then show ?thesis using st by (simp add: visit_callee_def order_sequence_single)
next
  case (Callee_DirectCall d)
  define st1 where "st1 = (if list_all is_primitive_ty (argument_tys (cd_callsite cd)) \<and> func_seq st \<noteq> []
    then cut_sequence st else st)"
  have st1: "walk_ok tcx fns st1" "calls_done st1 = calls_done st" using st by (auto simp: st1_def)
  note body = visit_callee_def Callee_DirectCall st1_def [symmetric]
  consider (crate) "starts_with (def_path_str tcx d) t"
    | (own) "\<not> starts_with (def_path_str tcx d) t" "new_by_callee_def_id tcx d \<noteq> None \<and> def_path_str tcx d \<notin> visit"
    | (other) "\<not> starts_with (def_path_str tcx d) t" "\<not> (new_by_callee_def_id tcx d \<noteq> None \<and> def_path_str tcx d \<notin> visit)"
    by blast
  then show ?thesis
  proof cases
    case crate
    let ?st2 = "st1\<lparr>func_seq := func_seq st1 @ [def_path_str tcx d]\<rparr>"
    have "walk_ok tcx fns ?st2" "calls_done ?st2 = calls_done st @ [def_path_str tcx d]"
      using st1 by (simp_all add: walk_ok_def calls_done_def)
    then show ?thesis using crate by (auto simp: body Let_def order_sequence_single)
  next
    case own
    with cd Callee_DirectCall obtain f where f: "map_of fns d = Some f" by (auto simp: callee_known_def)
    from new_by_caller_total [OF ok map_of_SomeD [OF f]] obtain info where
      "new_by_caller_def_id tcx d f fns = Some info" "info_in tcx fns info" by blast
    then show ?thesis using own f st1 
      by (simp add: body Let_def walk_ok_def calls_done_def order_sequence_single)
  next
    case other
    then show ?thesis using st1 unfolding body by (auto simp: Let_def order_sequence_single Callee_DirectCall)
  qed
qed

lemma visit_callees_step:
  assumes ok: "fns_ok tcx fns" and "list_all (callee_known tcx fns) cds" and "walk_ok tcx fns st"
  shows "\<exists>st'. fold_m (visit_callee tcx t fns visit) cds st = Some st' \<and> walk_ok tcx fns st' \<and>
    calls_done st' = calls_done st @ order_sequence tcx t cds"
  using assms(2,3)
proof (induction cds arbitrary: st)
  case (Cons cd cds)
  from visit_callee_step [OF ok _ Cons.prems(2)] Cons.prems(1) obtain st1 where
    st1: "visit_callee tcx t fns visit cd st = Some st1" "walk_ok tcx fns st1"
      "calls_done st1 = calls_done st @ order_sequence tcx t [cd]"
    by fastforce
  from Cons.IH [OF _ st1(2)] Cons.prems(1) st1 show ?case by (auto simp: order_sequence_Cons [of _ _ cd cds])
qed simp

lemma info_in_known:
  assumes "fns_ok tcx fns" and "info_in tcx fns info"
  shows "list_all (callee_known tcx fns) (callee_dependencies (fi_dependency_info info))"
  using assms named_info_mem [of tcx fns "fi_def_id info"]
  by (fastforce simp: fns_ok_def list_all_iff info_in_def)

lemma sequence_dfs_result:
  assumes ok: "fns_ok tcx fns" and "walk_ok tcx fns st"
  shows "\<exists>visit' st' visited. sequence_dfs tcx t fns visit st = Some (visit', st') \<and> walk_ok tcx fns st' \<and>
    calls_done st' = calls_done st @ concat (map (crate_calls tcx t \<circ> fi_dependency_info) visited) \<and>
    set (dfs_stack st) \<subseteq> set visited \<and> list_all (info_in tcx fns) visited"
  using assms
proof (induction tcx t fns visit st rule: sequence_dfs.induct)
  case (1 tcx t fns visit st)
  show ?case
  proof (cases "dfs_stack st")
    case Nil
    then show ?thesis using 1 by (intro exI [of _ visit] exI [of _ st] exI [of _ "[]"]) (simp add: sequence_dfs.simps)
  next
    case (Cons info stack)
    let ?visit = "insert (info_name tcx info) visit"
    have ok': "info_in tcx fns info" "walk_ok tcx fns (st\<lparr>dfs_stack := stack\<rparr>)"
      using 1 Cons by (simp_all add: walk_ok_def)
    from visit_callees_step [OF 1(2) info_in_known [OF 1(2) ok'(1)] ok'(2)] obtain st1 where
      st1: "fold_m (visit_callee tcx t fns ?visit) (callee_dependencies (fi_dependency_info info))
          (st\<lparr>dfs_stack := stack\<rparr>) = Some st1" "walk_ok tcx fns st1"
        "calls_done st1 = calls_done st @ crate_calls tcx t (fi_dependency_info info)"
      by (fastforce simp: crate_calls_def calls_done_def)
    from visit_callees_push [OF st1(1)] have "set stack \<subseteq> set (dfs_stack st1)" by (auto simp: pushes_def)
    with 1(1) [OF Cons st1(1) 1(2) st1(2)] obtain visit' st' visited where
      "sequence_dfs tcx t fns ?visit st1 = Some (visit', st')" "walk_ok tcx fns st'"
      "calls_done st' = calls_done st1 @ concat (map (crate_calls tcx t \<circ> fi_dependency_info) visited)"
      "set stack \<subseteq> set visited" "list_all (info_in tcx fns) visited" by blast
    then show ?thesis using Cons st1 ok'
      by (intro exI [of _ visit'] exI [of _ st'] exI [of _ "info # visited"]) 
        (auto simp: comp_def sequence_dfs.simps [of _ _ _ visit])
  qed
qed

lemma sequences_of_result:
  assumes ok: "fns_ok tcx fns" and mem: "(d, f) \<in> set fns" and "[] \<notin> set seqs"
  shows "\<exists>visit' seqs' visited. sequences_of tcx t fns (d, f) (visit, seqs) = Some (visit', seqs') \<and> [] \<notin> set seqs' \<and>
    concat seqs' = concat seqs @ concat (map (crate_calls tcx t) visited) \<and>
    the (named_info tcx fns d) \<in> set visited \<and>
    set visited \<subseteq> (\<lambda>x. the (named_info tcx fns x)) ` fst ` set fns"
proof -
  from new_by_caller_total [OF ok mem] obtain info where
    info: "new_by_caller_def_id tcx d f fns = Some info" "info_in tcx fns info" "fi_def_id info = d" by blast
  let ?st = "\<lparr>all_seq = seqs, func_seq = [], dfs_stack = [info]\<rparr>"
  have "walk_ok tcx fns ?st" using assms info by (simp add: walk_ok_def)
  from sequence_dfs_result [OF ok this, of t visit] obtain visit' st' visited where
    r: "sequence_dfs tcx t fns visit ?st = Some (visit', st')" "walk_ok tcx fns st'"
      "calls_done st' = concat seqs @ concat (map (crate_calls tcx t \<circ> fi_dependency_info) visited)"
      "info \<in> set visited" "list_all (info_in tcx fns) visited" by (auto simp: calls_done_def)
  have named: "the (named_info tcx fns (fi_def_id i)) = fi_dependency_info i" "fi_def_id i \<in> fst ` set fns"
    if "i \<in> set visited" for i using that r(5) by (auto simp: list_all_iff info_in_def)
  show ?thesis
  proof (intro exI [of _ visit'] exI conjI)
    show "sequences_of tcx t fns (d, f) (visit, seqs) =
        Some (visit', if func_seq st' \<noteq> [] then all_seq st' @ [func_seq st'] else all_seq st')"
      by (simp add: sequences_of_def info r)
    show "the (named_info tcx fns d) \<in> set (map fi_dependency_info visited)"
      using named [OF r(4)] r(4) info(3) by auto
    show "set (map fi_dependency_info visited) \<subseteq> (\<lambda>x. the (named_info tcx fns x)) ` fst ` set fns"
    proof
      fix g assume "g \<in> set (map fi_dependency_info visited)"
      then obtain i where i: "i \<in> set visited" "g = fi_dependency_info i" by auto
      then show "g \<in> (\<lambda>x. the (named_info tcx fns x)) ` fst ` set fns"
        using named [OF i(1)] by (metis image_eqI)
    qed
  qed (use r in \<open>auto simp: walk_ok_def calls_done_def split: if_splits\<close>)
qed

lemma sequences_fold:
  assumes ok: "fns_ok tcx fns" and "set entries \<subseteq> set fns" and "[] \<notin> set seqs"
  shows "\<exists>visit' seqs' visited. fold_m (sequences_of tcx t fns) entries (visit, seqs) = Some (visit', seqs') \<and>
    [] \<notin> set seqs' \<and> concat seqs' = concat seqs @ concat (map (crate_calls tcx t) visited) \<and>
    (\<lambda>x. the (named_info tcx fns x)) ` fst ` set entries \<subseteq> set visited \<and>
    set visited \<subseteq> (\<lambda>x. the (named_info tcx fns x)) ` fst ` set fns"
  using assms(2,3)
proof (induction entries arbitrary: visit seqs)
  case Nil
  then show ?case by (intro exI [of _ visit] exI [of _ seqs] exI [of _ "[]"]) simp
next
  case (Cons entry entries)
  obtain d f where e: "entry = (d, f)" by (cases entry)
  from sequences_of_result [OF ok, of d f seqs] Cons.prems e obtain visit1 seqs1 visited1 where
    1: "sequences_of tcx t fns entry (visit, seqs) = Some (visit1, seqs1)" "[] \<notin> set seqs1"
      "concat seqs1 = concat seqs @ concat (map (crate_calls tcx t) visited1)"
      "the (named_info tcx fns d) \<in> set visited1"
      "set visited1 \<subseteq> (\<lambda>x. the (named_info tcx fns x)) ` fst ` set fns" by fastforce
  from Cons.IH [OF _ 1(2), of visit1] Cons.prems obtain visit2 seqs2 visited2 where
    2: "fold_m (sequences_of tcx t fns) entries (visit1, seqs1) = Some (visit2, seqs2)" "[] \<notin> set seqs2"
      "concat seqs2 = concat seqs1 @ concat (map (crate_calls tcx t) visited2)"
      "(\<lambda>x. the (named_info tcx fns x)) ` fst ` set entries \<subseteq> set visited2"
      "set visited2 \<subseteq> (\<lambda>x. the (named_info tcx fns x)) ` fst ` set fns" by auto
  show ?case
    by (rule exI [of _ visit2], rule exI [of _ seqs2], rule exI [of _ "visited1 @ visited2"])
      (use 1 2 e in auto)
qed

text \<open>C15. Sequences of the corpus: when every called body of the current crate was analysed, the walk over the
  call graph ends and returns; no sequence is empty, and the sequences in a row are the calls to the
  tested crate of the bodies in the order of the walk, which visits every analysed function.\<close>

theorem extract_sequence_calls:
  assumes "fns_ok tcx fns" and "current \<noteq> t"
  shows "\<exists>seqs visited. extract_sequence tcx current t fns True = Some seqs \<and> [] \<notin> set seqs \<and>
    concat seqs = concat (map (crate_calls tcx t) visited) \<and>
    set visited = (\<lambda>(d, _). the (named_info tcx fns d)) ` set fns"
proof -
  from sequences_fold [OF assms(1), of fns "[]" t "{}"] obtain visit' seqs visited where
    r: "fold_m (sequences_of tcx t fns) fns ({}, []) = Some (visit', seqs)" "[] \<notin> set seqs"
      "concat seqs = concat (map (crate_calls tcx t) visited)"
      "set visited = (\<lambda>x. the (named_info tcx fns x)) ` fst ` set fns" by auto
  have "set visited = (\<lambda>(d, _). the (named_info tcx fns d)) ` set fns"
    by (simp add: r image_image case_prod_unfold)
  with r(1-3) assms(2) show ?thesis
    by (intro exI [of _ seqs] exI [of _ visited]) (simp add: extract_sequence_def)
qed

text \<open>A program: \<open>main\<close> calls \<open>lib::f\<close> on a number and gives its result to a function of its own, which
  calls \<open>lib::g\<close>.\<close>

definition demo_site :: "Ty list \<Rightarrow> CallSite" where
  "demo_site tys = \<lparr>site_function = LC_DirectCall (1, 7), return_variable = Some 2, site_return_ty = Ty_Other ''lib::T'',
     site_arguments = [], argument_tys = tys\<rparr>"

definition demo_fn :: "CalleeDependency list \<Rightarrow> FnInfo" where
  "demo_fn cds = \<lparr>fn_return_ty = Ty_Primitive ''i32'', fn_arguments = [], fn_return_deps = [],
     callee_dependencies = cds, fn_mir = sample_body\<rparr>"

definition demo_fns :: all_dependencies where
  "demo_fns =
     [((0, 1), demo_fn
        [\<lparr>arg_sources = [], cd_callee = Callee_DirectCall (1, 7), cd_callsite = demo_site [Ty_Primitive ''i32'']\<rparr>,
         \<lparr>arg_sources = [(1, [Src_ReturnVariable (1, 7)])], cd_callee = Callee_DirectCall (1, 8),
          cd_callsite = demo_site [Ty_Other ''lib::T'']\<rparr>,
         \<lparr>arg_sources = [], cd_callee = Callee_DirectCall (0, 2), cd_callsite = demo_site [Ty_Other ''lib::T'']\<rparr>]),
      ((0, 2), demo_fn
        [\<lparr>arg_sources = [(1, [Src_Argument 1])], cd_callee = Callee_DirectCall (1, 8),
          cd_callsite = demo_site [Ty_Other ''lib::T'']\<rparr>])]"

definition demo_tcx :: Tcx where
  "demo_tcx = \<lparr>def_path_str = (\<lambda>d. if d = (1, 7) then ''lib::f'' else if d = (1, 8) then ''lib::g''
       else if d = (0, 1) then ''main'' else ''helper''),
     def_kind = (\<lambda>d. DK_Fn), body_owners = [(0, 1), (0, 2)], optimized_mir = (\<lambda>d. sample_body)\<rparr>"

lemma demo_fns_ok: "fns_ok demo_tcx demo_fns"
  by (simp add: fns_ok_def demo_fns_def demo_fn_def sample_body_def callee_known_def new_by_callee_def_id_def demo_tcx_def)

lemma extract_sequence_calls_witness:
  "\<exists>seqs. extract_sequence demo_tcx ''app'' ''lib'' demo_fns True = Some seqs \<and> [] \<notin> set seqs \<and>
    ''lib::f'' \<in> set (concat seqs)"
proof -
  have "named_info demo_tcx demo_fns (0, 1) = Some (snd (hd demo_fns))"
    by (simp add: named_info_def demo_fns_def)
  moreover have "(0, 1) \<in> fst ` set demo_fns" by (simp add: demo_fns_def)
  moreover have "''lib::f'' \<in> set (crate_calls demo_tcx ''lib'' (snd (hd demo_fns)))"
    by (simp add: crate_calls_def order_sequence_concat demo_fns_def demo_fn_def demo_tcx_def starts_with_def)
  ultimately show ?thesis
    using extract_sequence_calls [OF demo_fns_ok, of "''app''" "''lib''"]
    by (fastforce simp: demo_fns_def)
qed

section \<open>The counts\<close>

text \<open>The first function of each name, in order.\<close>

fun first_by_name :: "Tcx \<Rightarrow> string set \<Rightarrow> all_dependencies \<Rightarrow> FnInfo list" where
  "first_by_name tcx seen [] = []"
| "first_by_name tcx seen ((d, f) # fns) =
     (if def_path_str tcx d \<in> seen then first_by_name tcx seen fns
      else f # first_by_name tcx (insert (def_path_str tcx d) seen) fns)"

definition neighbours :: "'a list \<Rightarrow> ('a \<times> 'a) list" where
  "neighbours xs = zip xs (tl xs)"

text \<open>The pairs of a call and the call that makes one of its arguments.\<close>

definition source_pairs :: "Tcx \<Rightarrow> string \<Rightarrow> string \<Rightarrow> Source list \<Rightarrow> (string \<times> string) list" where
  "source_pairs tcx t callee srcs = concat (map (\<lambda>src. case src of
     Src_ReturnVariable pre \<Rightarrow>
       if starts_with (def_path_str tcx pre) t then [(def_path_str tcx pre, callee)] else []
   | _ \<Rightarrow> []) srcs)"

definition callee_pairs :: "Tcx \<Rightarrow> string \<Rightarrow> CalleeDependency \<Rightarrow> (string \<times> string) list" where
  "callee_pairs tcx t cd = (case cd_callee cd of
     Callee_DirectCall d \<Rightarrow>
       if starts_with (def_path_str tcx d) t
       then concat (map (\<lambda>(_, srcs). source_pairs tcx t (def_path_str tcx d) srcs) (arg_sources cd)) else []
   | Callee_LocalFunctionPtr _ \<Rightarrow> [])"

definition crate_pairs :: "Tcx \<Rightarrow> string \<Rightarrow> FnInfo \<Rightarrow> (string \<times> string) list" where
  "crate_pairs tcx t f = concat (map (callee_pairs tcx t) (callee_dependencies f))"

definition count_map :: "'a list \<Rightarrow> ('a \<rightharpoonup> nat)" where
  "count_map xs = (\<lambda>x. if x \<in> set xs then Some (count_list xs x) else None)"

lemma increment_count [simp]: "increment x (count_map xs) = count_map (xs @ [x])"
  by (rule ext) (auto simp: increment_def count_map_def)

text \<open>What the maps hold after the calls \<open>calls\<close>, the pairs \<open>pairs\<close> and the neighbours \<open>ns\<close>.\<close>

definition maps_of :: "string list \<Rightarrow> (string \<times> string) list \<Rightarrow> (string \<times> string) set \<Rightarrow> info_maps" where
  "maps_of calls pairs ns =
     \<lparr>pre_succ_map = count_map pairs, order_map = (\<lambda>p. if p \<in> ns then Some 1 else None), function_map = count_map calls\<rparr>"

lemma count_sources:
  "fold (count_source tcx t callee) srcs (maps_of calls pairs ns) = maps_of calls (pairs @ source_pairs tcx t callee srcs) ns"
proof (induction srcs arbitrary: pairs)
  case (Cons src srcs)
  have "count_source tcx t callee src (maps_of calls pairs ns) = maps_of calls (pairs @ source_pairs tcx t callee [src]) ns"
    by (auto simp: count_source_def source_pairs_def maps_of_def split: Source.split)
  moreover have "source_pairs tcx t callee (src # srcs) = source_pairs tcx t callee [src] @ source_pairs tcx t callee srcs"
    by (simp add: source_pairs_def)
  ultimately show ?case using Cons.IH by simp
qed (simp add: source_pairs_def)

lemma count_arg_sources:
  "fold (\<lambda>(_, srcs). fold (count_source tcx t callee) srcs) args (maps_of calls pairs ns) =
     maps_of calls (pairs @ concat (map (\<lambda>(_, srcs). source_pairs tcx t callee srcs) args)) ns"
  by (induction args arbitrary: pairs) (auto simp: count_sources)

lemma count_callee_maps:
  "count_callee tcx t cd (maps_of calls pairs ns) =
     maps_of (calls @ order_sequence tcx t [cd]) (pairs @ callee_pairs tcx t cd) ns"
proof -
  have "maps_of calls pairs ns\<lparr>function_map := count_map c\<rparr> = maps_of c pairs ns" for c by (simp add: maps_of_def)
  moreover have "function_map (maps_of calls pairs ns) = count_map calls" by (simp add: maps_of_def)
  ultimately show ?thesis
    by (auto simp: count_callee_def callee_pairs_def order_sequence_single count_arg_sources Let_def split: Callee.split)
qed

lemma count_callees_maps:
  "fold (count_callee tcx t) cds (maps_of calls pairs ns) =
     maps_of (calls @ order_sequence tcx t cds) (pairs @ concat (map (callee_pairs tcx t) cds)) ns"
proof (induction cds arbitrary: calls pairs)
  case (Cons cd cds)
  then show ?case by (simp add: count_callee_maps order_sequence_Cons [of tcx t cd cds])
qed simp

lemma add_order_neighbours:
  "add_order names (\<lambda>p. if p \<in> ns then Some 1 else None) = (\<lambda>p. if p \<in> ns \<union> set (neighbours names) then Some 1 else None)"
proof -
  have fold: "fold (\<lambda>i m. m(f i \<mapsto> 1)) is (\<lambda>p. if p \<in> ns then Some 1 else None) =
      (\<lambda>p. if p \<in> ns \<union> f ` set is then Some 1 else None)" for f :: "nat \<Rightarrow> string \<times> string" and "is"
  proof (induction "is" arbitrary: ns)
    case (Cons i "is")
    have "(\<lambda>p. if p \<in> ns then Some 1 else None)(f i \<mapsto> 1) = (\<lambda>p. if p \<in> insert (f i) ns then Some 1 else None)"
      by (rule ext) simp
    note step = this
    show ?case unfolding fold.simps comp_apply step Cons.IH [of "insert (f i) ns"] by simp
  qed simp
  have "set (neighbours names) = (\<lambda>i. (names ! i, names ! (i + 1))) ` set [0..<length names - 1]"
    by (cases names) (auto simp: neighbours_def set_zip image_iff)
  moreover have "length names < 2 \<Longrightarrow> neighbours names = []"
    by (cases names) (auto simp: neighbours_def)
  ultimately show ?thesis
    unfolding add_order_def by (simp only: fold) auto
qed

lemma named_info_first:
  assumes "fns = pre @ (d, f) # post" and "def_path_str tcx d \<notin> (\<lambda>(x, _). def_path_str tcx x) ` set pre"
  shows "named_info tcx fns d = Some f"
proof -
  have "List.find (\<lambda>(x, _). def_path_str tcx x = def_path_str tcx d) pre = None"
    using assms(2) by (force simp: find_None_iff)
  then have "List.find (\<lambda>(x, _). def_path_str tcx x = def_path_str tcx d) (pre @ (d, f) # post) = Some (d, f)"
    by (induction pre) (auto split: if_splits)
  then show ?thesis by (simp add: named_info_def assms(1))
qed

lemma count_entry_first:
  assumes ok: "fns_ok tcx fns" and fns: "fns = pre @ (d, f) # post"
    and new: "def_path_str tcx d \<notin> fns_names tcx pre"
  shows "count_entry tcx t fns (d, f) (fns_names tcx pre, maps_of calls pairs ns) =
    Some (fns_names tcx (pre @ [(d, f)]),
      maps_of (calls @ crate_calls tcx t f) (pairs @ crate_pairs tcx t f) (ns \<union> set (neighbours (crate_calls tcx t f))))"
proof -
  from fns have mem: "(d, f) \<in> set fns" by simp
  from new_by_caller_total [OF ok mem] obtain info where
    info: "new_by_caller_def_id tcx d f fns = Some info" "info_in tcx fns info" "fi_def_id info = d" by blast
  have f: "fi_dependency_info info = f"
    using info named_info_first [OF fns] new by (auto simp: info_in_def fns_names_def)
  have order: "maps_of calls pairs ns\<lparr>order_map := add_order names (order_map (maps_of calls pairs ns))\<rparr> =
      maps_of calls pairs (ns \<union> set (neighbours names))" for names
    by (simp add: maps_of_def add_order_neighbours)
  have "info_name tcx info = def_path_str tcx d" by (simp add: info_name_def info)
  then show ?thesis
    using new by (simp add: count_entry_def info(1) f order count_callees_maps crate_calls_def crate_pairs_def Let_def)
      (simp add: fns_names_def insert_commute)
qed

lemma count_entries:
  assumes ok: "fns_ok tcx fns" and "fns = pre @ entries"
  shows "fold_m (count_entry tcx t fns) entries (fns_names tcx pre, maps_of calls pairs ns) =
    (let fs = first_by_name tcx (fns_names tcx pre) entries
     in Some (fns_names tcx fns, maps_of (calls @ concat (map (crate_calls tcx t) fs))
          (pairs @ concat (map (crate_pairs tcx t) fs)) (ns \<union> (\<Union>f \<in> set fs. set (neighbours (crate_calls tcx t f))))))"
  using assms(2)
proof (induction entries arbitrary: pre calls pairs ns)
  case (Cons entry entries)
  obtain d f where e: "entry = (d, f)" by (cases entry)
  have names: "fns_names tcx (pre @ [(d, f)]) = insert (def_path_str tcx d) (fns_names tcx pre)"
    by (simp add: fns_names_def)
  note IH = Cons.IH [of "pre @ [(d, f)]"]
  show ?case
  proof (cases "def_path_str tcx d \<in> fns_names tcx pre")
    case True
    have same: "fns_names tcx (pre @ [(d, f)]) = fns_names tcx pre" using True names by auto
    have "count_entry tcx t fns entry (fns_names tcx pre, m) = Some (fns_names tcx pre, m)" for m
      using True by (simp add: count_entry_def e)
    then show ?thesis using IH Cons.prems True by (simp add: e same Let_def)
  next
    case False
    from count_entry_first [OF ok _ False] Cons.prems e
    have "count_entry tcx t fns entry (fns_names tcx pre, maps_of calls pairs ns) =
      Some (fns_names tcx (pre @ [(d, f)]), maps_of (calls @ crate_calls tcx t f) (pairs @ crate_pairs tcx t f)
        (ns \<union> set (neighbours (crate_calls tcx t f))))" by auto
    then show ?thesis using IH Cons.prems False by (simp add: e names Let_def Un_assoc)
  qed
qed simp

text \<open>C14. Counts of the corpus: under the same condition the extraction returns; with the first function of
  each name, \<open>function_map\<close> counts the calls of each function of the tested crate, \<open>pre_succ_map\<close> the
  pairs where the result of one call is an argument of another, and \<open>order_map\<close> has the pairs of
  neighbouring calls, each with the number 1 however often it occurs.\<close>

theorem extract_info_counts:
  assumes "fns_ok tcx fns" and "current \<noteq> t"
  shows "let fs = first_by_name tcx {} fns in
    extract_info tcx current t fns True =
      Some \<lparr>pre_succ_map = count_map (concat (map (crate_pairs tcx t) fs)),
        order_map = (\<lambda>p. if \<exists>f \<in> set fs. p \<in> set (neighbours (crate_calls tcx t f)) then Some 1 else None),
        function_map = count_map (concat (map (crate_calls tcx t) fs))\<rparr>"
proof -
  have "maps_of [] [] {} = \<lparr>pre_succ_map = Map.empty, order_map = Map.empty, function_map = Map.empty\<rparr>"
    by (simp add: maps_of_def count_map_def)
  then show ?thesis
    using count_entries [OF assms(1), of "[]" fns t "[]" "[]" "{}"] assms(2)
    by (simp add: extract_info_def fns_names_def maps_of_def Let_def UN_iff)
qed

lemma extract_info_counts_witness:
  "map_option (\<lambda>m. (function_map m ''lib::f'', function_map m ''lib::g'', pre_succ_map m (''lib::f'', ''lib::g''),
      order_map m (''lib::f'', ''lib::g''))) (extract_info demo_tcx ''app'' ''lib'' demo_fns True) =
    Some (Some 1, Some 2, Some 1, Some 1)"
proof -
  have "first_by_name demo_tcx {} demo_fns = map snd demo_fns"
    by (simp add: demo_fns_def demo_tcx_def)
  moreover have "crate_calls demo_tcx ''lib'' (snd (hd demo_fns)) = [''lib::f'', ''lib::g'']"
    "crate_calls demo_tcx ''lib'' (snd (hd (tl demo_fns))) = [''lib::g'']"
    by (simp_all add: crate_calls_def order_sequence_concat demo_fns_def demo_fn_def demo_tcx_def starts_with_def)
  moreover have "crate_pairs demo_tcx ''lib'' (snd (hd demo_fns)) = [(''lib::f'', ''lib::g'')]"
    "crate_pairs demo_tcx ''lib'' (snd (hd (tl demo_fns))) = []"
    by (simp_all add: crate_pairs_def callee_pairs_def source_pairs_def demo_fns_def demo_fn_def demo_tcx_def starts_with_def)
  moreover have "map snd demo_fns = [snd (hd demo_fns), snd (hd (tl demo_fns))]" by (simp add: demo_fns_def)
  ultimately show ?thesis
    using extract_info_counts [OF demo_fns_ok, of "''app''" "''lib''"]
    by (simp add: Let_def count_map_def neighbours_def)
qed

end
