(* ===== verification/Extract_Print.thy ===== *)
theory Extract_Print
  imports Extract_Info File_Util My_Method
begin

text \<open>
  The printers of \<open>ExtractInfo\<close>: each appends to one file of the experiment directory. The iteration
  order of a hash map, the regular expression that strips generic arguments from names and the debug
  text of the current directory are arguments. What is printed to the terminal is left out.
\<close>

text \<open>\<open>OpenOptions::new().create(true).append(true).open(..).expect(..)\<close>, then \<open>write_all\<close>.\<close>

definition append_file :: "file_system \<Rightarrow> path \<Rightarrow> string \<Rightarrow> file_system run" where
  "append_file fs p content = (case fs p of
     Some Dir_Node \<Rightarrow> None
   | Some (File_Node old) \<Rightarrow> Some (fs(p \<mapsto> File_Node (old @ content)))
   | None \<Rightarrow> if is_dir fs (butlast p) then Some (fs(p \<mapsto> File_Node content)) else None)"

text \<open>\<open>PathBuf::join\<close>: an absolute path replaces the path before it.\<close>

definition path_join :: "path \<Rightarrow> string \<Rightarrow> path" where
  "path_join p s = (if starts_with s ''/'' then path_of s else p @ path_of s)"

definition info_path :: "string \<Rightarrow> string \<Rightarrow> string \<Rightarrow> path" where
  "info_path dir crate name = path_join (path_join (path_of dir) crate) name"

definition sequence_line :: "nat \<times> string list \<Rightarrow> string" where
  "sequence_line p = (case p of (idx, seq) \<Rightarrow>
     ''Sequence '' @ string_of_nat idx @ '': '' @ concat (map (\<lambda>f. f @ '' '') seq))"

definition ExtractInfo_print_sequence :: "bool \<Rightarrow> string \<Rightarrow> string \<Rightarrow> ExtractInfo \<Rightarrow> file_system \<Rightarrow> file_system run" where
  "ExtractInfo_print_sequence enable dir crate info fs =
     (if \<not> enable then Some fs
      else append_file fs (info_path dir crate ''seq'')
        (concat (map (\<lambda>p. sequence_line p @ nl) (enumerate 0 (all_sequences info)))))"

definition pair_line :: "(string \<Rightarrow> string) \<Rightarrow> nat \<times> (string \<times> string) \<times> nat \<Rightarrow> string" where
  "pair_line strip p = (case p of (idx, (pre_func, succ_func), num) \<Rightarrow>
     ''pair_'' @ string_of_nat idx @ '':   '' @ strip pre_func @ ''   '' @ strip succ_func @ ''   '' @ string_of_nat num)"

type_synonym 'k hash_iter = "('k \<rightharpoonup> nat) \<Rightarrow> ('k \<times> nat) list"

definition print_dependencies_info ::
  "(string \<Rightarrow> string) \<Rightarrow> (string \<times> string) hash_iter \<Rightarrow> bool \<Rightarrow> string \<Rightarrow> string \<Rightarrow> ExtractInfo \<Rightarrow> file_system \<Rightarrow> file_system run" where
  "print_dependencies_info strip iter enable dir crate info fs =
     (if \<not> enable then Some fs
      else append_file fs (info_path dir crate ''depinfo'')
        (concat (map (\<lambda>p. pair_line strip p @ nl) (enumerate 0 (iter (dependencies_info info))))))"

definition print_order_info ::
  "(string \<Rightarrow> string) \<Rightarrow> (string \<times> string) hash_iter \<Rightarrow> bool \<Rightarrow> string \<Rightarrow> string \<Rightarrow> ExtractInfo \<Rightarrow> file_system \<Rightarrow> file_system run" where
  "print_order_info strip iter enable dir crate info fs =
     (if \<not> enable then Some fs
      else append_file fs (info_path dir crate ''orderinfo'')
        (concat (map (\<lambda>p. pair_line strip p @ nl) (enumerate 0 (iter (order_info info))))))"

definition func_line :: "(string \<Rightarrow> string) \<Rightarrow> string \<Rightarrow> nat \<times> string \<times> nat \<Rightarrow> string" where
  "func_line strip cwd_debug p = (case p of (idx, name, num) \<Rightarrow>
     cwd_debug @ '':   _func_'' @ string_of_nat idx @ '':   '' @ strip name @ ''   '' @ string_of_nat num)"

definition print_functions_info ::
  "(string \<Rightarrow> string) \<Rightarrow> string \<Rightarrow> string hash_iter \<Rightarrow> bool \<Rightarrow> string \<Rightarrow> string \<Rightarrow> ExtractInfo \<Rightarrow> file_system \<Rightarrow> file_system run" where
  "print_functions_info strip cwd_debug iter enable dir crate info fs =
     (if \<not> enable then Some fs
      else append_file fs (info_path dir crate ''funcinfo'')
        (concat (map (\<lambda>p. func_line strip cwd_debug p @ nl) (enumerate 0 (iter (function_info info))))))"

text \<open>The experiment directory has a directory for the crate and no directories in place of the files.\<close>

definition info_names :: "string list" where
  "info_names = [''seq'', ''depinfo'', ''orderinfo'', ''funcinfo'']"

definition info_dir_ok :: "string \<Rightarrow> string \<Rightarrow> file_system \<Rightarrow> bool" where
  "info_dir_ok dir crate fs \<longleftrightarrow> is_dir fs (path_join (path_of dir) crate) \<and>
     list_all (\<lambda>name. \<not> is_dir fs (path_join (path_of dir) crate @ [name])) info_names"

definition file_text :: "file_system \<Rightarrow> path \<Rightarrow> string" where
  "file_text fs p = (case fs p of Some (File_Node s) \<Rightarrow> s | _ \<Rightarrow> [])"

lemma info_path_simp [simp]:
  "name \<in> set info_names \<Longrightarrow> info_path dir crate name = path_join (path_of dir) crate @ [name]"
  by (auto simp: info_names_def info_path_def path_join_def path_of_def starts_with_def str_split_def)

lemma append_file_result:
  assumes "info_dir_ok dir crate fs" and "name \<in> set info_names"
  shows "\<exists>fs'. append_file fs (info_path dir crate name) s = Some fs' \<and> info_dir_ok dir crate fs' \<and>
    fs' = fs(info_path dir crate name \<mapsto> File_Node (file_text fs (info_path dir crate name) @ s))"
proof -
  have "append_file fs (info_path dir crate name) s =
      Some (fs(info_path dir crate name \<mapsto> File_Node (file_text fs (info_path dir crate name) @ s)))"
    using assms by (auto simp: append_file_def info_dir_ok_def is_dir_def file_text_def list_all_iff split: option.splits node.splits)
  moreover have "info_dir_ok dir crate (fs(info_path dir crate name \<mapsto> File_Node t))" for t
    using assms by (simp add: info_dir_ok_def is_dir_def list_all_iff)
  ultimately show ?thesis by blast
qed

section \<open>What is written cannot be read\<close>

lemma split_absent:
  assumes "c \<in> set sep" and "c \<notin> set s"
  shows "split_go sep acc s = [rev acc @ s]"
  using assms(2)
proof (induction s arbitrary: acc)
  case (Cons d s)
  have "\<not> starts_with (d # s) sep"
    using assms(1) Cons.prems unfolding starts_with_iff by (metis UnCI set_append)
  then show ?case using Cons by simp
qed simp

lemma parse_pair_line_bar: "CHR ''|'' \<notin> set line \<Longrightarrow> parse_pair_line line = None"
  using split_absent [of "CHR ''|''" "''  |  ''" line "[]"]
  by (simp add: parse_pair_line_def str_split_def Let_def index_m_def)

lemma bar_not_digit: "CHR ''|'' \<notin> set (string_of_nat n)"
  using string_of_nat_digits [of n] by (auto simp: is_digit_def digit_value_def)

lemma pair_line_bar:
  assumes "CHR ''|'' \<notin> set (strip pre)" and "CHR ''|'' \<notin> set (strip succ)"
  shows "CHR ''|'' \<notin> set (pair_line strip (idx, (pre, succ), num))"
  using assms by (simp add: pair_line_def bar_not_digit)

text \<open>C30. The corpus files: printing the pairs appends one line per pair to \<open>depinfo\<close>, but a line is never one
  that the reader of the corpus files accepts: the search panics on a \<open>depinfo.txt\<close> made of
  the printed lines.\<close>

theorem depinfo_unreadable:
  assumes "info_dir_ok dir crate fs" and "iter (dependencies_info info) = entries" and "entries \<noteq> []"
    and "\<forall>((pre, succ), num) \<in> set entries. CHR ''|'' \<notin> set (strip pre) \<and> CHR ''|'' \<notin> set (strip succ)"
  shows "\<exists>fs' lines. print_dependencies_info strip iter True dir crate info fs = Some fs' \<and>
    length lines = length entries \<and>
    file_text fs' (info_path dir crate ''depinfo'') =
      file_text fs (info_path dir crate ''depinfo'') @ concat (map (\<lambda>l. l @ nl) lines) \<and>
    my_method g (Some lines) orderfile funcfile max_num max_len support_generic c n = None"
proof -
  let ?lines = "map (pair_line strip) (enumerate 0 entries)"
  have "''depinfo'' \<in> set info_names" by (simp add: info_names_def)
  from append_file_result [OF assms(1) this, of "concat (map (\<lambda>l. l @ nl) ?lines)"] assms(2)
  obtain fs' where fs': "print_dependencies_info strip iter True dir crate info fs = Some fs'"
    "file_text fs' (info_path dir crate ''depinfo'') =
      file_text fs (info_path dir crate ''depinfo'') @ concat (map (\<lambda>l. l @ nl) ?lines)"
    by (auto simp: print_dependencies_info_def comp_def file_text_def)
  obtain pre succ num rest where e: "entries = ((pre, succ), num) # rest"
    using assms(3) by (cases entries) auto
  with assms(4) have "CHR ''|'' \<notin> set (pair_line strip (0, (pre, succ), num))" by (intro pair_line_bar) auto
  then have "read_pairs (Some ?lines) = None"
    by (simp add: read_pairs_def e enumerate_simps parse_pair_line_bar)
  then have "my_method g (Some ?lines) orderfile funcfile max_num max_len support_generic c n = None"
    by (simp add: my_method_def)
  with fs' show ?thesis by (intro exI [of _ fs'] exI [of _ ?lines]) simp
qed

definition demo_info :: ExtractInfo where
  "demo_info = \<lparr>all_sequences = [], dependencies_info = [(''lib::f'', ''lib::g'') \<mapsto> 1], order_info = Map.empty,
     function_info = Map.empty\<rparr>"

lemma depinfo_unreadable_witness:
  "\<exists>fs' lines. print_dependencies_info id (\<lambda>m. [((''lib::f'', ''lib::g''), 1)]) True ''/r'' ''lib'' demo_info
      [[''/'', ''r'', ''lib''] \<mapsto> Dir_Node] = Some fs' \<and> length lines = 1 \<and>
    my_method one_sequence_graph (Some lines) None None 100 15 False (\<lambda>_ _. 0) 0 = None"
proof -
  have "info_dir_ok ''/r'' ''lib'' [[''/'', ''r'', ''lib''] \<mapsto> Dir_Node]"
    by (simp add: info_dir_ok_def info_names_def path_join_def path_of_def is_dir_def starts_with_def str_split_def)
  from depinfo_unreadable [OF this, of "\<lambda>m. [((''lib::f'', ''lib::g''), 1)]" demo_info "[((''lib::f'', ''lib::g''), 1)]"
      id one_sequence_graph None None 100 15 False "\<lambda>_ _. 0" 0]
  show ?thesis by auto
qed

end
