(* ===== verification/Crate_Driver.thy ===== *)
theory Crate_Driver
  imports Render_Format Extract_Print Sequence_Typing
begin

text \<open>
  \<open>init\<close> of \<open>context.rs\<close>: what a run of the tool does with a crate. In a directory below \<open>target\<close> the crate
  is a corpus program and its uses of the tested library are written down; otherwise, when the crate
  is one of the libraries of the experiments, its graph is built, searched, and the targets are
  written. The output directory, the working directory, the crate, the compiler's answers, the bit
  vectors, the hash orders and the random numbers are a record; the terminal and the clock are left out.
\<close>

section \<open>The driver\<close>

definition REAL_WORLD_CRATE :: "string list" where
  "REAL_WORLD_CRATE = [''hifitime'', ''url'', ''ratatui'', ''regex_automata'', ''time'', ''regex'',
     ''unicode_segmentation'', ''csv'', ''clap'', ''tui'', ''http'', ''hyper'', ''textwrap'', ''serde_json'', ''chrono'',
     ''bytes'', ''byteorder'', ''charabia'', ''bat'', ''xi_core_lib'', ''semver'', ''winit'', ''difference'', ''diffy'',
     ''tokio'', ''httparse'', ''regex_syntax'', ''protobuf'', ''console'', ''unicode_normalization'']"

definition tested_lib_name :: string where
  "tested_lib_name = ''semver''"

definition experiment_root :: string where
  "experiment_root = ''/home/yxz/workspace/fuzz/experiment_root/''"

record 'b init_env =
  env_out_dir :: string
  env_current_dir :: string
  env_current_dir_debug :: string
  env_crate_name :: string
  env_module :: Item
  env_cache :: CrateCache
  env_tcx :: Tcx
  env_bits :: "'b bit_ops"
  env_strip :: "string \<Rightarrow> string"
  env_pair_iter :: "(string \<times> string) hash_iter"
  env_func_iter :: "string hash_iter"
  env_inputs :: search_inputs
  env_helpers :: "PreludeHelper list"

text \<open>A corpus program. \<open>Path::starts_with\<close> compares components.\<close>

definition parse_corpus_program :: "'b init_env \<Rightarrow> file_system \<Rightarrow> file_system run" where
  "parse_corpus_program e fs =
     (if \<not> prefix (path_of experiment_root) (path_of (env_current_dir e)) then Some fs
      else
        do { all_dependencies \<leftarrow> extract_all_dependencies (env_bits e) (env_tcx e);
             let enable = True;
             info \<leftarrow> ExtractInfo_new (env_tcx e) (env_crate_name e) (str_replace tested_lib_name ''-'' ''_'')
               all_dependencies enable;
             fs1 \<leftarrow> ExtractInfo_print_sequence enable experiment_root tested_lib_name info fs;
             fs2 \<leftarrow> print_dependencies_info (env_strip e) (env_pair_iter e) enable experiment_root tested_lib_name info fs1;
             fs3 \<leftarrow> print_order_info (env_strip e) (env_pair_iter e) enable experiment_root tested_lib_name info fs2;
             print_functions_info (env_strip e) (env_current_dir_debug e) (env_func_iter e) enable experiment_root
               tested_lib_name info fs3 })"

text \<open>The graph of a crate, up to its dependencies.\<close>

definition build_api_graph :: "'b init_env \<Rightarrow> bool \<Rightarrow> ApiGraph run" where
  "build_api_graph e support_generic =
     do { let g0 = ApiGraph_new (env_crate_name e) (Cache.truncate (env_cache e));
          (_, g1) \<leftarrow> extract_impls_from_cache (env_cache e) FullNameMap_new g0;
          g2 \<leftarrow> add_bare_functions_into_api_graph (env_module e) g1;
          g3 \<leftarrow> filter_functions g2 support_generic;
          find_all_dependencies g3 support_generic }"

text \<open>One of the three blocks that search with a strategy and write the files. The flag says whether
  the search has ended; before that nothing is written.\<close>

definition run_strategy ::
  "'b init_env \<Rightarrow> GraphTraverseAlgorithm \<Rightarrow> nat \<Rightarrow> nat \<Rightarrow> bool \<Rightarrow> ApiGraph \<times> file_system \<times> bool \<Rightarrow>
   (ApiGraph \<times> file_system \<times> bool) run" where
  "run_strategy e strategy max_num max_len support_generic st = (case st of (g, fs, ended) \<Rightarrow>
     if \<not> ended then Some st
     else
       do { (g', fin) \<leftarrow> generate_all_possoble_sequences (env_inputs e) (g\<lparr>api_sequences := []\<rparr>) strategy
              max_num max_len support_generic;
            if \<not> fin then Some (g', fs, False)
            else if can_write_to_file (str_replace (crate_name g') ''_'' ''-'') strategy then
              do { file_helper \<leftarrow> FileHelper_new (env_helpers e) g' strategy max_num max_len;
                   fs' \<leftarrow> write_files file_helper fs;
                   Some (g', fs', True) }
            else Some (g', fs, True) })"

definition generate_test_files :: "'b init_env \<Rightarrow> file_system \<Rightarrow> (file_system \<times> bool) run" where
  "generate_test_files e fs =
     (if env_crate_name e \<notin> set REAL_WORLD_CRATE then Some (fs, True)
      else
        do { let support_generic = False;
             g \<leftarrow> build_api_graph e support_generic;
             let fries = True; let random = False; let fudge = False;
             let max_num = 100; let max_len = 15;
             st1 \<leftarrow> (if fries then run_strategy e A_UseRealWorld max_num max_len support_generic (g, fs, True)
                     else Some (g, fs, True));
             st2 \<leftarrow> (if fudge then run_strategy e A_Fudge max_num max_len support_generic st1 else Some st1);
             st3 \<leftarrow> (if random then run_strategy e A_RandomWalk max_num max_len support_generic st2 else Some st2);
             Some (snd st3) })"

text \<open>The last but one component of the output directory decides.\<close>

definition init :: "'b init_env \<Rightarrow> file_system \<Rightarrow> (file_system \<times> bool) run" where
  "init e fs =
     do { let strs = str_split ''/'' (env_out_dir e);
          i \<leftarrow> sub_m (length strs) 2;
          target_dir_name \<leftarrow> index_m strs i;
          if target_dir_name = ''target'' then do { fs' \<leftarrow> parse_corpus_program e fs; Some (fs', True) }
          else generate_test_files e fs }"

section \<open>The generator as a backend of rustdoc\<close>

record Context =
  context_current :: "Symbol list"
  context_dst :: path

text \<open>\<open>init\<close> does the work; the other callbacks do nothing. A search that has not ended has not returned.\<close>

definition fuzz_renderer :: "'b init_env \<Rightarrow> (Context, file_system) FormatRenderer" where
  "fuzz_renderer e = \<lparr>RUN_ON_MODULE = True,
     renderer_init = (\<lambda>fs. do { (fs', ended) \<leftarrow> init e fs;
        if ended then Some (fs', Inr (\<lparr>context_current = [], context_dst = []\<rparr>, env_module e)) else None }),
     make_child_renderer = (\<lambda>cx. cx),
     render_item = (\<lambda>cx it fs. Some (fs, Inr ())),
     mod_item_in = (\<lambda>cx it fs. Some (fs, Inr cx)),
     mod_item_out = (\<lambda>cx fs. Some (fs, Inr ())),
     after_krate = (\<lambda>cx fs. Some (fs, Inr ()))\<rparr>"

interpretation fuzz_context: steady_renderer "fuzz_renderer e" "\<lambda>fs. fs = fs'" for e fs'
  by unfold_locales (simp_all add: fuzz_renderer_def)

text \<open>The run of the backend over the items changes nothing that \<open>init\<close> has written.\<close>

lemma run_fuzz_renderer:
  assumes "tree_ok (env_module e)" and "init e fs = Some (fs', ended)"
  shows "render_crate False False fmt (fuzz_renderer e) emit_crate fs = (if ended then Some (fs', Inr ()) else None)"
proof (cases ended)
  case True
  with assms(2) have "renderer_init (fuzz_renderer e) fs =
      Some (fs', Inr (\<lparr>context_current = [], context_dst = []\<rparr>, env_module e))" by (simp add: fuzz_renderer_def)
  from fuzz_context.run_renderer_steady [OF this refl assms(1)] True show ?thesis by (auto simp: render_crate_def)
next
  case False
  with assms(2) show ?thesis by (simp add: render_crate_def run_renderer_def run_format_def fuzz_renderer_def)
qed

section \<open>Module paths\<close>

lemma split_go_part:
  assumes "c \<in> set sep" and "c = hd sep" and "c \<notin> set p"
  shows "split_go sep acc (p @ sep @ r) = (rev acc @ p) # split_go sep [] r"
  using assms(3)
proof (induction p arbitrary: acc)
  case Nil
  obtain ss where "sep = c # ss" using assms(1,2) by (cases sep) auto
  then show ?case using starts_with_append [of sep r] by (simp add: starts_with_iff)
next
  case (Cons d p)
  have "\<not> starts_with (d # p @ sep @ r) sep"
    using assms(1,2) Cons.prems by (cases sep) (auto simp: starts_with_iff)
  with Cons show ?case by simp
qed

definition plain :: "string \<Rightarrow> bool" where
  "plain n \<longleftrightarrow> CHR '':'' \<notin> set n"

lemma split_join_path:
  assumes "ps \<noteq> []" and "list_all plain ps"
  shows "str_split ''::'' (str_join ''::'' ps) = ps"
  using assms
proof (induction ps rule: list_nonempty_induct)
  case (single x)
  then show ?case using split_absent [of "CHR '':''" "''::''" x "[]"] by (simp add: str_split_def plain_def)
next
  case (cons x xs)
  then show ?case using split_go_part [of "CHR '':''" "''::''" x "[]"] by (simp add: join_Cons str_split_def plain_def)
qed

lemma parent_path:
  assumes "current \<noteq> []" and "list_all plain current" and "plain n"
  shows "get_parent_mod_name (str_join ''::'' (current @ [n])) = Some (str_join ''::'' current)"
proof -
  have "str_split ''::'' (str_join ''::'' (current @ [n])) = current @ [n]"
    using assms by (intro split_join_path) simp_all
  moreover have "str_contains (str_join ''::'' (current @ [n])) ''::''"
    using assms(1) by (auto simp: join_snoc str_contains_iff)
  ultimately show ?thesis by (simp add: get_parent_mod_name_def)
qed

text \<open>The names of modules are identifiers.\<close>

function plain_names :: "Item \<Rightarrow> bool" where
  "plain_names it \<longleftrightarrow> (case module_items (item_kind it) of
     None \<Rightarrow> True
   | Some items \<Rightarrow> plain (the (item_name it)) \<and> list_all plain_names items)"
  by pat_completeness auto
termination
  by (relation "measure size") (auto dest: module_items_size)

declare plain_names.simps [simp del]

lemma tree_modules_parent:
  assumes "plain_names it" and "current \<noteq> []" and "list_all plain current" and "n \<in> fst ` set (tree_modules current it)"
  shows "\<exists>p \<in> insert (str_join ''::'' current) (fst ` set (tree_modules current it)). get_parent_mod_name n = Some p"
  using assms
proof (induction current it arbitrary: n rule: tree_modules.induct)
  case (1 current it)
  from 1(5) obtain items where items: "module_items (item_kind it) = Some items"
    by (cases "module_items (item_kind it)") (auto simp: tree_modules.simps [of current it])
  let ?cur = "current @ [the (item_name it)]"
  have plain: "plain (the (item_name it))" "list_all plain_names items"
    using 1(2) items by (simp_all add: plain_names.simps [of it])
  have mods: "tree_modules current it =
      (str_join ''::'' ?cur, the (item_visibility it)) # concat (map (tree_modules ?cur) items)"
    by (simp add: tree_modules.simps [of current it] items Let_def)
  show ?case
  proof (cases "n = str_join ''::'' ?cur")
    case True
    then show ?thesis using parent_path [OF 1(3,4) plain(1)] by simp
  next
    case False
    with 1(5) mods obtain i where i: "i \<in> set items" "n \<in> fst ` set (tree_modules ?cur i)" by auto
    have "plain_names i" using plain(2) i(1) by (simp add: list_all_iff)
    with 1(1) [OF items refl i(1) _ _ _ i(2)] 1(4) plain(1) obtain p where
      "p \<in> insert (str_join ''::'' ?cur) (fst ` set (tree_modules ?cur i))" "get_parent_mod_name n = Some p" by auto
    with i(1) mods show ?thesis by auto
  qed
qed

lemma add_modules_simps [simp]:
  "add_modules [] mv = mv" "add_modules ((n, v) # ms) mv = add_modules ms (add_one_mod mv n v)"
  by (simp_all add: add_modules_def)

lemma alist_insert_keys:
  "fst ` set (alist_insert k v xs) = insert k (fst ` set xs)"
  "distinct (map fst xs) \<Longrightarrow> distinct (map fst (alist_insert k v xs))"
proof -
  show keys: "fst ` set (alist_insert k v xs) = insert k (fst ` set xs)" for k v and xs :: "('a \<times> 'b) list"
    by (induction k v xs rule: alist_insert.induct) auto
  show "distinct (map fst xs) \<Longrightarrow> distinct (map fst (alist_insert k v xs))"
  proof (induction k v xs rule: alist_insert.induct)
    case (2 k v k' v' xs)
    then show ?case using keys [of k v xs] by auto
  qed simp
qed

lemma add_modules_keys:
  "mv_crate_name (add_modules ms mv) = mv_crate_name mv"
  "fst ` set (mv_inner (add_modules ms mv)) = fst ` set (mv_inner mv) \<union> fst ` set ms"
  "distinct (map fst (mv_inner mv)) \<Longrightarrow> distinct (map fst (mv_inner (add_modules ms mv)))"
  by (induction ms arbitrary: mv; force simp: add_one_mod_def alist_insert_keys)+

lemma crate_mods_wf:
  assumes "plain_names it" and "module_items (item_kind it) = Some items" and "item_name it = Some crate"
  shows "mods_wf (add_modules (tree_modules [] it) (ModVisibity_new crate))"
proof -
  have plain: "plain crate" "list_all plain_names items"
    using assms by (simp_all add: plain_names.simps [of it])
  have mods: "tree_modules [] it = (crate, the (item_visibility it)) # concat (map (tree_modules [crate]) items)"
    by (simp add: tree_modules.simps [of "[]" it] assms(2,3))
  have "\<exists>p \<in> fst ` set (tree_modules [] it). get_parent_mod_name n = Some p"
    if n: "n \<in> fst ` set (tree_modules [] it)" "n \<noteq> crate" for n
  proof -
    from n mods obtain i where i: "i \<in> set items" "n \<in> fst ` set (tree_modules [crate] i)" by auto
    with plain tree_modules_parent [of i "[crate]" n] obtain p where
      "p \<in> insert crate (fst ` set (tree_modules [crate] i))" "get_parent_mod_name n = Some p"
      by (auto simp: list_all_iff)
    with i(1) mods show ?thesis by auto
  qed
  then show ?thesis
    unfolding mods_wf_def add_modules_keys(1,2)
    using add_modules_keys(3) [of "ModVisibity_new crate" "tree_modules [] it"] mods
    by (simp add: ModVisibity_new_def)
qed

section \<open>The graph of a crate is well formed\<close>

definition good_function :: "ApiFunction \<Rightarrow> bool" where
  "good_function f \<longleftrightarrow> resolved_function f \<and> primitive_map (generic_substitutions f)"

lemma good_with_i32: "good_function f \<Longrightarrow> good_function (with_i32_substitutions f)"
  using with_i32_primitive [of f] by (simp add: good_function_def with_i32_substitutions_def resolved_function_def)

lemma crate_methods_good:
  assumes "crate_cache_ok c" and "f \<in> set (crate_methods c m)"
  shows "good_function f"
proof -
  from assms(2) obtain i where i: "i \<in> set (known_impls c m)" "f \<in> set (impl_functions (Cache.truncate c) m i)"
    by (auto simp: crate_methods_def)
  then have "impl_ok (Cache.truncate c) i" using assms(1) by (auto simp: known_impls_def crate_cache_ok_def)
  from block_functions_resolved [OF this] i(2) have "resolved_function f"
    by (auto simp: impl_functions_def list_all_iff)
  moreover have "generic_substitutions f = Map.empty"
    using i(2) unfolding impl_functions_def by (elim block_functions_origin) (simp add: method_function_def)
  ultimately show ?thesis by (simp add: good_function_def primitive_map_def)
qed

lemma tree_functions_good:
  assumes "tree_ok it" and "f \<in> set (tree_functions current it)"
  shows "good_function f"
  using assms
proof (induction current it arbitrary: f rule: tree_functions.induct)
  case (1 current it)
  show ?case
  proof (cases "module_items (item_kind it)")
    case None
    with 1(3) obtain fn n where fn: "item_kind it = FunctionItem fn" "item_name it = Some n"
        "f = \<lparr>full_name = str_join ''::'' (current @ [n]), generics = fn_generics fn, generic_substitutions = Map.empty,
               inputs = map arg_type (decl_inputs (fn_decl fn)),
               output_type = extract_output_type (decl_output (fn_decl fn)),
               trait_full_path = None, unsafe_tag = item_unsafety it, visibility = the (item_visibility it)\<rparr>"
      by (cases "item_kind it"; cases "item_name it") (auto simp: tree_functions.simps [of current it])
    with 1(2) None have "fn_resolved fn" by (simp add: tree_ok.simps [of it])
    with fn(3) show ?thesis
      by (auto simp: good_function_def primitive_map_def resolved_function_def fn_resolved_def list_all_iff
          extract_output_type_def split: FnRetTy.splits)
  next
    case (Some items)
    with 1(3) obtain i where i: "i \<in> set items" "f \<in> set (tree_functions (current @ [the (item_name it)]) i)"
      by (auto simp: tree_functions.simps [of current it])
    moreover have "tree_ok i" using 1(2) Some i(1) by (simp add: tree_ok.simps [of it] list_all_iff)
    ultimately show ?thesis using 1(1) [OF Some] by blast
  qed
qed

text \<open>A crate as rustdoc hands it over.\<close>

definition crate_given :: "'b init_env \<Rightarrow> bool" where
  "crate_given e \<longleftrightarrow> crate_cache_ok (env_cache e) \<and> tree_ok (env_module e) \<and> plain_names (env_module e) \<and>
     module_items (item_kind (env_module e)) \<noteq> None \<and> item_name (env_module e) = Some (env_crate_name e)"

lemma find_all_dependencies_keeps:
  "find_all_dependencies g sg = Some g' \<Longrightarrow> api_sequences g' = api_sequences g \<and> crate_name g' = crate_name g"
  by (auto simp: find_all_dependencies_def split: bind_splits)

lemma find_all_dependencies_range:
  assumes "find_all_dependencies g False = Some g'"
  shows "edges_in_range g'"
  using find_all_dependencies_edges [OF assms] find_all_dependencies_fields(1) [OF assms]
  by (auto simp: edges_in_range_def expected_edge_def)

lemma filter_functions_result:
  assumes "mods_wf (mod_visibility g)"
  shows "\<exists>g'. filter_functions g False = Some g' \<and> set (api_functions g') \<subseteq> set (api_functions g) \<and>
    api_sequences g' = api_sequences g \<and> crate_name g' = crate_name g"
proof -
  let ?g = "filter_functions_defined_on_prelude_type g"
  have keeps: "mod_visibility ?g = mod_visibility g" "api_sequences ?g = api_sequences g" "crate_name ?g = crate_name g"
      "set (api_functions ?g) \<subseteq> set (api_functions g)"
    by (auto simp: filter_functions_defined_on_prelude_type_def Let_def)
  from invisible_mods_result [OF assms] obtain ms where "get_invisible_mods (mod_visibility g) = Some ms" by blast
  moreover have "mv_inner (mod_visibility g) \<noteq> []" using assms by (auto simp: mods_wf_def)
  ultimately show ?thesis
    using keeps by (auto simp: filter_functions_def filter_api_functions_by_mod_visibility_def)
qed

lemma build_api_graph_result:
  assumes "crate_given e"
  shows "\<exists>g. build_api_graph e False = Some g \<and> graph_wf g \<and> edges_in_range g \<and> api_sequences g = [] \<and>
    crate_name g = env_crate_name e \<and>
    set (api_functions g) \<subseteq> with_i32_substitutions ` (set (crate_methods (env_cache e) (crate_names (env_cache e) FullNameMap_new)) \<union>
      set (tree_functions [] (env_module e)))"
proof -
  let ?c = "env_cache e" and ?it = "env_module e"
  let ?m = "crate_names ?c FullNameMap_new" and ?g0 = "ApiGraph_new (env_crate_name e) (Cache.truncate (env_cache e))"
  have ok: "crate_cache_ok ?c" "tree_ok ?it" "plain_names ?it" "item_name ?it = Some (env_crate_name e)"
    using assms by (simp_all add: crate_given_def)
  obtain items where items: "module_items (item_kind ?it) = Some items" using assms by (auto simp: crate_given_def)
  from extract_impls_result [OF ok(1), of FullNameMap_new ?g0] obtain g1 where
    g1: "extract_impls_from_cache ?c FullNameMap_new ?g0 = Some (?m, g1)"
      "grown (set_full_name_map ?g0 ?m) (crate_methods ?c ?m) g1" by blast
  from walk_result [OF ok(2), of "[]" g1] items obtain g2 where
    g2: "add_bare_functions_into_api_graph ?it g1 = Some g2" "walked g1 (tree_modules [] ?it) (tree_functions [] ?it) g2"
    by (auto simp: add_bare_functions_into_api_graph_def)
  note f1 = grown_fields [OF g1(2)] and f2 = walked_fields [OF g2(2)]
  have start: "mod_visibility g1 = ModVisibity_new (env_crate_name e)" "api_sequences g1 = []"
      "crate_name g1 = env_crate_name e"
    by (simp_all add: f1 set_full_name_map_def ApiGraph_new_def)
  let ?fs = "with_i32_substitutions ` (set (crate_methods ?c ?m) \<union> set (tree_functions [] ?it))"
  have fs: "set (api_functions g2) \<subseteq> ?fs"
    unfolding f1 f2 by (auto simp: set_full_name_map_def ApiGraph_new_def)
  have "mods_wf (mod_visibility g2)"
    using crate_mods_wf [OF ok(3) items ok(4)] by (simp add: f2 start)
  from filter_functions_result [OF this] obtain g3 where
    g3: "filter_functions g2 False = Some g3" "set (api_functions g3) \<subseteq> set (api_functions g2)"
      "api_sequences g3 = api_sequences g2" "crate_name g3 = crate_name g2" by blast
  have good: "good_function f" if "f \<in> set (api_functions g3)" for f
    using that g3(2) fs crate_methods_good [OF ok(1)] tree_functions_good [OF ok(2)] good_with_i32 by blast
  then have resolved: "resolved_graph g3" "list_all (\<lambda>f. primitive_map (generic_substitutions f)) (api_functions g3)"
    by (simp_all add: resolved_graph_def list_all_iff good_function_def)
  from find_all_dependencies_returns [OF resolved(1)] obtain g4 where g4: "find_all_dependencies g3 False = Some g4" by blast
  have "build_api_graph e False = Some g4" by (simp add: build_api_graph_def g1(1) g2(1) g3(1) g4)
  moreover have "set (api_functions g4) \<subseteq> ?fs" using find_all_dependencies_fields(1) [OF g4] g3(2) fs by simp
  moreover have "api_sequences g4 = []" "crate_name g4 = env_crate_name e"
    using find_all_dependencies_keeps [OF g4] g3(3,4) by (simp_all add: f2 start)
  ultimately show ?thesis
    using find_all_dependencies_graph_wf [OF g4 resolved] find_all_dependencies_range [OF g4] by blast
qed

end
