(* ===== verification/Driver_Targets.thy ===== *)
theory Driver_Targets
  imports Crate_Driver
begin

text \<open>
  A run of \<open>init\<close> (\<open>context.rs\<close>) on a library: the graph is built, one of the searches fills it with
  sequences, and the targets of well formed sequences are written to its directory.
\<close>

section \<open>The corpus-guided search keeps what one step keeps\<close>

definition my_all :: "(ApiSequence \<Rightarrow> bool) \<Rightarrow> my_state \<Rightarrow> bool" where
  "my_all P st \<longleftrightarrow> (\<forall>s \<in> set (my_sequences st). P s) \<and> (case my_current st of Some s \<Rightarrow> P s | None \<Rightarrow> True)"

definition step_keeps :: "ApiGraph \<Rightarrow> (ApiSequence \<Rightarrow> bool) \<Rightarrow> bool" where
  "step_keeps g P \<longleftrightarrow> P ApiSequence_new \<and>
     (\<forall>i s s'. P s \<longrightarrow> is_fun_satisfied g BareFunction i s = Some (Some s') \<longrightarrow> P s')"

lemma step_keepsD: "step_keeps g P \<Longrightarrow> P s \<Longrightarrow> is_fun_satisfied g BareFunction i s = Some (Some s') \<Longrightarrow> P s'"
  by (auto simp: step_keeps_def)

lemma my_start_step_keeps:
  assumes "step_keeps g P" and "my_start_step g starts max_num st = Some (st', fin)" and "my_all P st"
  shows "my_all P st'"
proof (cases "length (my_sequences st) \<ge> max_num")
  case True
  with assms(2,3) show ?thesis by (simp add: my_start_step_def)
next
  case False
  with assms(2) obtain i p r where "is_fun_satisfied g BareFunction i ApiSequence_new = Some r"
    "st' = (case r of None \<Rightarrow> st\<lparr>my_polling := p\<rparr>
       | Some s \<Rightarrow> st\<lparr>my_polling := p, my_current := Some s, my_need_new := False, my_covered := insert i (my_covered st)\<rparr>)"
    unfolding my_start_step_def Let_def if_not_P [OF False] bind_eq_Some_conv by auto
  moreover have "P ApiSequence_new" using assms(1) by (simp add: step_keeps_def)
  ultimately show ?thesis
    using assms(3) step_keepsD [OF assms(1)] by (cases r) (auto simp: my_all_def)
qed

lemma my_append_keeps:
  assumes "step_keeps g P" and "my_append g s i need_new st = Some (st', fin)" and "my_all P st" and "my_current st = Some s"
  shows "my_all P st'"
  using assms(2-4) step_keepsD [OF assms(1), of s]
  by (auto simp: my_append_def my_all_def bind_eq_Some_conv split: option.splits)

lemma my_inner_step_keeps:
  assumes "step_keeps g P" and "my_inner_step g starts tables max_len c s st = Some (st', fin)"
    and "my_all P st" and "my_current st = Some s"
  shows "my_all P st'"
proof -
  from assms(2) consider (full) "st' = st\<lparr>my_sequences := my_sequences st @ [s], my_current := None\<rparr>"
    | (new) "st' = st\<lparr>my_need_new := True\<rparr>"
    | (append) i need_new where "my_append g s i need_new st = Some (st', fin)"
    by (auto simp: my_inner_step_def bind_eq_Some_conv case_prod_unfold simp del: select_succ.simps index_m_Some
        split: if_splits)
  then show ?thesis
  proof cases
    case append
    from my_append_keeps [OF assms(1) this assms(3,4)] show ?thesis .
  qed (use assms(3,4) in \<open>auto simp: my_all_def\<close>)
qed

lemma my_loop_keeps:
  assumes "step_keeps g P"
  shows "my_loop g starts tables max_num max_len c n st = Some (st', fin) \<Longrightarrow> my_all P st \<Longrightarrow> my_all P st'"
proof (induction n arbitrary: st)
  case (Suc n)
  then obtain st1 fin1 where step: "(case my_current st of
        None \<Rightarrow> my_start_step g starts max_num st
      | Some s \<Rightarrow> my_inner_step g starts tables max_len (c n) s st) = Some (st1, fin1)"
    and rest: "(if fin1 then Some (st1, True) else my_loop g starts tables max_num max_len c n st1) = Some (st', fin)"
    by (auto simp: bind_eq_Some_conv)
  have "my_all P st1"
    using step my_start_step_keeps [OF assms _ Suc.prems(2)] my_inner_step_keeps [OF assms _ Suc.prems(2)]
    by (auto split: option.splits)
  with rest Suc.IH show ?case by (auto split: if_splits)
qed simp

lemma my_method_keeps:
  assumes "step_keeps g P" and "my_method g depfile orderfile funcfile max_num max_len sg c n = Some (g', fin)"
  shows "crate_name g' = crate_name g" and "fin \<Longrightarrow> \<forall>s \<in> set (api_sequences g'). P s"
proof -
  let ?st0 = "\<lparr>my_sequences = [], my_covered = {}, my_polling = 0, my_current = None, my_need_new = False\<rparr>"
  from assms(2) obtain starts weighted r where
    r: "my_loop (reset_visited g) starts weighted max_num max_len c n ?st0 = Some r"
      "my_finish (reset_visited g) r = Some (g', fin)"
    by (auto simp: my_method_def Let_def bind_eq_Some_conv)
  obtain st fin0 where st: "r = (st, fin0)" by (cases r)
  have "step_keeps (reset_visited g) P"
    using assms(1) by (simp add: step_keeps_def same_is_fun_satisfied [of g "reset_visited g"])
  moreover have "my_all P ?st0" by (simp add: my_all_def)
  ultimately have "my_all P st" using my_loop_keeps r(1) unfolding st by blast
  then show "crate_name g' = crate_name g" "fin \<Longrightarrow> \<forall>s \<in> set (api_sequences g'). P s"
    using r(2) by (auto simp: st my_finish_def my_all_def Let_def reset_visited_def split: if_splits)
qed

lemma origin_step_keeps: "step_keeps g (seq_origin g)"
  using is_fun_satisfied_origin by (auto simp: step_keeps_def)

section \<open>The properties of the driver\<close>

text \<open>What the run relies on: the corpus files can be read, some function needs no result of another, and
  the types of the crate can be printed.\<close>

definition searchable :: "search_inputs \<Rightarrow> ApiGraph \<Rightarrow> bool" where
  "searchable inp g \<longleftrightarrow> corpus_readable (dep_file inp) (order_file inp) (func_file inp) \<and>
     extract_start_function g False \<noteq> Some [] \<and> printable_types g \<and> (\<forall>f \<in> set (api_functions g). pretty_print f \<noteq> None)"

lemma run_real_world:
  assumes "graph_wf g" and "edges_in_range g" and "searchable (env_inputs e) g" and "api_sequences g = []"
  shows "\<exists>g' fin. generate_all_possoble_sequences (env_inputs e) (g\<lparr>api_sequences := []\<rparr>) A_UseRealWorld max_num max_len False =
      Some (g', fin) \<and> same_crate g g' \<and> crate_name g' = crate_name g \<and>
    (fin \<longrightarrow> length (api_sequences g') = max_num \<and>
      (\<forall>s \<in> set (api_sequences g'). seq_safe g s \<and> seq_origin g s \<and> seq_len s = max 1 max_len))"
proof -
  let ?inp = "env_inputs e"
  have g: "g\<lparr>api_sequences := []\<rparr> = g" using assms(4) by simp
  have s: "\<forall>f \<in> set (api_functions g). pretty_print f \<noteq> None" "corpus_readable (dep_file ?inp) (order_file ?inp) (func_file ?inp)"
      "extract_start_function g False \<noteq> Some []" using assms(3) by (simp_all add: searchable_def)
  from my_method_result [OF assms(1,2) s, of max_num max_len "my_choices ?inp" "my_steps ?inp"] obtain g' fin where
    r: "my_method g (dep_file ?inp) (order_file ?inp) (func_file ?inp) max_num max_len False (my_choices ?inp) (my_steps ?inp) =
        Some (g', fin)" "same_crate g g'"
      "fin \<longrightarrow> length (api_sequences g') = max_num \<and>
         (\<forall>s \<in> set (api_sequences g'). seq_safe g s \<and> seq_len s = max 1 max_len)" by blast
  from my_method_keeps [OF origin_step_keeps r(1)] r show ?thesis
    by (intro exI [of _ g'] exI [of _ fin]) (auto simp: g generate_all_possoble_sequences_def)
qed

text \<open>The directory of the targets of a crate.\<close>

definition target_path :: "string \<Rightarrow> path" where
  "target_path crate = path_of (get_real_world_crate_test_dir (str_replace crate ''_'' ''-''))"

lemma FileHelper_new_dir:
  assumes "FileHelper_new order g A_UseRealWorld max_size max_len = Some fh"
  shows "path_of (test_dir fh) = target_path (crate_name g)" "fh_crate_name fh = str_replace (crate_name g) ''_'' ''-''"
  using assms by (auto simp: FileHelper_new_def Let_def bind_eq_Some_conv test_dir_of_def target_path_def)

text \<open>The files of a finished run: targets and replays of sequences over the graph.\<close>

definition targets_written ::
  "PreludeHelper list \<Rightarrow> string \<Rightarrow> nat \<Rightarrow> nat \<Rightarrow> ApiGraph \<Rightarrow> ApiGraph \<Rightarrow> file_system \<Rightarrow> bool" where
  "targets_written order crate max_num max_len g g' fs' \<longleftrightarrow> (\<exists>seqs tests replays.
     (\<forall>s \<in> set seqs. seq_safe g s \<and> seq_origin g s \<and> seq_len s = max 1 max_len) \<and>
     length seqs \<le> min 300 (max_num + 1) \<and>
     map Some tests = map (\<lambda>(i, s). to_afl_test_file order g' s i) (enumerate 0 seqs) \<and>
     map Some replays = map (\<lambda>(i, s). to_replay_crash_file order g' s i) (enumerate 0 seqs) \<and>
     dir_with (target_path crate @ [''afl_files'']) (named_files ''test'' (str_replace crate ''_'' ''-'') 0 tests) fs' \<and>
     dir_with (target_path crate @ [''replay_files'']) (named_files ''replay'' (str_replace crate ''_'' ''-'') 0 replays) fs')"

lemma run_strategy_result:
  assumes "graph_wf g" and "edges_in_range g" and "searchable (env_inputs e) g" and "api_sequences g = []"
    and "tree fs" and "\<forall>q. strict_prefix q (target_path (crate_name g)) \<longrightarrow> \<not> is_file fs q"
  shows "\<exists>g' fs' fin. run_strategy e A_UseRealWorld max_num max_len False (g, fs, True) = Some (g', fs', fin) \<and>
    same_crate g g' \<and> (\<not> fin \<longrightarrow> fs' = fs) \<and>
    (fin \<longrightarrow> targets_written (env_helpers e) (crate_name g) max_num max_len g g' fs')"
proof -
  from run_real_world [OF assms(1-4), of max_num max_len] obtain g' fin where
    gen: "generate_all_possoble_sequences (env_inputs e) (g\<lparr>api_sequences := []\<rparr>) A_UseRealWorld max_num max_len False =
        Some (g', fin)" "same_crate g g'" "crate_name g' = crate_name g"
      "fin \<longrightarrow> (\<forall>s \<in> set (api_sequences g'). seq_safe g s \<and> seq_origin g s \<and> seq_len s = max 1 max_len)" by blast
  show ?thesis
  proof (cases fin)
    case False
    with gen(1,2) show ?thesis
      by (intro exI [of _ g'] exI [of _ fs] exI [of _ False]) (simp add: run_strategy_def)
  next
    case True
    have "\<forall>s \<in> set (api_sequences g'). writable g' s"
      using gen(4) True assms(3) origin_printable [of g]
      by (simp add: writable_def searchable_def same_seq_safe [OF gen(2)])
    moreover have "graph_wf g'" "\<forall>f \<in> set (api_functions g'). pretty_print f \<noteq> None"
      using assms(1,3) by (simp_all add: same_graph_wf [OF gen(2)] same_fields [OF gen(2)] searchable_def)
    ultimately obtain fh seqs where fh: "FileHelper_new (env_helpers e) g' A_UseRealWorld max_num max_len = Some fh"
        "set seqs \<subseteq> set (api_sequences g')" "length (test_files fh) = min 300 (length seqs)"
        "length (test_files fh) \<le> max_num + 1"
        "map Some (test_files fh) = map (\<lambda>(i, s). to_afl_test_file (env_helpers e) g' s i) (enumerate 0 (take 300 seqs))"
        "map Some (reproduce_files fh) =
           map (\<lambda>(i, s). to_replay_crash_file (env_helpers e) g' s i) (enumerate 0 (take 300 seqs))"
      using file_helper_result [of g' "env_helpers e" A_UseRealWorld max_num max_len] by blast
    note dir = FileHelper_new_dir [OF fh(1), unfolded gen(3)]
    from write_files_result [OF assms(5), of fh, unfolded dir, OF assms(6)] obtain fs' where
      fs': "write_files fh fs = Some fs'"
        "dir_with (target_path (crate_name g) @ [''afl_files''])
          (named_files ''test'' (str_replace (crate_name g) ''_'' ''-'') 0 (test_files fh)) fs'"
        "dir_with (target_path (crate_name g) @ [''replay_files''])
          (named_files ''replay'' (str_replace (crate_name g) ''_'' ''-'') 0 (reproduce_files fh)) fs'"
      by blast
    have run: "run_strategy e A_UseRealWorld max_num max_len False (g, fs, True) = Some (g', fs', True)"
      using gen(1) True fh(1) fs'(1) by (simp add: run_strategy_def can_write_to_file_def)
    have "\<forall>s \<in> set (take 300 seqs). seq_safe g s \<and> seq_origin g s \<and> seq_len s = max 1 max_len"
      using fh(2) gen(4) True by (meson in_set_takeD subsetD)
    moreover have "length (take 300 seqs) \<le> min 300 (max_num + 1)" using fh(3,4) by simp
    ultimately have "targets_written (env_helpers e) (crate_name g) max_num max_len g g' fs'"
      unfolding targets_written_def using fh(5,6) fs'(2,3) by blast
    with run gen(2) show ?thesis by blast
  qed
qed

text \<open>C1. A run of the tool on a library of the experiments: on a crate as rustdoc hands it over the graph
  is built without a panic from its methods and functions; when it can be searched, the run returns
  and writes, once the corpus-guided search has ended, exactly the generated targets and their replays
  under the directory of the crate. Each target is that of a safe sequence of 15 calls whose fuzzed
  arguments come from the types of their parameters, and there are at most 101 of them. rustdoc's loop
  over the items then ends without an error and leaves the files as they are, whatever output format
  was asked for. Before the search has
  ended nothing is written and the run has not returned.\<close>

theorem run_writes_targets:
  assumes "crate_given e" and "env_crate_name e \<in> set REAL_WORLD_CRATE"
    and "str_split ''/'' (env_out_dir e) = dirs @ [d, last_dir]" and "d \<noteq> ''target''"
    and "\<forall>g. build_api_graph e False = Some g \<longrightarrow> searchable (env_inputs e) g"
    and "tree fs" and "\<forall>q. strict_prefix q (target_path (env_crate_name e)) \<longrightarrow> \<not> is_file fs q"
  shows "\<exists>g g' fs' fin. build_api_graph e False = Some g \<and> graph_wf g \<and> same_crate g g' \<and> init e fs = Some (fs', fin) \<and>
    render_crate False False fmt (fuzz_renderer e) emit_crate fs = (if fin then Some (fs', Inr ()) else None) \<and>
    (\<not> fin \<longrightarrow> fs' = fs) \<and> (fin \<longrightarrow> targets_written (env_helpers e) (env_crate_name e) 100 15 g g' fs')"
proof -
  from build_api_graph_result [OF assms(1)] obtain g where g: "build_api_graph e False = Some g" "graph_wf g"
      "edges_in_range g" "api_sequences g = []" "crate_name g = env_crate_name e" by blast
  from run_strategy_result [OF g(2,3) _ g(4) assms(6), of e 100 15] assms(5,7) g(1,5) obtain g' fs' fin where
    run: "run_strategy e A_UseRealWorld 100 15 False (g, fs, True) = Some (g', fs', fin)" "same_crate g g'"
      "\<not> fin \<longrightarrow> fs' = fs" "fin \<longrightarrow> targets_written (env_helpers e) (env_crate_name e) 100 15 g g' fs'" by auto
  have "init e fs = generate_test_files e fs"
    using assms(3,4) by (simp add: init_def sub_m_def)
  also have "\<dots> = Some (fs', fin)"
    using assms(2) g(1) run(1) by (simp add: generate_test_files_def)
  finally have init: "init e fs = Some (fs', fin)" .
  from assms(1) have "tree_ok (env_module e)" by (simp add: crate_given_def)
  from run_fuzz_renderer [OF this init] init g(1,2) run(2-4) show ?thesis by blast
qed

text \<open>A crate \<open>url\<close> with the function \<open>url::parse\<close> on a number.\<close>

definition parse_fn :: ApiFunction where
  "parse_fn = \<lparr>full_name = ''url::parse'', generics = [], generic_substitutions = Map.empty, inputs = [T_Primitive P_U32],
     output_type = None, trait_full_path = None, unsafe_tag = Normal, visibility = Public\<rparr>"

definition url_env :: "bool list init_env" where
  "url_env = \<lparr>env_out_dir = ''/home/doc/x'', env_current_dir = ''/'', env_current_dir_debug = [], env_crate_name = ''url'',
     env_module = MkItem (Some ''url'') (Some Public) Normal (ModuleItem
        [MkItem (Some ''parse'') (Some Public) Normal (FunctionItem
          \<lparr>fn_decl = \<lparr>decl_inputs = [\<lparr>arg_type = T_Primitive P_U32, arg_name = ''n'', arg_is_const = False\<rparr>],
             decl_output = DefaultReturn\<rparr>, fn_generics = []\<rparr>)]),
     env_cache = \<lparr>primitive_locations = Map.empty, cache_paths = [], cache_external_paths = [], cache_impls = []\<rparr>,
     env_tcx = sample_tcx, env_bits = list_bit_ops, env_strip = id, env_pair_iter = (\<lambda>m. []), env_func_iter = (\<lambda>m. []),
     env_inputs = no_inputs, env_helpers = [OptionHelper, ResultHelper]\<rparr>"

lemma url_given: "crate_given url_env"
  by (simp add: crate_given_def url_env_def crate_cache_ok_def tree_ok.simps plain_names.simps plain_def item_type_def
      visible_here_def expect_local_def fn_resolved_def)

lemma url_functions: "tree_functions [] (env_module url_env) = [parse_fn]"
    "tree_modules [] (env_module url_env) = [(''url'', Public)]"
  by (simp_all add: url_env_def tree_functions.simps tree_modules.simps parse_fn_def extract_output_type_def)

lemma parse_fn_accepted: "accepted g parse_fn"
  by (simp add: accepted_def contains_unsupported_fuzzable_type_def unsupported_input_def is_fuzzable_type_def
      parse_fn_def)

lemma parse_fn_kept:
  assumes "api_functions g = [parse_fn]" and "mod_visibility g = \<lparr>mv_crate_name = ''url'', mv_inner = [(''url'', Public)]\<rparr>"
  shows "\<exists>g'. filter_functions g False = Some g' \<and> api_functions g' = [parse_fn]"
proof -
  have "is_not_defined_on_prelude_type get_all_preluded_type parse_fn" "\<not> is_generic_function parse_fn"
      "list_all (\<lambda>n. \<not> str_contains (full_name parse_fn) n) excluded_names"
    by code_simp+
  moreover have "get_invisible_mods \<lparr>mv_crate_name = ''url'', mv_inner = [(''url'', Public)]\<rparr> = Some []" by code_simp
  then have "get_invisible_mods (mod_visibility g) = Some []" "mv_inner (mod_visibility g) \<noteq> []"
    by (simp_all add: assms(2))
  moreover have "visibility parse_fn = Public" by (simp add: parse_fn_def)
  ultimately show ?thesis
    using assms by (simp add: filter_functions_def filter_api_functions_by_mod_visibility_def Let_def
        filter_functions_defined_on_prelude_type_def)
qed

lemma url_graph:
  assumes "build_api_graph url_env False = Some g"
  shows "api_functions g = [parse_fn]" "api_dependencies g = []"
proof -
  let ?g = "ApiGraph_new ''url'' (Cache.truncate (env_cache url_env))"
  obtain m g1 where g1: "extract_impls_from_cache (env_cache url_env) FullNameMap_new ?g = Some (m, g1)" "api_functions g1 = []"
      "mod_visibility g1 = \<lparr>mv_crate_name = ''url'', mv_inner = []\<rparr>"
    by (simp add: extract_impls_from_cache_def url_env_def collect_impls_def CrateImplCollection_new_def set_full_name_map_def
        ApiGraph_new_def ModVisibity_new_def Let_def)
  obtain g2 where g2: "add_bare_functions_into_api_graph (env_module url_env) g1 = Some g2"
      "walked g1 (tree_modules [] (env_module url_env)) (tree_functions [] (env_module url_env)) g2"
    using walk_result [of "env_module url_env" "[]" g1] url_given
    by (auto simp: add_bare_functions_into_api_graph_def crate_given_def)
  have "with_i32_substitutions parse_fn = parse_fn" by (simp add: with_i32_substitutions_def parse_fn_def)
  then have "api_functions g2 = [parse_fn]" "mod_visibility g2 = \<lparr>mv_crate_name = ''url'', mv_inner = [(''url'', Public)]\<rparr>"
    using walked_fields(1,4) [OF g2(2)] g1(2,3) parse_fn_accepted by (simp_all add: url_functions add_one_mod_def)
  from parse_fn_kept [OF this] obtain g3 where g3: "filter_functions g2 False = Some g3" "api_functions g3 = [parse_fn]" by blast
  have name: "env_crate_name url_env = ''url''" by (simp add: url_env_def)
  have g: "find_all_dependencies g3 False = Some g"
    using assms by (simp add: build_api_graph_def name g1(1) g2(1) g3(1))
  with g3(2) show "api_functions g = [parse_fn]" by (simp add: find_all_dependencies_fields(1))
  have "\<not> expected_edge g3 i j k ct" for i j k ct
    using g3(2) by (auto simp: expected_edge_def parse_fn_def)
  with find_all_dependencies_edges [OF g] show "api_dependencies g = []" by (metis list.set_intros(1) neq_Nil_conv)
qed

lemma url_searchable:
  assumes "build_api_graph url_env False = Some g"
  shows "searchable (env_inputs url_env) g"
proof -
  note f = url_graph [OF assms]
  have "extract_start_function g False \<noteq> Some []"
    by (simp add: extract_start_function_def f is_start_function_def parse_fn_def)
  moreover have "printable_types g"
    by (auto simp: printable_types_def f fuzz_from_def parse_fn_def actual_type_def)
  moreover have "corpus_readable (dep_file no_inputs) (order_file no_inputs) (func_file no_inputs)"
    using no_inputs_ok by (simp add: inputs_ok_def)
  moreover have "pretty_print parse_fn \<noteq> None" by (simp add: pretty_print_def parse_fn_def)
  ultimately show ?thesis by (simp add: searchable_def f url_env_def)
qed

lemma run_writes_targets_witness:
  "\<exists>g fs' fin. build_api_graph url_env False = Some g \<and> init url_env Map.empty = Some (fs', fin) \<and>
    render_crate False False Html (fuzz_renderer url_env) True Map.empty = (if fin then Some (fs', Inr ()) else None) \<and>
    (\<not> fin \<longrightarrow> fs' = Map.empty)"
proof -
  have "env_crate_name url_env \<in> set REAL_WORLD_CRATE" by (simp add: url_env_def REAL_WORLD_CRATE_def)
  moreover have "str_split ''/'' (env_out_dir url_env) = [[], ''home''] @ [''doc'', ''x'']"
    by (simp add: url_env_def str_split_def starts_with_def)
  moreover have "tree Map.empty" "\<forall>q. strict_prefix q (target_path (env_crate_name url_env)) \<longrightarrow> \<not> is_file Map.empty q"
    by (simp_all add: tree_def is_file_def)
  ultimately show ?thesis
    using run_writes_targets [OF url_given, of "[[], ''home'']" "''doc''" "''x''" Map.empty] url_searchable by blast
qed

end
