(* ===== verification/Driver_Corpus.thy ===== *)
theory Driver_Corpus
  imports Driver_Targets
begin

text \<open>
  A run of \<open>init\<close> (\<open>context.rs\<close>) on a corpus program: its functions are analysed, and what they do with the
  tested library is appended to the files of the library.
\<close>

section \<open>Corpus programs\<close>

definition is_fn_kind :: "DefKind \<Rightarrow> bool" where
  "is_fn_kind k \<longleftrightarrow> k \<in> {DK_Fn, DK_AssocFn, DK_Closure, DK_Generator}"

text \<open>What the compiler guarantees of the current crate: the bodies of its functions are well formed, and a
  function with a body that one of them calls is among them.\<close>

definition program_given :: "Tcx \<Rightarrow> bool" where
  "program_given tcx \<longleftrightarrow> distinct (body_owners tcx) \<and>
     (\<forall>d \<in> set (body_owners tcx). is_fn_kind (def_kind tcx d) \<longrightarrow>
        Local_Deps.body_ok (optimized_mir tcx d) \<and> Extract_Dep.calls_ok (optimized_mir tcx d)) \<and>
     (\<forall>d. def_kind tcx d \<in> {DK_Fn, DK_AssocFn} \<longrightarrow> new_by_callee_def_id tcx d \<noteq> None \<longrightarrow> d \<in> set (body_owners tcx))"

definition site_kind :: "Tcx \<Rightarrow> CallSite \<Rightarrow> bool" where
  "site_kind tcx s = (case site_function s of
     LC_DirectCall d \<Rightarrow> def_kind tcx d \<in> {DK_Fn, DK_AssocFn}
   | LC_LocalFunctionPtr _ \<Rightarrow> True)"

lemma call_sites_kind:
  assumes "extract_function_call tcx body = Some sites"
  shows "list_all (site_kind tcx) sites"
proof (rule fold_m_invariant [where I = "list_all (site_kind tcx)", OF assms [unfolded calls_visited]])
  fix c sites sites' assume "list_all (site_kind tcx) sites" "visit_call tcx body c sites = Some sites'"
  moreover from this(2) obtain r where r: "call_type_of tcx (call_func c) = Some r" by (auto simp: visit_call_def bind_eq_Some_conv)
  moreover have "case r of Some (LC_DirectCall d) \<Rightarrow> def_kind tcx d \<in> {DK_Fn, DK_AssocFn} | _ \<Rightarrow> True"
    using r by (auto simp: call_type_of_def split: Operand.splits Ty.splits DefKind.splits)
  ultimately show "list_all (site_kind tcx) sites'"
    by (cases r) (auto simp: visit_call_def bind_eq_Some_conv site_kind_def split: LocalCallType.splits)
qed simp

lemma direct_callee_kind:
  assumes "analyse_body ops tcx caller body = Some info" and "cd \<in> set (callee_dependencies info)"
    and "cd_callee cd = Callee_DirectCall d"
  shows "def_kind tcx d \<in> {DK_Fn, DK_AssocFn}"
proof -
  from assms(1) obtain sites origins where sites: "extract_function_call tcx body = Some sites"
      "map_m (callee_dependency origins) sites = Some (callee_dependencies info)"
    by (auto simp: analyse_body_def bind_eq_Some_conv Let_def)
  from map_m_mem [OF sites(2) assms(2)] obtain s where "s \<in> set sites" "callee_dependency origins s = Some cd" by blast
  moreover from this(2) assms(3) have "site_function s = LC_DirectCall d"
    by (auto simp: callee_dependency_def bind_eq_Some_conv split: LocalCallType.splits)
  ultimately show ?thesis using call_sites_kind [OF sites(1)] by (auto simp: list_all_iff site_kind_def)
qed

lemma extract_all_loop:
  assumes "bit_vector ops" and "distinct ds" and "set ds \<inter> fst ` set acc = {}"
    and "\<forall>d \<in> set ds. is_fn_kind (def_kind tcx d) \<longrightarrow>
        Local_Deps.body_ok (optimized_mir tcx d) \<and> Extract_Dep.calls_ok (optimized_mir tcx d)"
    and "\<forall>(d, f) \<in> set acc. analyse_body ops tcx d (optimized_mir tcx d) = Some f"
  shows "\<exists>fns. fold_m (\<lambda>d fns.
        if def_kind tcx d \<in> {DK_Fn, DK_AssocFn, DK_Closure, DK_Generator} then
          do { info \<leftarrow> analyse_body ops tcx d (optimized_mir tcx d);
               if map_of fns d = None then Some (fns @ [(d, info)]) else None }
        else Some fns) ds acc = Some fns \<and>
    map fst fns = map fst acc @ filter (\<lambda>d. is_fn_kind (def_kind tcx d)) ds \<and>
    (\<forall>(d, f) \<in> set fns. analyse_body ops tcx d (optimized_mir tcx d) = Some f)"
  using assms(2-)
proof (induction ds arbitrary: acc)
  case (Cons d ds)
  show ?case
  proof (cases "is_fn_kind (def_kind tcx d)")
    case True
    with Cons.prems(3) have "Local_Deps.body_ok (optimized_mir tcx d)" "Extract_Dep.calls_ok (optimized_mir tcx d)" by auto
    from bit_vector.body_analysed [OF assms(1) this, of tcx d] obtain info where
      info: "analyse_body ops tcx d (optimized_mir tcx d) = Some info" by blast
    with Cons.IH [of "acc @ [(d, info)]"] Cons.prems True info show ?thesis
      by (auto simp: is_fn_kind_def map_of_eq_None_iff)
  next
    case False
    with Cons.IH [of acc] Cons.prems show ?thesis by (auto simp: is_fn_kind_def)
  qed
qed simp

lemma extract_all_result:
  assumes "bit_vector ops" and "program_given tcx"
  shows "\<exists>fns. extract_all_dependencies ops tcx = Some fns \<and>
    map fst fns = filter (\<lambda>d. is_fn_kind (def_kind tcx d)) (body_owners tcx) \<and> fns_ok tcx fns"
proof -
  from extract_all_loop [OF assms(1), of "body_owners tcx" "[]" tcx] assms(2) obtain fns where
    fns: "extract_all_dependencies ops tcx = Some fns"
      "map fst fns = filter (\<lambda>d. is_fn_kind (def_kind tcx d)) (body_owners tcx)"
      "\<forall>(d, f) \<in> set fns. analyse_body ops tcx d (optimized_mir tcx d) = Some f"
    by (auto simp: extract_all_dependencies_def program_given_def)
  have keys: "fst ` set fns = {d \<in> set (body_owners tcx). is_fn_kind (def_kind tcx d)}"
    using arg_cong [OF fns(2), of set] by auto
  have "arg_count (fn_mir f) < length (local_decls (fn_mir f)) \<and> list_all (callee_known tcx fns) (callee_dependencies f)"
    if df: "(d, f) \<in> set fns" for d f
  proof
    have run: "analyse_body ops tcx d (optimized_mir tcx d) = Some f" using fns(3) df by auto
    have "d \<in> set (body_owners tcx)" "is_fn_kind (def_kind tcx d)" using keys df by force+
    then have "Local_Deps.body_ok (optimized_mir tcx d)" using assms(2) by (simp add: program_given_def)
    moreover have "fn_mir f = optimized_mir tcx d" using run by (auto simp: analyse_body_def bind_eq_Some_conv Let_def)
    ultimately show "arg_count (fn_mir f) < length (local_decls (fn_mir f))" by (simp add: Local_Deps.body_ok_def)
    have "callee_known tcx fns cd" if cd: "cd \<in> set (callee_dependencies f)" for cd
    proof (cases "cd_callee cd")
      case (Callee_DirectCall x)
      from direct_callee_kind [OF run cd this] have k: "def_kind tcx x \<in> {DK_Fn, DK_AssocFn}" .
      have "x \<in> set (body_owners tcx)" if "new_by_callee_def_id tcx x \<noteq> None"
        using assms(2) k that unfolding program_given_def by blast
      then have "x \<in> fst ` set fns" if "new_by_callee_def_id tcx x \<noteq> None"
        using that k keys by (auto simp: is_fn_kind_def)
      then show ?thesis
        by (cases "new_by_callee_def_id tcx x") (auto simp: callee_known_def Callee_DirectCall map_of_eq_None_iff)
    qed (simp add: callee_known_def)
    then show "list_all (callee_known tcx fns) (callee_dependencies f)" by (simp add: list_all_iff)
  qed
  then have "fns_ok tcx fns" by (auto simp: fns_ok_def list_all_iff)
  with fns(1,2) show ?thesis by blast
qed

lemma ExtractInfo_new_result:
  assumes "fns_ok tcx fns" and "current \<noteq> t"
  shows "\<exists>info. ExtractInfo_new tcx current t fns True = Some info"
proof -
  obtain seqs where "extract_sequence tcx current t fns True = Some seqs"
    using sequences_fold [OF assms(1), of fns "[]" t "{}"] assms(2) by (auto simp: extract_sequence_def)
  moreover obtain m where "extract_info tcx current t fns True = Some m"
  proof -
    have "maps_of [] [] {} = \<lparr>pre_succ_map = Map.empty, order_map = Map.empty, function_map = Map.empty\<rparr>"
      by (simp add: maps_of_def count_map_def)
    then show thesis
      using count_entries [OF assms(1), of "[]" fns t "[]" "[]" "{}"] assms(2) that
      by (simp add: extract_info_def fns_names_def Let_def)
  qed
  ultimately show ?thesis by (simp add: ExtractInfo_new_def)
qed

text \<open>The file \<open>name\<close> has grown by \<open>s\<close>, and nothing else has changed.\<close>

definition appended :: "string \<Rightarrow> string \<Rightarrow> file_system \<Rightarrow> file_system" where
  "appended name s fs = fs(info_path experiment_root tested_lib_name name \<mapsto>
     File_Node (file_text fs (info_path experiment_root tested_lib_name name) @ s))"

lemma append_info:
  assumes "info_dir_ok experiment_root tested_lib_name fs" and "name \<in> set info_names"
  shows "append_file fs (info_path experiment_root tested_lib_name name) s = Some (appended name s fs)"
    and "info_dir_ok experiment_root tested_lib_name (appended name s fs)"
  using append_file_result [OF assms, of s] by (auto simp: appended_def)

text \<open>C7. A run of the tool on a corpus program: below the experiment directory, on a program as the compiler
  gives it that is not the tested library, the bodies of all its functions are analysed, the sequences
  and counts are extracted, and the four files are extended by one line for each sequence, pair of
  dependent calls, pair of neighbouring calls and function; nothing else changes, and rustdoc's loop
  over the items ends without an error.\<close>

theorem run_extends_corpus:
  assumes "bit_vector (env_bits e)" and "program_given (env_tcx e)" and "env_crate_name e \<noteq> ''semver''"
    and "tree_ok (env_module e)"
    and "str_split ''/'' (env_out_dir e) = dirs @ [''target'', last_dir]"
    and "prefix (path_of experiment_root) (path_of (env_current_dir e))"
    and "info_dir_ok experiment_root tested_lib_name fs"
  shows "\<exists>fns info. extract_all_dependencies (env_bits e) (env_tcx e) = Some fns \<and>
    map fst fns = filter (\<lambda>d. is_fn_kind (def_kind (env_tcx e) d)) (body_owners (env_tcx e)) \<and>
    ExtractInfo_new (env_tcx e) (env_crate_name e) ''semver'' fns True = Some info \<and>
    render_crate False False fmt (fuzz_renderer e) emit_crate fs = Some
      (appended ''funcinfo'' (concat (map (\<lambda>p. func_line (env_strip e) (env_current_dir_debug e) p @ nl)
         (enumerate 0 (env_func_iter e (function_info info)))))
       (appended ''orderinfo'' (concat (map (\<lambda>p. pair_line (env_strip e) p @ nl)
          (enumerate 0 (env_pair_iter e (order_info info)))))
        (appended ''depinfo'' (concat (map (\<lambda>p. pair_line (env_strip e) p @ nl)
           (enumerate 0 (env_pair_iter e (dependencies_info info)))))
         (appended ''seq'' (concat (map (\<lambda>p. sequence_line p @ nl) (enumerate 0 (all_sequences info)))) fs))), Inr ())"
proof -
  from extract_all_result [OF assms(1,2)] obtain fns where
    fns: "extract_all_dependencies (env_bits e) (env_tcx e) = Some fns"
      "map fst fns = filter (\<lambda>d. is_fn_kind (def_kind (env_tcx e) d)) (body_owners (env_tcx e))"
      "fns_ok (env_tcx e) fns" by blast
  from ExtractInfo_new_result [OF fns(3) assms(3)] obtain info where
    info: "ExtractInfo_new (env_tcx e) (env_crate_name e) ''semver'' fns True = Some info" by blast
  have lib: "str_replace tested_lib_name ''-'' ''_'' = ''semver''" by code_simp
  have names: "''seq'' \<in> set info_names" "''depinfo'' \<in> set info_names" "''orderinfo'' \<in> set info_names"
      "''funcinfo'' \<in> set info_names" by (simp_all add: info_names_def)
  note files = append_info(1) [OF _ names(1)] append_info(1) [OF _ names(2)] append_info(1) [OF _ names(3)]
    append_info(1) [OF _ names(4)] append_info(2) [OF _ names(1)] append_info(2) [OF _ names(2)]
    append_info(2) [OF _ names(3)] append_info(2) [OF _ names(4)]
  have "init e fs = Option.bind (parse_corpus_program e fs) (\<lambda>fs'. Some (fs', True))"
    using assms(5) by (simp add: init_def sub_m_def)
  moreover have "parse_corpus_program e fs = Some
      (appended ''funcinfo'' (concat (map (\<lambda>p. func_line (env_strip e) (env_current_dir_debug e) p @ nl)
         (enumerate 0 (env_func_iter e (function_info info)))))
       (appended ''orderinfo'' (concat (map (\<lambda>p. pair_line (env_strip e) p @ nl)
          (enumerate 0 (env_pair_iter e (order_info info)))))
        (appended ''depinfo'' (concat (map (\<lambda>p. pair_line (env_strip e) p @ nl)
           (enumerate 0 (env_pair_iter e (dependencies_info info)))))
         (appended ''seq'' (concat (map (\<lambda>p. sequence_line p @ nl) (enumerate 0 (all_sequences info)))) fs))))"
    using assms(6,7) fns(1) info
    by (simp del: info_path_simp add: parse_corpus_program_def Let_def lib ExtractInfo_print_sequence_def
        print_dependencies_info_def print_order_info_def print_functions_info_def files)
  ultimately show ?thesis using fns(1,2) info run_fuzz_renderer [OF assms(4), of fs _ True fmt emit_crate] by simp
qed

definition corpus_env :: "bool list init_env" where
  "corpus_env = url_env\<lparr>env_out_dir := ''/r/target/doc'', env_crate_name := ''app'',
     env_current_dir := ''/home/yxz/workspace/fuzz/experiment_root/semver/app'',
     env_tcx := sample_tcx\<lparr>def_kind := \<lambda>d. if d \<in> {(0, 1), (1, 7)} then DK_Fn else DK_Other ''Struct''\<rparr>\<rparr>"

lemma corpus_given: "program_given (env_tcx corpus_env)"
  using sample_body_ok sample_calls_ok by (auto simp: program_given_def corpus_env_def sample_tcx_def new_by_callee_def_id_def)

lemma root_path: "path_of experiment_root = [''/'', ''home'', ''yxz'', ''workspace'', ''fuzz'', ''experiment_root'']"
  by code_simp

lemma run_extends_corpus_witness:
  "\<exists>fs. render_crate False False Html (fuzz_renderer corpus_env) True [path_of experiment_root @ [''semver''] \<mapsto> Dir_Node] = Some (fs, Inr ())"
proof -
  have "path_join (path_of experiment_root) tested_lib_name = path_of experiment_root @ [''semver'']" by code_simp
  then have "info_dir_ok experiment_root tested_lib_name [path_of experiment_root @ [''semver''] \<mapsto> Dir_Node]"
    by (simp add: info_dir_ok_def is_dir_def info_names_def)
  moreover have "prefix (path_of experiment_root) (path_of (env_current_dir corpus_env))"
  proof -
    have "path_of (env_current_dir corpus_env) = path_of experiment_root @ [''semver'', ''app'']"
      unfolding corpus_env_def by code_simp
    then show ?thesis by simp
  qed
  moreover have "str_split ''/'' (env_out_dir corpus_env) = [[], ''r''] @ [''target'', ''doc'']"
    by (simp add: corpus_env_def str_split_def starts_with_def)
  moreover have "env_crate_name corpus_env \<noteq> ''semver''" "bit_vector (env_bits corpus_env)"
    using list_bits.bit_vector_axioms by (simp_all add: corpus_env_def url_env_def)
  moreover have "tree_ok (env_module corpus_env)" using url_given by (simp add: crate_given_def corpus_env_def)
  ultimately show ?thesis using run_extends_corpus [OF _ corpus_given] by metis
qed

end
