(* ===== verification/Spec2Isabelle.thy ===== *)
theory Spec2Isabelle
  imports Call_Typing Afl_Helpers Graph_Choose Graph_Reverse Sequence_Typing File_Util Driver_Corpus
begin

text \<open>
  FRIES is a fuzz-target generator inside rustdoc (\<open>src/src/librustdoc/fuzz_targets_gen\<close>; file names below
  are relative to it). From the public functions of a Rust library it builds a graph whose edges say
  which result can be passed as which parameter, searches it for sequences of calls that the compiler
  should accept, and prints each sequence as a program that reads its arguments from fuzz input. A
  second mode runs on programs that use the library: it follows the flow of values through their
  function bodies and writes down which calls provide arguments of which, for the search to use.

  \<^bold>\<open>Conventions.\<close> A computation that may panic has type \<open>'a run\<close>, that is \<open>'a option\<close>: \<open>None\<close> is the panic
  (an \<open>unwrap\<close>, an index out of range, an underflow, a \<open>todo!\<close>). Where the source returns an
  \<open>Option\<close> too, the model has \<open>'a option run\<close>. Loops over collections are \<open>map_m\<close>, \<open>fold_m\<close>, \<open>all_m\<close> and
  \<open>ex_m\<close> of \<open>Rust_Prelude\<close>, or structural recursion. \<open>usize\<close> is \<open>nat\<close>; differences that can underflow
  are \<open>sub_m\<close>, sums of counts read from files are \<open>usize_m\<close>; the generated integer readers work on
  words of the width of the source. Printing to the console is left out, except where computing
  the text can panic. Names are those of the source without the leading underscore.

  \<^bold>\<open>Arguments that stand for something outside.\<close> rustdoc's \<open>Cache\<close> is the map from definitions to
  paths; random numbers are a stream of naturals; the iteration order of a hash set or hash map is a
  list argument, and the theorems hold for every order; corpus files are lists of lines, or \<open>None\<close> when
  they cannot be opened. \<open>f32\<close> weights are reals. The compiler's answers about a program (\<open>TyCtxt\<close>: names,
  kinds and bodies of definitions) are the record \<open>Tcx\<close>; the crate \<open>bit_vec\<close> is the record \<open>bit_ops\<close>, with
  its documented laws as the locale \<open>bit_vector\<close> and lists of Booleans as an instance; the regular
  expression that shortens names is a function.

  \<^bold>\<open>Theories and sources.\<close>
  \<^item> \<open>Rust_Prelude\<close>: the monad of panics, strings, lookups, shared lemmas.
  \<^item> \<open>Clean_Types\<close>: types, paths, visibility (\<open>clean/types.rs\<close>, \<open>rustc_hir/src/def.rs\<close>).
  \<^item> \<open>Call_Type\<close> (\<open>call_type.rs\<close>), \<open>Prelude_Type\<close> (\<open>prelude_type.rs\<close>, \<open>FullNameMap\<close> of \<open>impl_util.rs\<close>),
    \<open>Fuzz_Type\<close> (\<open>fuzz_type.rs\<close>), \<open>Api_Util\<close> (\<open>api_util.rs\<close>): how a value is turned into an argument,
    which parameters are fuzzed, and the comparison \<open>_same_type\<close>.
  \<^item> \<open>Call_Typing\<close>: a typing of the printed argument expressions as an inductive relation; what
    \<open>_same_type\<close> and \<open>fuzzable_call_type\<close> choose is well typed, and where it is not.
  \<^item> \<open>Mod_Visibility\<close> (\<open>mod_visibility.rs\<close>), \<open>Api_Function\<close> (\<open>api_function.rs\<close>).
  \<^item> \<open>Afl_Util\<close> (\<open>afl_util.rs\<close>): the texts that read the fuzz input; \<open>Afl_Helpers\<close>: what the texts of the
    helper functions compute on bytes.
  \<^item> \<open>Api_Sequence\<close> (\<open>api_sequence.rs\<close>): both kinds of sequences; the locale \<open>sequence_merge\<close> is the
    contract of merging and is interpreted for both. \<open>Sequence_Text\<close> (\<open>api_sequence.rs\<close>,
    \<open>replay_util.rs\<close>): the targets as text. \<open>Closure_Reads\<close>: what the printed closure does with the
    input; \<open>Body_Scope\<close>: the printed function body as a list of statements, and its variables.
  \<^item> \<open>Api_Graph\<close> (\<open>api_graph.rs\<close>): construction, filters, dependencies, \<open>is_fun_satisfied\<close>.
    \<open>Graph_Safety\<close> states on the list of calls what a safe sequence is (arguments along edges, nothing
    used after a move, borrows respected); \<open>Graph_Total\<close> that no panic is reached;
    \<open>Graph_Dependencies\<close> which edges there are.
  \<^item> \<open>Graph_Search\<close>: \<open>bfs\<close>, \<open>random_walk\<close> and the other searches. \<open>Search_Safety\<close>: the locale \<open>sequence_search\<close> is
    all that the searches rely on, a step that appends a call and keeps a predicate; its lemmas are
    proved once and used through two interpretations on \<open>is_fun_satisfied\<close>, for safety here and for
    the origin of fuzzed arguments in \<open>Sequence_Typing\<close>. \<open>Cover_Search\<close>: \<open>_try_deep_bfs\<close>, \<open>fudge\<close>,
    \<open>_try_to_cover_unvisited_nodes\<close>. \<open>My_Method\<close>: the search guided by a corpus. \<open>Graph_Generate\<close>: the
    choice among the algorithms. \<open>Graph_Reverse\<close>: \<open>_reverse_construct\<close>.
  \<^item> \<open>Graph_Choose\<close>: which sequences are kept. \<open>File_Util\<close> (\<open>file_util.rs\<close>): which files are written, with a
    small model of the file system.
  \<^item> \<open>Clean_Items\<close> (\<open>clean/types.rs\<close>, \<open>formats/item_type.rs\<close>): modules, functions and methods. \<open>Impl_Util\<close>
    (\<open>impl_util.rs\<close>): the names of the crate and the methods of its impl blocks, with \<open>Self\<close> replaced; the
    specification of the replacement is a substitution below references and in path arguments, and
    \<open>hidden_self\<close> says where \<open>Self\<close> stays. \<open>Crate_Context\<close> (\<open>context.rs\<close>): the walk over the
    modules that collects the functions.
  \<^item> \<open>Mir_Body\<close> (\<open>rustc_middle/src/mir\<close>): the blocks, statements and terminators of a function body, and the
    traversal by a \<open>Visitor\<close>, whose overridden methods are a record. \<open>Local_Deps\<close> (first half of
    \<open>extract_dep.rs\<close>): which locals and constants of a body depend on which. \<open>Extract_Dep\<close> (second half): where
    the arguments of its calls come from. \<open>Extract_Info\<close> (\<open>extract_info.rs\<close>): the sequences of calls along the call graph and
    the counts of calls and pairs. \<open>Extract_Print\<close>: the files they are appended to.
  \<^item> \<open>Render_Format\<close> (\<open>formats/renderer.rs\<close>, \<open>lib.rs\<close>): rustdoc's loop over the items of a crate for a backend;
    the locale \<open>steady_renderer\<close> is the contract of a backend whose callbacks do not fail.
    \<open>Crate_Driver\<close> (\<open>context.rs\<close>): \<open>init\<close> with its two modes, and the generator as an instance of that contract.
    \<open>Driver_Targets\<close> and \<open>Driver_Corpus\<close>: a whole run on a library and on a corpus program, from the crate to
    the files on disk.
  \<^item> this theory: the composition of dependencies, search, choice and printing, for breadth-first search.

  \<^bold>\<open>What is shown.\<close> A chosen call type makes a well-typed argument, up to generic arguments of paths, when
  it is \<open>printable\<close> (dereferences and unwraps on the variable itself, no cast to \<open>*mut\<close>) and elements of
  fuzzed slices are passed as they are; the edges of the graph are exactly the compatible pairs. Merging
  sequences and turning a reverse sequence around keep which result or value each argument is. \<open>is_fun_satisfied\<close> never panics and keeps sequences safe, so every search
  does; the breadth-first search computes exactly the buildable sequences up to its bound. The
  printed closure reads within the input, uses every byte once and calls only helpers that are in
  the file, each defined once except the generic slice helper; the printed body declares every variable once and before its use. The files are the
  targets of the chosen sequences, once each, in a fixed order and under different names. The functions
  of the graph are those of the module tree and of the impl blocks, which makes the graph well formed, so
  that a whole run returns and writes the targets. The visitors meet exactly the constants, assignments and calls
  of a body, so that every constant has its column; the data flow of a body is the reflexive and transitive
  closure of its assignments; the extracted sequences and counts are those of the bodies. Theorems
  that describe defects (panics, livelock, integer readers that cannot produce all values) say
  exactly when they occur.

  \<^bold>\<open>Fuel.\<close> Only loops that may run forever have a bound on their steps: \<open>random_walk_loop\<close> and
  \<open>my_loop\<close> return a flag that tells whether the loop has ended, and \<open>random_walk_livelock\<close> shows that it
  need not. \<open>_same_type\<close>, \<open>_reverse_construct\<close>, the visibility fixpoint, the propagation of dependencies and
  the walk over the call graph are proved to end. The backward
  search is a fold over the unvisited nodes with as many rounds as there are nodes.

  \<^bold>\<open>Not modelled.\<close> The rest of rustdoc and of the compiler; a crate comes as the cleaned module tree and
  the cache, a function body as the compiler's optimized MIR. What is printed to the terminal
  (\<open>_print_all_dependencies\<close>, \<open>_print_dependencies\<close>, \<open>_print_reverse_sequence\<close>, \<open>_print_all\<close>, the statistics after the
  searches) and timing. Code that nothing calls and that only returns a value: \<open>_get_succ_indexs\<close>,
  \<open>_select_immutable_or_not\<close>, \<open>_print_symbol\<close>, \<open>is_local\<close>. Directory tables in \<open>file_util.rs\<close> that no code
  reads are left out, as is commented-out code such as the writer for libFuzzer files.
\<close>

section \<open>From the crate to the files\<close>

text \<open>C9. The generator end to end, with breadth-first search. Take a crate with resolved signatures
  whose generic parameters are substituted by primitives, whose functions have printable names
  (\<open>pretty_print\<close>) and whose call types and fuzzed types have printable names and readers
  (\<open>printable_types\<close>). The dependencies are found, the search ends, and the files are produced. File
  \<open>i\<close> is the target, with the number \<open>i\<close>, of a safe sequence whose fuzzed arguments come from the types
  of their parameters and whose arguments are well typed where \<open>args_typed\<close> speaks of them: the call
  type is \<open>printable\<close>, the function has no generic substitutions, and for fuzzed values the elements of
  slices are passed as they are. There are at most 300 files and at most one more than asked for.\<close>

theorem bfs_to_files:
  assumes "resolved_graph g" and "list_all (\<lambda>f. primitive_map (generic_substitutions f)) (api_functions g)"
    and "find_all_dependencies g False = Some g1" and "api_sequences g1 = []" and "printable_types g1"
    and "\<forall>f \<in> set (api_functions g). pretty_print f \<noteq> None"
  shows "\<exists>g2 fh. generate_all_possoble_sequences inp g1 A_Bfs max_num max_len sg = Some (g2, True) \<and>
    FileHelper_new order g2 A_Bfs max_size max_len = Some fh \<and>
    length (test_files fh) \<le> min 300 (max_size + 1) \<and>
    (\<forall>i < length (test_files fh). \<exists>s \<in> set (api_sequences g2). seq_safe g1 s \<and> seq_origin g1 s \<and>
       args_typed g s \<and> to_afl_test_file order g2 s i = Some (test_files fh ! i))"
proof -
  have wf: "graph_wf g1" by (rule find_all_dependencies_graph_wf [OF assms(3,1,2)])
  from bfs_origin [OF wf, of 5 False False] assms(4) obtain g2 where g2: "bfs g1 5 False False = Some g2"
      "same_crate g1 g2" "\<forall>s \<in> set (api_sequences g2). seq_safe g1 s \<and> seq_origin g1 s" by auto
  have "graph_wf g2" using wf by (simp add: same_graph_wf [OF g2(2)])
  moreover have "\<forall>s \<in> set (api_sequences g2). writable g2 s"
    using g2(3) origin_printable [OF assms(5)] by (simp add: writable_def same_seq_safe [OF g2(2)])
  moreover have "\<forall>f \<in> set (api_functions g2). pretty_print f \<noteq> None"
    using assms(6) find_all_dependencies_fields(1) [OF assms(3)] same_fields(1) [OF g2(2)] by simp
  ultimately obtain fh seqs where fh: "FileHelper_new order g2 A_Bfs max_size max_len = Some fh"
      "set seqs \<subseteq> set (api_sequences g2)" "length (test_files fh) = min 300 (length seqs)"
      "length (test_files fh) \<le> max_size + 1"
      "map Some (test_files fh) = map (\<lambda>(i, s). to_afl_test_file order g2 s i) (enumerate 0 (take 300 seqs))"
    using file_helper_result [of g2 order A_Bfs max_size max_len] by blast
  have "to_afl_test_file order g2 (seqs ! i) i = Some (test_files fh ! i) \<and> seqs ! i \<in> set (api_sequences g2)"
    if "i < length (test_files fh)" for i
    using that arg_cong [OF fh(5), of "\<lambda>xs. xs ! i"] fh(2,3) by (simp add: nth_enumerate_eq subset_iff)
  then have "\<exists>s \<in> set (api_sequences g2). seq_safe g1 s \<and> seq_origin g1 s \<and> args_typed g s \<and>
      to_afl_test_file order g2 s i = Some (test_files fh ! i)" if "i < length (test_files fh)" for i
    using that g2(3) sequence_args_typed [OF assms(3)] by blast
  with g2 fh show ?thesis
    by (intro exI [of _ g2] exI [of _ fh]) (simp add: generate_all_possoble_sequences_def)
qed

lemma crate_graph_printable: "printable_types crate_graph_edges"
proof -
  have cm: "graph_cache crate_graph_edges = empty_cache" "full_name_map crate_graph_edges = core_names"
    by (simp_all add: crate_graph_edges_def crate_graph_def ApiGraph_new_def)
  have fs: "set (api_functions crate_graph_edges) = {api ''krate::new'' [T_Primitive P_U32] (Some widget),
      api ''krate::len'' [T_BorrowedRef None Not widget] (Some (T_Primitive P_Usize)),
      api ''krate::eat'' [widget] None}"
    by (simp add: crate_graph_edges_def crate_graph_def)
  have w: "fuzzable_call_type empty_cache core_names (Some Map.empty) widget = Some FCT_NoFuzzable"
    using widget_not_fuzzable by (auto simp: is_fuzzable_type_def bind_eq_Some_conv)
  have "widget \<noteq> T_Primitive P_Str" by (simp add: widget_def)
  with w have r: "fuzzable_call_type empty_cache core_names (Some Map.empty) (T_BorrowedRef None Not widget) =
      Some FCT_NoFuzzable" by simp
  have "readable ft \<and> named ct"
    if "f \<in> set (api_functions crate_graph_edges)" "i < length (inputs f)" "fuzz_from crate_graph_edges f i ft ct"
    for f i ft ct
    using that(1)
  proof (unfold fs, elim insertE emptyE)
    assume "f = api ''krate::new'' [T_Primitive P_U32] (Some widget)"
    with that(2,3) show ?thesis by (auto simp: fuzz_from_def cm actual_type_def api_def)
  next
    assume "f = api ''krate::len'' [T_BorrowedRef None Not widget] (Some (T_Primitive P_Usize))"
    with that(2,3) r widget_substitute show ?thesis by (auto simp: fuzz_from_def cm actual_type_def api_def)
  next
    assume "f = api ''krate::eat'' [widget] None"
    with that(2,3) w widget_substitute show ?thesis by (auto simp: fuzz_from_def cm actual_type_def api_def)
  qed
  then show ?thesis by (auto simp: printable_types_def crate_graph_edges_def)
qed

lemma bfs_to_files_witness:
  "\<exists>g2 fh. generate_all_possoble_sequences no_inputs crate_graph_edges A_Bfs 0 0 False = Some (g2, True) \<and>
    FileHelper_new [OptionHelper, ResultHelper] g2 A_Bfs 10 0 = Some fh \<and> length (test_files fh) \<le> 11 \<and>
    (\<forall>i < length (test_files fh). \<exists>s \<in> set (api_sequences g2). seq_safe crate_graph_edges s \<and>
       args_typed crate_graph s \<and>
       to_afl_test_file [OptionHelper, ResultHelper] g2 s i = Some (test_files fh ! i))"
proof -
  have "list_all (\<lambda>f. primitive_map (generic_substitutions f)) (api_functions crate_graph)"
    by (simp add: crate_graph_def api_def primitive_map_def)
  moreover have "\<forall>f \<in> set (api_functions crate_graph). pretty_print f \<noteq> None"
    by (simp add: crate_graph_def api_def pretty_print_def widget_def)
  ultimately show ?thesis
    using bfs_to_files [OF crate_graph_resolved _ crate_graph_dependencies crate_graph_edges_sequences
        crate_graph_printable, of no_inputs 0 0 False "[OptionHelper, ResultHelper]" 10]
    by fastforce
qed

end
